(* ===== verification/Prelude.thy ===== *)
theory Prelude
  imports Main "HOL-Library.Word"
begin

text \<open>
  The vocabulary the components share.

  \<^item> the C integer types at their width (types.h) and the sizes of param.h;
  \<^item> \<open>outcome\<close>: how a kernel function ends. It returns a value and a state (\<open>Ok\<close>), it
    calls \<open>panic\<close> (console.c, which never returns), it goes to sleep on a channel and waits for a
    wakeup (\<open>Sleep\<close>, with the state at the moment it blocks), or it busy-waits for ever (\<open>Spin\<close>);
  \<^item> \<open>bindk\<close>: sequencing, and \<open>ok\<close>/\<open>okp\<close>: total and partial postconditions with their
    weakest-precondition rules;
  \<^item> little-endian encodings of C integers in byte arrays with their round trips;
  \<^item> lists as arrays.
\<close>

unbundle bit_operations_syntax

named_theorems wp "weakest precondition rules of the outcome type"
named_theorems kdefs "definitions of small kernel helpers, unfolded by the component proofs"

section \<open>Machine integers (types.h)\<close>

type_synonym uchar = "8 word"
type_synonym ushort = "16 word"
type_synonym uint = "32 word"

section \<open>Sleep channels\<close>

text \<open>
  The kernel sleeps on the address of the object it waits for. The addresses it uses are those of
  a buffer, of a cached inode, of the log, of the tick counter, of the two counters of a pipe, of a
  process slot and of the console's read index.
\<close>

datatype chan =
    ChBuf nat
  | ChInode nat
  | ChLog
  | ChTicks
  | ChPipeRead nat
  | ChPipeWrite nat
  | ChProc nat
  | ChInput

section \<open>Outcomes of kernel functions\<close>

datatype ('s, 'a) outcome =
    Ok 'a 's
  | Panic string
  | Sleep chan 's
  | Spin

fun bindk :: "('s, 'a) outcome \<Rightarrow> ('a \<Rightarrow> 's \<Rightarrow> ('s, 'b) outcome) \<Rightarrow> ('s, 'b) outcome" where
  "bindk (Ok a s) f = f a s"
| "bindk (Panic m) f = Panic m"
| "bindk (Sleep c s) f = Sleep c s"
| "bindk Spin f = Spin"

definition ok :: "('s, 'a) outcome \<Rightarrow> ('a \<Rightarrow> 's \<Rightarrow> bool) \<Rightarrow> bool" where
  "ok m Q = (case m of Ok a s \<Rightarrow> Q a s | _ \<Rightarrow> False)"

definition okp :: "('s, 'a) outcome \<Rightarrow> ('a \<Rightarrow> 's \<Rightarrow> bool) \<Rightarrow> bool" where
  "okp m Q = (case m of Ok a s \<Rightarrow> Q a s | _ \<Rightarrow> True)"

lemma bindk_cong [fundef_cong]:
  "m = m' \<Longrightarrow> (\<And>a s. m' = Ok a s \<Longrightarrow> f a s = g a s) \<Longrightarrow> bindk m f = bindk m' g"
  by (cases m') auto

lemma bindk_Ok_iff: "bindk m f = Ok b t \<longleftrightarrow> (\<exists>a s. m = Ok a s \<and> f a s = Ok b t)"
  by (cases m) auto

lemma bindk_assoc: "bindk (bindk m f) g = bindk m (\<lambda>a s. bindk (f a s) g)"
  by (cases m) auto

lemma ok_Ok [wp, simp]: "ok (Ok a s) Q = Q a s"
  by (simp add: ok_def)

lemma ok_other [wp, simp]: "ok (Panic m) Q = False" "ok (Sleep c s) Q = False" "ok Spin Q = False"
  by (simp_all add: ok_def)

lemma okp_Ok [wp, simp]: "okp (Ok a s) Q = Q a s"
  by (simp add: okp_def)

lemma okp_other [wp, simp]: "okp (Panic m) Q = True" "okp (Sleep c s) Q = True" "okp Spin Q = True"
  by (simp_all add: okp_def)

lemma ok_bindk [wp]: "ok (bindk m f) Q = ok m (\<lambda>a s. ok (f a s) Q)"
  by (cases m) auto

lemma okp_bindk [wp]: "okp (bindk m f) Q = okp m (\<lambda>a s. okp (f a s) Q)"
  by (cases m) auto

lemma ok_if [wp]: "ok (if b then m else n) Q = (if b then ok m Q else ok n Q)"
  by simp

lemma okp_if [wp]: "okp (if b then m else n) Q = (if b then okp m Q else okp n Q)"
  by simp

lemma ok_mono: "ok m P \<Longrightarrow> (\<And>a s. P a s \<Longrightarrow> Q a s) \<Longrightarrow> ok m Q"
  by (cases m) auto

lemma okp_mono: "okp m P \<Longrightarrow> (\<And>a s. P a s \<Longrightarrow> Q a s) \<Longrightarrow> okp m Q"
  by (cases m) auto

lemma ok_iff: "ok m Q \<longleftrightarrow> (\<exists>a s. m = Ok a s \<and> Q a s)"
  by (cases m) auto

lemma ok_okp: "ok m Q \<Longrightarrow> okp m Q"
  by (cases m) auto

lemma okE: "ok m Q \<Longrightarrow> (\<And>a s. m = Ok a s \<Longrightarrow> Q a s \<Longrightarrow> P) \<Longrightarrow> P"
  by (auto simp: ok_iff)

lemma okpD: "okp m Q \<Longrightarrow> m = Ok a s \<Longrightarrow> Q a s"
  by simp

section \<open>Byte arrays\<close>

text \<open>
  A C array is a list of its length. \<open>slice off n xs\<close> are the \<open>n\<close> elements from \<open>off\<close>
  (the source of a \<open>memmove\<close>); \<open>splice off ys xs\<close> is \<open>xs\<close> with the elements from \<open>off\<close>
  on overwritten by \<open>ys\<close> (its destination).
\<close>

definition slice :: "nat \<Rightarrow> nat \<Rightarrow> 'a list \<Rightarrow> 'a list" where
  "slice off n xs = take n (drop off xs)"

definition splice :: "nat \<Rightarrow> 'a list \<Rightarrow> 'a list \<Rightarrow> 'a list" where
  "splice off ys xs = take off xs @ ys @ drop (off + length ys) xs"

lemma length_slice [simp]: "length (slice off n xs) = min n (length xs - off)"
  by (simp add: slice_def)

lemma length_splice [simp]: "off + length ys \<le> length xs \<Longrightarrow> length (splice off ys xs) = length xs"
  by (simp add: splice_def)

lemma nth_slice: "off + n \<le> length xs \<Longrightarrow> i < n \<Longrightarrow> slice off n xs ! i = xs ! (off + i)"
  by (simp add: slice_def)

lemma nth_splice:
  "off + length ys \<le> length xs \<Longrightarrow> i < length xs \<Longrightarrow>
   splice off ys xs ! i = (if off \<le> i \<and> i < off + length ys then ys ! (i - off) else xs ! i)"
  by (auto simp: splice_def nth_append)

lemma slice_splice_same [simp]:
  "off + length ys \<le> length xs \<Longrightarrow> n = length ys \<Longrightarrow> slice off n (splice off ys xs) = ys"
  by (simp add: slice_def splice_def)

lemma slice_splice_disjoint:
  assumes "off + length ys \<le> length xs" "o2 + n \<le> length xs" "o2 + n \<le> off \<or> off + length ys \<le> o2"
  shows "slice o2 n (splice off ys xs) = slice o2 n xs"
  using assms by (intro nth_equalityI) (auto simp: nth_slice nth_splice)

lemma splice_slice_id: "off + n \<le> length xs \<Longrightarrow> splice off (slice off n xs) xs = xs"
  by (simp add: slice_def splice_def) (metis add.commute append_take_drop_id drop_drop)

lemma splice_all [simp]: "length ys = length xs \<Longrightarrow> splice 0 ys xs = ys"
  by (simp add: splice_def)

lemma slice_all [simp]: "length xs \<le> n \<Longrightarrow> slice 0 n xs = xs"
  by (simp add: slice_def)

lemma slice_slice:
  "b + m \<le> n \<Longrightarrow> slice b m (slice a n xs) = slice (a + b) m xs"
  by (simp add: slice_def take_drop add.commute min_def)

section \<open>Little-endian integers in byte arrays\<close>

definition enc16 :: "ushort \<Rightarrow> uchar list" where
  "enc16 w = [ucast w, ucast (drop_bit 8 w)]"

definition dec16 :: "uchar list \<Rightarrow> ushort" where
  "dec16 bs = ucast (bs ! 0) OR push_bit 8 (ucast (bs ! 1))"

definition enc32 :: "uint \<Rightarrow> uchar list" where
  "enc32 w = [ucast w, ucast (drop_bit 8 w), ucast (drop_bit 16 w), ucast (drop_bit 24 w)]"

definition dec32 :: "uchar list \<Rightarrow> uint" where
  "dec32 bs = ucast (bs ! 0) OR push_bit 8 (ucast (bs ! 1)) OR push_bit 16 (ucast (bs ! 2))
     OR push_bit 24 (ucast (bs ! 3))"

definition get16 :: "nat \<Rightarrow> uchar list \<Rightarrow> ushort" where
  "get16 off xs = dec16 (slice off 2 xs)"

definition put16 :: "nat \<Rightarrow> ushort \<Rightarrow> uchar list \<Rightarrow> uchar list" where
  "put16 off w xs = splice off (enc16 w) xs"

definition get32 :: "nat \<Rightarrow> uchar list \<Rightarrow> uint" where
  "get32 off xs = dec32 (slice off 4 xs)"

definition put32 :: "nat \<Rightarrow> uint \<Rightarrow> uchar list \<Rightarrow> uchar list" where
  "put32 off w xs = splice off (enc32 w) xs"

lemma length_enc16 [simp]: "length (enc16 w) = 2"
  by (simp add: enc16_def)

lemma length_enc32 [simp]: "length (enc32 w) = 4"
  by (simp add: enc32_def)

lemma dec16_enc16 [simp]: "dec16 (enc16 w) = w"
  by (rule bit_word_eqI) (auto simp: dec16_def enc16_def bit_simps)

lemma dec32_enc32 [simp]: "dec32 (enc32 w) = w"
proof (rule bit_word_eqI)
  fix n assume "n < LENGTH(32)"
  then show "bit (dec32 (enc32 w)) n = bit w n"
    by (cases "24 \<le> n"; cases "16 \<le> n") (auto simp: dec32_def enc32_def bit_simps)
qed

lemma length_put16 [simp]: "off + 2 \<le> length xs \<Longrightarrow> length (put16 off w xs) = length xs"
  by (simp add: put16_def)

lemma length_put32 [simp]: "off + 4 \<le> length xs \<Longrightarrow> length (put32 off w xs) = length xs"
  by (simp add: put32_def)

lemma get16_put16 [simp]: "off + 2 \<le> length xs \<Longrightarrow> get16 off (put16 off w xs) = w"
  by (simp add: get16_def put16_def)

lemma get32_put32 [simp]: "off + 4 \<le> length xs \<Longrightarrow> get32 off (put32 off w xs) = w"
  by (simp add: get32_def put32_def)

lemma get32_put32_disjoint:
  "off + 4 \<le> length xs \<Longrightarrow> o2 + 4 \<le> length xs \<Longrightarrow> o2 + 4 \<le> off \<or> off + 4 \<le> o2 \<Longrightarrow>
   get32 o2 (put32 off w xs) = get32 o2 xs"
  by (simp add: get32_def put32_def slice_splice_disjoint)

lemma get32_splice_disjoint:
  "off + length ys \<le> length xs \<Longrightarrow> o2 + 4 \<le> length xs \<Longrightarrow> o2 + 4 \<le> off \<or> off + length ys \<le> o2 \<Longrightarrow>
   get32 o2 (splice off ys xs) = get32 o2 xs"
  by (simp add: get32_def slice_splice_disjoint)

section \<open>Signed counters\<close>

lemma sint_add_small: "- (2 ^ 31) \<le> sint a + sint b \<Longrightarrow> sint a + sint b < 2 ^ 31 \<Longrightarrow> sint (a + b :: 32 word) = sint a + sint b"
  by (simp add: sint_word_ariths signed_take_bit_int_eq_self)

lemma sint_succ: "0 \<le> sint (w :: 32 word) \<Longrightarrow> sint w < 2 ^ 31 - 1 \<Longrightarrow> sint (w + 1) = sint w + 1"
  using sint_add_small [of w 1] by simp

lemma sint_pred: "0 < sint (w :: 32 word) \<Longrightarrow> sint (w - 1) = sint w - 1"
  using sint_add_small [of w "- 1"] sint_lt [of w] by simp

lemma sint_of_nat_small: "n < 2 ^ 31 \<Longrightarrow> sint (of_nat n :: 32 word) = int n"
  by (simp add: signed_of_nat signed_take_bit_int_eq_self)

section \<open>Scanning a table\<close>

text \<open>
  The kernel's tables (processes, files, inodes, descriptors, mount points) are arrays scanned from
  the front for the first entry that fits; pointers into them are indices here.
\<close>

fun first_index :: "('a \<Rightarrow> bool) \<Rightarrow> 'a list \<Rightarrow> nat option" where
  "first_index P [] = None"
| "first_index P (x # xs) = (if P x then Some 0 else map_option Suc (first_index P xs))"

lemma first_index_None: "first_index P xs = None \<longleftrightarrow> (\<forall>x\<in>set xs. \<not> P x)"
  by (induction xs) auto

lemma first_index_Some:
  "first_index P xs = Some i \<Longrightarrow> i < length xs \<and> P (xs ! i) \<and> (\<forall>j<i. \<not> P (xs ! j))"
proof (induction xs arbitrary: i)
  case (Cons x xs)
  show ?case
  proof (cases "P x")
    case True
    with Cons.prems show ?thesis by auto
  next
    case False
    with Cons.prems obtain k where k: "first_index P xs = Some k" "i = Suc k" by auto
    with Cons.IH [OF k(1)] False show ?thesis by (auto simp: less_Suc_eq_0_disj)
  qed
qed simp

lemma first_index_exists: "i < length xs \<Longrightarrow> P (xs ! i) \<Longrightarrow> \<exists>k\<le>i. first_index P xs = Some k"
proof (induction xs arbitrary: i)
  case (Cons x xs)
  show ?case
  proof (cases i)
    case (Suc n)
    with Cons.prems have "\<exists>k\<le>n. first_index P xs = Some k" by (intro Cons.IH) auto
    with Suc show ?thesis by (auto intro: exI [of _ 0])
  qed (use Cons.prems in simp)
qed simp

lemma first_index_eq:
  assumes "i < length xs" "P (xs ! i)" "\<And>j. j < i \<Longrightarrow> \<not> P (xs ! j)"
  shows "first_index P xs = Some i"
proof -
  obtain k where k: "k \<le> i" "first_index P xs = Some k"
    using first_index_exists [of i xs P] assms(1,2) by blast
  with first_index_Some [OF k(2)] assms(3) show ?thesis by (cases "k = i") auto
qed

lemma first_index_cong: "(\<And>x. x \<in> set xs \<Longrightarrow> P x = Q x) \<Longrightarrow> first_index P xs = first_index Q xs"
  by (induction xs) auto

end
