(* ===== verification/Kalloc.thy ===== *)
theory Kalloc
  imports Prelude
begin

text \<open>
  The physical page allocator (kalloc.c) over kernel memory.

  Memory is a function from kernel addresses to bytes. The free pages form a list threaded through
  the pages themselves: the first word of a free page holds the address of the next one
  (\<open>struct run\<close>). \<open>Flist\<close> relates that heap structure to a list of page addresses. The address
  \<open>end\<close>, the first after the loaded kernel, is fixed by the linker and is a component of the
  state that no operation changes. The body between \<open>acquire(&kmem.lock)\<close> and
  \<open>release(&kmem.lock)\<close> is atomic here.
\<close>

section \<open>Memory layout (memlayout.h, mmu.h)\<close>

definition PGSIZE :: uint where "PGSIZE = 4096"
definition KERNBASE :: uint where "KERNBASE = 0x80000000"
definition PHYSTOP :: uint where "PHYSTOP = 0xE000000"

definition v2p :: "uint \<Rightarrow> uint" where "v2p a = a - KERNBASE"
definition p2v :: "uint \<Rightarrow> uint" where "p2v a = a + KERNBASE"

definition PGROUNDUP :: "uint \<Rightarrow> uint" where
  "PGROUNDUP sz = (sz + PGSIZE - 1) AND NOT (PGSIZE - 1)"

definition PGROUNDDOWN :: "uint \<Rightarrow> uint" where
  "PGROUNDDOWN a = a AND NOT (PGSIZE - 1)"

lemmas layout_defs = PGSIZE_def KERNBASE_def PHYSTOP_def v2p_def p2v_def

section \<open>Memory\<close>

type_synonym memory = "uint \<Rightarrow> uchar"

definition load32 :: "memory \<Rightarrow> uint \<Rightarrow> uint" where
  "load32 m a = dec32 [m a, m (a + 1), m (a + 2), m (a + 3)]"

definition store32 :: "memory \<Rightarrow> uint \<Rightarrow> uint \<Rightarrow> memory" where
  "store32 m a w =
     (let bs = enc32 w in m(a := bs ! 0, a + 1 := bs ! 1, a + 2 := bs ! 2, a + 3 := bs ! 3))"

definition fill :: "memory \<Rightarrow> uint \<Rightarrow> uchar \<Rightarrow> uint \<Rightarrow> memory" where
  "fill m v c n = (\<lambda>a. if a - v < n then c else m a)"

section \<open>The allocator's state and operations\<close>

record kmem_state =
  kmem_mem :: memory
  kmem_freelist :: uint
  kmem_use_lock :: bool
  kend :: uint

definition kfree :: "uint \<Rightarrow> 'a kmem_state_scheme \<Rightarrow> ('a kmem_state_scheme, unit) outcome" where
  "kfree v s =
     (if v mod PGSIZE \<noteq> 0 \<or> v < kend s \<or> PHYSTOP \<le> v2p v then Panic ''kfree''
      else let m = fill (kmem_mem s) v 1 PGSIZE;
               m = store32 m v (kmem_freelist s)
           in Ok () (s\<lparr>kmem_mem := m, kmem_freelist := v\<rparr>))"

definition kalloc :: "'a kmem_state_scheme \<Rightarrow> ('a kmem_state_scheme, uint) outcome" where
  "kalloc s =
     (let r = kmem_freelist s
      in if r \<noteq> 0 then Ok r (s\<lparr>kmem_freelist := load32 (kmem_mem s) r\<rparr>) else Ok r s)"

text \<open>
  The loop of \<open>freerange\<close>. It ends although the pointer could wrap round: \<open>kfree\<close> panics on an
  address at or above \<open>PHYSTOP\<close>, long before.
\<close>

lemma kfree_Ok_D:
  "kfree v s = Ok u t \<Longrightarrow> v mod 4096 = 0 \<and> kend s \<le> v \<and> v - 0x80000000 < 0xE000000"
  by (auto simp: kfree_def layout_defs Let_def linorder_not_le split: if_splits)

lemma unat_next_page: "unat (q :: uint) < 0xE000000 \<Longrightarrow> unat (q + 4096) = unat q + 4096"
  by (simp add: unat_word_ariths)

lemma next_page_phys:
  assumes "p - 0x80000000 < (0xE000000 :: uint)"
  shows "unat (p + 4096 - 0x80000000) = unat (p - 0x80000000) + 4096"
proof -
  have "p + 4096 - 0x80000000 = (p - 0x80000000) + 4096" by simp
  moreover have "unat (p - 0x80000000) < 0xE000000"
    using assms by (simp add: word_less_nat_alt)
  ultimately show ?thesis using unat_next_page by presburger
qed

function freerange_from ::
    "uint \<Rightarrow> uint \<Rightarrow> 'a kmem_state_scheme \<Rightarrow> ('a kmem_state_scheme, unit) outcome" where
  "freerange_from p vend s =
     (if p + PGSIZE \<le> vend then bindk (kfree p s) (\<lambda>_ s. freerange_from (p + PGSIZE) vend s)
      else Ok () s)"
  by pat_completeness auto
termination
proof (relation "measure (\<lambda>(p, vend, s). 0xE001000 - unat (p - 0x80000000))"; clarsimp)
  fix p vend :: uint and s :: "'a kmem_state_scheme" and a
  fix t :: "'a kmem_state_scheme"
  assume "kfree p s = Ok () t"
  then have *: "p - 0x80000000 < 0xE000000"
    by (blast dest: kfree_Ok_D)
  from * show "0xE001000 - unat (p + PGSIZE - 0x80000000) < 0xE001000 - unat (p - 0x80000000)"
    unfolding PGSIZE_def next_page_phys [OF *] by (simp add: word_less_nat_alt)
qed

declare freerange_from.simps [simp del]

definition freerange ::
    "uint \<Rightarrow> uint \<Rightarrow> 'a kmem_state_scheme \<Rightarrow> ('a kmem_state_scheme, unit) outcome" where
  "freerange vstart vend s = freerange_from (PGROUNDUP vstart) vend s"

definition kinit1 ::
    "uint \<Rightarrow> uint \<Rightarrow> 'a kmem_state_scheme \<Rightarrow> ('a kmem_state_scheme, unit) outcome" where
  "kinit1 vstart vend s = freerange vstart vend (s\<lparr>kmem_use_lock := False\<rparr>)"

definition kinit2 ::
    "uint \<Rightarrow> uint \<Rightarrow> 'a kmem_state_scheme \<Rightarrow> ('a kmem_state_scheme, unit) outcome" where
  "kinit2 vstart vend s = bindk (freerange vstart vend s) (\<lambda>_ s. Ok () (s\<lparr>kmem_use_lock := True\<rparr>))"

section \<open>The free list in memory\<close>

primrec Flist :: "memory \<Rightarrow> uint \<Rightarrow> uint list \<Rightarrow> bool" where
  "Flist m a [] = (a = 0)"
| "Flist m a (x # xs) = (a = x \<and> x \<noteq> 0 \<and> Flist m (load32 m x) xs)"

definition page_ok :: "uint \<Rightarrow> uint \<Rightarrow> bool" where
  "page_ok e v \<longleftrightarrow> v mod 4096 = 0 \<and> e \<le> v \<and> v - 0x80000000 < 0xE000000 \<and> v \<noteq> 0"

definition kmem_inv :: "'a kmem_state_scheme \<Rightarrow> uint list \<Rightarrow> bool" where
  "kmem_inv s xs \<longleftrightarrow>
     Flist (kmem_mem s) (kmem_freelist s) xs \<and> distinct xs \<and> (\<forall>x\<in>set xs. page_ok (kend s) x)"

subsection \<open>Distinct pages do not overlap\<close>

lemma aligned_diff_ge:
  fixes x v :: uint
  assumes "x mod 4096 = 0" "v mod 4096 = 0" "x \<noteq> v"
  shows "4096 \<le> unat (x - v) \<and> unat (x - v) \<le> 2 ^ 32 - 4096"
proof -
  have dx: "4096 dvd unat x" and dv: "4096 dvd unat v"
    using arg_cong [OF assms(1), of unat] arg_cong [OF assms(2), of unat]
    by (simp_all add: unat_mod dvd_eq_mod_eq_0)
  have "(4096::nat) dvd unat (x - v)"
  proof (cases "v \<le> x")
    case True
    then have "unat (x - v) = unat x - unat v" by (simp add: unat_sub)
    with dx dv show ?thesis by (simp add: dvd_diff_nat)
  next
    case False
    then have "unat (x - v) = 2 ^ 32 + unat x - unat v"
      by (simp add: unat_sub_if' word_le_nat_alt)
    moreover have "(4096::nat) dvd 2 ^ 32 + unat x"
      using dx by (intro dvd_add) simp_all
    ultimately show ?thesis using dv by (simp add: dvd_diff_nat)
  qed
  then obtain k where k: "unat (x - v) = 4096 * k" by (rule dvdE)
  have "unat (x - v) \<noteq> 0" using assms(3) by (simp add: unat_eq_zero)
  moreover have "unat (x - v) < 2 ^ 32" using unsigned_less [of "x - v"] by simp
  ultimately show ?thesis using k by simp
qed

lemma page_disjoint:
  fixes x v i :: uint
  assumes "x mod 4096 = 0" "v mod 4096 = 0" "x \<noteq> v" "i < 4096"
  shows "\<not> (x + i) - v < 4096"
proof -
  have b: "4096 \<le> unat (x - v)" "unat (x - v) \<le> 2 ^ 32 - 4096"
    using aligned_diff_ge [OF assms(1-3)] by auto
  have i: "unat i < 4096" using assms(4) by (simp add: word_less_nat_alt)
  have "unat ((x - v) + i) = unat (x - v) + unat i"
    using b i by (subst unat_word_ariths) simp
  moreover have eq: "(x + i) - v = (x - v) + i" by simp
  ultimately show ?thesis using b unfolding eq word_less_nat_alt by simp
qed

text \<open>A change of memory confined to the page \<open>v\<close> leaves the words of every other page alone.\<close>

definition same_outside :: "uint \<Rightarrow> memory \<Rightarrow> memory \<Rightarrow> bool" where
  "same_outside v m m' \<longleftrightarrow> (\<forall>a. \<not> a - v < 4096 \<longrightarrow> m' a = m a)"

lemma load32_same_outside:
  assumes "same_outside v m m'" "x mod 4096 = 0" "v mod 4096 = 0" "x \<noteq> v"
  shows "load32 m' x = load32 m x"
proof -
  have "m' (x + i) = m (x + i)" if "i < 4096" for i
    using assms(1) page_disjoint [OF assms(2-4) that] by (simp add: same_outside_def)
  from this [of 0] this [of 1] this [of 2] this [of 3] show ?thesis
    by (simp add: load32_def)
qed

lemma Flist_same_outside:
  assumes "same_outside v m m'" "v mod 4096 = 0" "v \<notin> set xs" "\<forall>x\<in>set xs. x mod 4096 = 0"
  shows "Flist m' a xs = Flist m a xs"
  using assms(3,4)
proof (induction xs arbitrary: a)
  case (Cons x xs)
  then have "x mod 4096 = 0" "x \<noteq> v" by auto
  then have "load32 m' x = load32 m x"
    by (rule load32_same_outside [OF assms(1) _ assms(2)])
  with Cons show ?case by simp
qed simp

lemma load32_store32 [simp]: "load32 (store32 m a w) a = w"
proof -
  have "store32 m a w a = enc32 w ! 0 \<and> store32 m a w (a + 1) = enc32 w ! 1
      \<and> store32 m a w (a + 2) = enc32 w ! 2 \<and> store32 m a w (a + 3) = enc32 w ! 3"
    by (simp add: store32_def Let_def)
  then have "load32 (store32 m a w) a = dec32 [enc32 w ! 0, enc32 w ! 1, enc32 w ! 2, enc32 w ! 3]"
    by (simp add: load32_def)
  also have "[enc32 w ! 0, enc32 w ! 1, enc32 w ! 2, enc32 w ! 3] = enc32 w"
    by (simp add: enc32_def)
  finally show ?thesis by simp
qed

lemma same_outside_kfree:
  "same_outside v m (store32 (fill m v c 4096) v w)"
  by (auto simp: same_outside_def store32_def fill_def Let_def)

section \<open>Every operation keeps the free list\<close>

lemma kfree_inv:
  assumes "kmem_inv s xs" "page_ok (kend s) v" "v \<notin> set xs"
  shows "ok (kfree v s) (\<lambda>_ t. kmem_inv t (v # xs) \<and> kend t = kend s \<and>
           same_outside v (kmem_mem s) (kmem_mem t))"
proof -
  have v: "v mod 4096 = 0" "kend s \<le> v" "v - 0x80000000 < 0xE000000" "v \<noteq> 0"
    using assms(2) by (auto simp: page_ok_def)
  let ?m = "store32 (fill (kmem_mem s) v 1 4096) v (kmem_freelist s)"
  have eq: "kfree v s = Ok () (s\<lparr>kmem_mem := ?m, kmem_freelist := v\<rparr>)"
    using v by (simp add: kfree_def layout_defs Let_def linorder_not_less linorder_not_le)
  have "Flist ?m (kmem_freelist s) xs"
    using assms(1,3) Flist_same_outside [OF same_outside_kfree v(1) assms(3)]
    by (simp add: kmem_inv_def page_ok_def)
  with assms v show ?thesis
    by (simp add: eq kmem_inv_def page_ok_def same_outside_kfree)
qed

lemma kalloc_some:
  assumes "kmem_inv s (x # xs)"
  shows "ok (kalloc s) (\<lambda>r t. r = x \<and> kmem_inv t xs \<and> kmem_mem t = kmem_mem s \<and> kend t = kend s)"
  using assms by (simp add: kalloc_def kmem_inv_def Let_def)

lemma kalloc_none: "kmem_inv s [] \<Longrightarrow> kalloc s = Ok 0 s"
  by (simp add: kalloc_def kmem_inv_def)

lemma kfree_bad:
  assumes "\<not> page_ok (kend s) v" "kend s \<noteq> 0"
  shows "kfree v s = Panic ''kfree''"
proof -
  have "v \<noteq> 0 \<or> v < kend s" using assms(2) by (metis word_gt_0)
  then show ?thesis
    using assms(1) by (auto simp: kfree_def page_ok_def layout_defs linorder_not_less linorder_not_le)
qed

subsection \<open>Freeing a range of pages\<close>

primrec pages :: "nat \<Rightarrow> uint \<Rightarrow> uint list" where
  "pages 0 p = []"
| "pages (Suc n) p = p # pages n (p + 4096)"

lemma set_pages:
  "unat p + 4096 * n < 2 ^ 32 \<Longrightarrow> set (pages n p) = {v. \<exists>i<n. unat v = unat p + 4096 * i}"
proof (induction n arbitrary: p)
  case (Suc n)
  have u: "unat (p + 4096) = unat p + 4096"
    using Suc.prems by (simp add: unat_word_ariths)
  have "set (pages n (p + 4096)) = {v. \<exists>i<n. unat v = unat p + 4096 * Suc i}"
    using Suc by (simp add: u add.assoc)
  moreover have "(\<exists>i<Suc n. unat v = unat p + 4096 * i) \<longleftrightarrow>
      v = p \<or> (\<exists>i<n. unat v = unat p + 4096 * Suc i)" for v
    using less_Suc_eq_0_disj by (auto simp: word_unat_eq_iff)
  ultimately show ?case by auto
qed simp

lemma distinct_pages: "unat p + 4096 * n < 2 ^ 32 \<Longrightarrow> distinct (pages n p)"
proof (induction n arbitrary: p)
  case (Suc n)
  have u: "unat (p + 4096) = unat p + 4096"
    using Suc.prems by (simp add: unat_word_ariths)
  have "p \<notin> set (pages n (p + 4096))"
    using Suc.prems set_pages [of "p + 4096" n] by (auto simp: u)
  with Suc u show ?case by simp
qed simp

lemma freerange_from_inv:
  assumes "kmem_inv s xs" "distinct (pages n p)"
    and "\<forall>v\<in>set (pages n p). page_ok (kend s) v \<and> v \<notin> set xs"
    and "unat p + 4096 * n \<le> unat vend" "unat vend < unat p + 4096 * n + 4096"
    and "unat vend + 4096 < 2 ^ 32"
  shows "ok (freerange_from p vend s) (\<lambda>_ t. kmem_inv t (rev (pages n p) @ xs) \<and> kend t = kend s)"
  using assms
proof (induction n arbitrary: p s xs)
  case 0
  have "unat (p + 4096) = unat p + 4096" using 0 by (simp add: unat_word_ariths)
  then have "\<not> p + PGSIZE \<le> vend" using 0 by (simp add: word_le_nat_alt PGSIZE_def)
  with 0 show ?case by (simp add: freerange_from.simps [of p])
next
  case (Suc n)
  have u: "unat (p + 4096) = unat p + 4096" using Suc.prems by (simp add: unat_word_ariths)
  then have le: "p + PGSIZE \<le> vend" using Suc.prems by (simp add: word_le_nat_alt PGSIZE_def)
  obtain t where t: "kfree p s = Ok () t" "kmem_inv t (p # xs)" "kend t = kend s"
    using kfree_inv [OF Suc.prems(1), of p] Suc.prems(3) by (auto elim!: okE)
  have "ok (freerange_from (p + 4096) vend t)
      (\<lambda>_ t'. kmem_inv t' (rev (pages n (p + 4096)) @ p # xs) \<and> kend t' = kend t)"
    using Suc.prems u t by (intro Suc.IH) auto
  with le t show ?case
    by (simp add: freerange_from.simps [of p] PGSIZE_def)
qed

lemma PGROUNDUP_unat:
  assumes "unat a + 4095 < 2 ^ 32"
  shows "unat (PGROUNDUP a) = (unat a + 4095) div 4096 * 4096"
proof -
  have "PGROUNDUP a = (a + 4095) AND NOT (mask 12)"
    by (simp add: PGROUNDUP_def PGSIZE_def mask_numeral add.commute)
  also have "\<dots> = push_bit 12 (drop_bit 12 (a + 4095))"
    by (rule bit_word_eqI) (auto simp: bit_simps)
  finally have eq: "PGROUNDUP a = push_bit 12 (drop_bit 12 (a + 4095))" .
  have s: "unat (a + 4095) = unat a + 4095" using assms by (simp add: unat_word_ariths)
  have "unat (drop_bit 12 (a + 4095)) = (unat a + 4095) div 4096"
    by (simp add: drop_bit_eq_div unat_div s)
  then show ?thesis
    using assms by (simp add: eq push_bit_eq_mult unat_word_ariths)
qed

lemma page_ok_unat:
  assumes "0x80000000 \<le> e"
  shows "page_ok e v \<longleftrightarrow> 4096 dvd unat v \<and> unat e \<le> unat v \<and> unat v < 0x8E000000"
proof (cases "e \<le> v")
  case True
  then have ge: "0x80000000 \<le> unat v" "0x80000000 \<le> v" "unat e \<le> unat v"
    using assms by (auto simp: word_le_nat_alt)
  then have "unat (v - 0x80000000) = unat v - 0x80000000"
    by (simp add: unat_sub)
  moreover have "v mod 4096 = 0 \<longleftrightarrow> 4096 dvd unat v"
    by (simp add: word_unat_eq_iff unat_mod dvd_eq_mod_eq_0)
  ultimately show ?thesis
    using ge True by (auto simp: page_ok_def word_less_nat_alt)
next
  case False
  then show ?thesis by (auto simp: page_ok_def word_le_nat_alt)
qed

lemma mult_between:
  assumes "(k::nat) * 4096 \<le> v" "4096 dvd v" "v < k * 4096 + 4096 * n"
  shows "\<exists>i<n. v = k * 4096 + 4096 * i"
proof -
  from assms(2) obtain j where j: "v = 4096 * j" by (rule dvdE)
  with assms have "j - k < n" "v = k * 4096 + 4096 * (j - k)" by auto
  then show ?thesis by blast
qed

text \<open>The pages a call \<open>freerange(vstart, vend)\<close> puts on the free list.\<close>

definition range_pages :: "uint \<Rightarrow> uint \<Rightarrow> uint list" where
  "range_pages vstart vend =
     pages ((unat vend - unat (PGROUNDUP vstart)) div 4096) (PGROUNDUP vstart)"

lemma freerange_pages:
  assumes "kmem_inv s xs" "0x80000000 \<le> kend s" "kend s \<le> vstart" "vstart \<le> vend"
    and "vend \<le> 0x8E000000" "4096 dvd unat vend" "\<forall>v\<in>set xs. v < vstart"
  shows "ok (freerange vstart vend s) (\<lambda>_ t. kend t = kend s \<and>
           (\<exists>ys. kmem_inv t ys \<and>
             set ys = set xs \<union> {v. 4096 dvd unat v \<and> unat vstart \<le> unat v \<and> unat v < unat vend}))"
proof -
  define p where "p = PGROUNDUP vstart"
  define n where "n = (unat vend - unat p) div 4096"
  define k where "k = (unat vstart + 4095) div 4096"
  have b: "unat vstart \<le> unat vend" "unat vend \<le> 0x8E000000" "unat (kend s) \<le> unat vstart"
    using assms by (auto simp: word_le_nat_alt)
  obtain q where q: "unat vend = 4096 * q" using assms(6) by (rule dvdE)
  have p: "unat p = k * 4096"
    unfolding p_def k_def using b by (intro PGROUNDUP_unat) simp
  have kq: "k \<le> q" "unat vstart \<le> k * 4096" "k * 4096 < unat vstart + 4096"
    using b q by (auto simp: k_def)
  have n: "n = q - k" by (simp add: n_def p q)
  have sum: "unat p + 4096 * n = unat vend" using kq by (simp add: p q n algebra_simps)
  have set: "set (pages n p) =
      {v. 4096 dvd unat v \<and> unat vstart \<le> unat v \<and> unat v < unat vend}" (is "_ = ?R")
  proof -
    have "set (pages n p) = {v. \<exists>i<n. unat v = k * 4096 + 4096 * i}"
      using set_pages [of p n] sum b by (simp add: p)
    also have "\<dots> = ?R"
    proof (intro set_eqI iffI; clarify)
      fix v i assume "i < n" "unat v = k * 4096 + 4096 * i"
      then show "4096 dvd unat v \<and> unat vstart \<le> unat v \<and> unat v < unat vend"
        using kq sum p by (auto simp: dvd_def intro: exI [of _ "k + i"])
    next
      fix v assume v: "4096 dvd unat v" "unat vstart \<le> unat v" "unat v < unat vend"
      then obtain j where j: "unat v = 4096 * j" by (auto elim: dvdE)
      with v kq have "k \<le> j" by simp
      then show "\<exists>i<n. unat v = k * 4096 + 4096 * i"
        using v sum p j by (intro mult_between) auto
    qed
    finally show ?thesis .
  qed
  have "ok (freerange_from p vend s) (\<lambda>_ t. kmem_inv t (rev (pages n p) @ xs) \<and> kend t = kend s)"
  proof (rule freerange_from_inv)
    show "distinct (pages n p)" using distinct_pages [of p n] sum b by simp
    show "\<forall>v\<in>set (pages n p). page_ok (kend s) v \<and> v \<notin> set xs"
      using assms(2,7) b by (auto simp: set page_ok_unat word_less_nat_alt)
  qed (use assms sum b in auto)
  then show ?thesis
    unfolding freerange_def p_def [symmetric]
    by (rule ok_mono) (auto simp: set intro!: exI [of _ "rev (pages n p) @ xs"])
qed

section \<open>The allocator as an interface\<close>

text \<open>
  What the clients of the allocator (process table, page tables, pipes) rely on: \<open>inv s F\<close> says that
  the free pages are exactly \<open>F\<close>; an allocation takes a page out of \<open>F\<close> or, when there is none,
  returns 0 and changes nothing; a free page can be given back.
\<close>

locale page_allocator =
  fixes alloc :: "'s \<Rightarrow> ('s, uint) outcome"
    and free :: "uint \<Rightarrow> 's \<Rightarrow> ('s, unit) outcome"
    and inv :: "'s \<Rightarrow> uint set \<Rightarrow> bool"
    and page :: "'s \<Rightarrow> uint \<Rightarrow> bool"
  assumes alloc_free_page: "inv s F \<Longrightarrow> F \<noteq> {} \<Longrightarrow>
      ok (alloc s) (\<lambda>p t. p \<in> F \<and> p \<noteq> 0 \<and> inv t (F - {p}) \<and> page t = page s)"
    and alloc_empty: "inv s {} \<Longrightarrow> alloc s = Ok 0 s"
    and free_page: "inv s F \<Longrightarrow> page s p \<Longrightarrow> p \<notin> F \<Longrightarrow>
      ok (free p s) (\<lambda>_ t. inv t (insert p F) \<and> page t = page s)"
    and free_are_pages: "inv s F \<Longrightarrow> p \<in> F \<Longrightarrow> page s p"
begin

lemma alloc_then_free:
  assumes "inv s F" "F \<noteq> {}"
  shows "ok (bindk (alloc s) free) (\<lambda>_ t. inv t F \<and> page t = page s)"
proof -
  have "ok (alloc s) (\<lambda>p t. p \<in> F \<and> p \<noteq> 0 \<and> inv t (F - {p}) \<and> page t = page s)"
    using assms by (rule alloc_free_page)
  then show ?thesis
    unfolding ok_bindk
  proof (rule ok_mono, clarify)
    fix p t assume p: "p \<in> F" and t: "inv t (F - {p})" "page t = page s"
    have "page t p" using free_are_pages [OF assms(1) p] t by simp
    then have "ok (free p t) (\<lambda>_ u. inv u (insert p (F - {p})) \<and> page u = page t)"
      using t(1) by (intro free_page) auto
    then show "ok (free p t) (\<lambda>_ u. inv u F \<and> page u = page s)"
      using p t(2) by (simp add: insert_absorb)
  qed
qed

lemma alloc_twice_distinct:
  assumes "inv s F" "alloc s = Ok p t" "alloc t = Ok q u" "q \<noteq> 0"
  shows "p \<noteq> q"
proof (cases "F = {}")
  case True
  with assms alloc_empty [of s] show ?thesis by auto
next
  case False
  then have t: "inv t (F - {p})" using alloc_free_page [OF assms(1)] assms(2) by simp
  show ?thesis
  proof (cases "F - {p} = {}")
    case True
    with t assms(3,4) alloc_empty [of t] show ?thesis by simp
  next
    case False
    with alloc_free_page [OF t False] assms(3) show ?thesis by auto
  qed
qed

end

definition kmem_free :: "'a kmem_state_scheme \<Rightarrow> uint set \<Rightarrow> bool" where
  "kmem_free s F \<longleftrightarrow> (\<exists>xs. kmem_inv s xs \<and> set xs = F)"

interpretation km: page_allocator kalloc kfree kmem_free "\<lambda>s. page_ok (kend s)"
proof (unfold_locales, goal_cases)
  case (1 s F)
  then obtain ys where ys: "kmem_inv s ys" "set ys = F" by (auto simp: kmem_free_def)
  with 1 obtain x xs where xs: "ys = x # xs" by (cases ys) auto
  with ys have "x \<noteq> 0" "x \<notin> set xs" by (auto simp: kmem_inv_def page_ok_def)
  moreover have "ok (kalloc s) (\<lambda>r t. r = x \<and> kmem_inv t xs \<and> kmem_mem t = kmem_mem s \<and> kend t = kend s)"
    using ys xs by (intro kalloc_some) simp
  moreover have "set xs = F - {x}" using ys xs calculation(2) by auto
  ultimately show ?case
    using ys xs by (elim ok_mono) (auto simp: kmem_free_def)
next
  case (2 s)
  then show ?case by (auto simp: kmem_free_def kalloc_none)
next
  case (3 s F p)
  then obtain xs where "kmem_inv s xs" "set xs = F" by (auto simp: kmem_free_def)
  with 3 have "ok (kfree p s) (\<lambda>_ t. kmem_inv t (p # xs) \<and> kend t = kend s \<and>
      same_outside p (kmem_mem s) (kmem_mem t))"
    by (intro kfree_inv) auto
  moreover have "set (p # xs) = insert p F" using \<open>set xs = F\<close> by simp
  ultimately show ?case
    unfolding kmem_free_def by (elim ok_mono) metis
next
  case (4 s F p)
  then show ?case by (auto simp: kmem_free_def kmem_inv_def)
qed

section \<open>Properties\<close>

text \<open>The pages below 4 MB of physical memory, where the kernel runs at first, and the others.\<close>

abbreviation low_pages :: "uint \<Rightarrow> uint set" where "low_pages e \<equiv> {v. page_ok e v \<and> v < 0x80400000}"
abbreviation high_pages :: "uint \<Rightarrow> uint set" where "high_pages e \<equiv> {v. page_ok e v \<and> 0x80400000 \<le> v}"

lemma four_mb: "p2v 4194304 = 0x80400000" "p2v PHYSTOP = 0x8E000000"
  by (simp_all add: layout_defs)

lemma kinit1_low:
  assumes "kmem_freelist s = 0" "0x80000000 \<le> kend s" "kend s \<le> 0x80400000"
  shows "ok (kinit1 (kend s) (p2v 4194304) s) (\<lambda>_ t. kmem_free t (low_pages (kend s)) \<and> kend t = kend s)"
proof -
  let ?s = "s\<lparr>kmem_use_lock := False\<rparr>"
  have init: "kmem_inv ?s []" using assms(1) by (simp add: kmem_inv_def)
  have low: "low_pages (kend s) = {v. 4096 dvd unat v \<and> unat (kend s) \<le> unat v \<and> unat v < 0x80400000}"
    unfolding page_ok_unat [OF assms(2)] by (auto simp: word_less_nat_alt)
  have "ok (freerange (kend s) 0x80400000 ?s) (\<lambda>_ t. kend t = kend s \<and> (\<exists>ys. kmem_inv t ys \<and>
      set ys = {v. 4096 dvd unat v \<and> unat (kend s) \<le> unat v \<and> unat v < 0x80400000}))"
    using freerange_pages [OF init, of "kend s" "0x80400000"] assms by simp
  then show ?thesis
    unfolding kinit1_def four_mb low by (rule ok_mono) (auto simp: kmem_free_def)
qed

lemma kinit2_high:
  assumes "kmem_free s F" "F \<subseteq> low_pages (kend s)" "0x80000000 \<le> kend s" "kend s \<le> 0x80400000"
  shows "ok (kinit2 (p2v 4194304) (p2v PHYSTOP) s) (\<lambda>_ t. kmem_free t (F \<union> high_pages (kend s)) \<and> kend t = kend s)"
proof -
  obtain xs where xs: "kmem_inv s xs" "set xs = F" using assms(1) by (auto simp: kmem_free_def)
  have k: "unat (kend s) \<le> 0x80400000" using assms(4) by (simp add: word_le_nat_alt)
  have high: "high_pages (kend s) = {v. 4096 dvd unat v \<and> 0x80400000 \<le> unat v \<and> unat v < 0x8E000000}"
    unfolding page_ok_unat [OF assms(3)] using k by (auto simp: word_le_nat_alt)
  have "ok (freerange 0x80400000 0x8E000000 s) (\<lambda>_ t. kend t = kend s \<and> (\<exists>ys. kmem_inv t ys \<and>
      set ys = F \<union> {v. 4096 dvd unat v \<and> 0x80400000 \<le> unat v \<and> unat v < 0x8E000000}))"
    using freerange_pages [OF xs(1), of "0x80400000" "0x8E000000"] assms xs(2) by auto
  then have "ok (freerange 0x80400000 0x8E000000 s) (\<lambda>_ t. ok (Ok () (t\<lparr>kmem_use_lock := True\<rparr>))
      (\<lambda>_ t. kmem_free t (F \<union> high_pages (kend s)) \<and> kend t = kend s))"
    unfolding high by (rule ok_mono) (auto simp: kmem_free_def kmem_inv_def)
  then show ?thesis by (simp only: kinit2_def four_mb ok_bindk)
qed

text \<open>C9: Booting frees every page once, for a kernel that ends between \<open>KERNBASE\<close> and 4 MB of physical memory. \<open>main\<close> first calls \<open>kinit1(end, P2V(4MB))\<close>: from an empty free list it makes a
  well-formed one of exactly the page-aligned addresses from \<open>end\<close> to 4 MB of physical memory. Later, when some of these pages
  are in use (by the kernel's page table and the stacks of other processors), it calls \<open>kinit2(P2V(4MB), P2V(PHYSTOP))\<close>: that adds exactly
  the pages from 4 MB to \<open>PHYSTOP\<close>, whatever is still free of the first ones, and turns locking on. Neither call panics, no page
  is freed twice, and together they free all pages the allocator may own.\<close>

theorem kinit_frees_all_pages:
  assumes "0x80000000 \<le> kend s" "kend s \<le> 0x80400000"
  shows "(kmem_freelist s = 0 \<longrightarrow> ok (kinit1 (kend s) (p2v (4 * 1024 * 1024)) s) (\<lambda>_ t. kmem_free t (low_pages (kend s)))) \<and>
     (\<forall>F. kmem_free s F \<and> F \<subseteq> low_pages (kend s) \<longrightarrow>
        ok (kinit2 (p2v (4 * 1024 * 1024)) (p2v PHYSTOP) s) (\<lambda>_ t. kmem_free t (F \<union> high_pages (kend s)) \<and> kmem_use_lock t)) \<and>
     low_pages (kend s) \<union> high_pages (kend s) = {v. page_ok (kend s) v}"
proof (intro conjI allI impI)
  assume "kmem_freelist s = 0"
  from kinit1_low [OF this assms] show "ok (kinit1 (kend s) (p2v (4 * 1024 * 1024)) s) (\<lambda>_ t. kmem_free t (low_pages (kend s)))"
    by (auto simp: ok_iff)
next
  fix F assume F: "kmem_free s F \<and> F \<subseteq> low_pages (kend s)"
  then obtain t where t: "kinit2 (p2v 4194304) (p2v PHYSTOP) s = Ok () t" "kmem_free t (F \<union> high_pages (kend s))"
    using kinit2_high [OF _ _ assms, of F] by (auto simp: ok_iff)
  then have "kmem_use_lock t" by (auto simp: kinit2_def bindk_Ok_iff)
  with t show "ok (kinit2 (p2v (4 * 1024 * 1024)) (p2v PHYSTOP) s) (\<lambda>_ t. kmem_free t (F \<union> high_pages (kend s)) \<and> kmem_use_lock t)"
    by simp
qed auto

definition kmem_boot_example :: kmem_state where
  "kmem_boot_example =
     \<lparr>kmem_mem = (\<lambda>_. 0), kmem_freelist = 0, kmem_use_lock = False, kend = 0x80100000\<rparr>"

text \<open>Between the two calls the first free page is taken.\<close>

theorem kinit_frees_all_pages_witness:
  "ok (kinit1 0x80100000 (p2v (4 * 1024 * 1024)) kmem_boot_example) (\<lambda>_ t. kmem_free t (low_pages 0x80100000)) \<and>
   (\<exists>p. ok (bindk (kinit1 0x80100000 (p2v (4 * 1024 * 1024)) kmem_boot_example) (\<lambda>_. kalloc)) (\<lambda>r t. r = p \<and>
      ok (kinit2 (p2v (4 * 1024 * 1024)) (p2v PHYSTOP) t) (\<lambda>_ u. kmem_free u ({v. page_ok 0x80100000 v} - {p}))))"
proof -
  have k: "kend kmem_boot_example = 0x80100000" "kmem_freelist kmem_boot_example = 0" by (simp_all add: kmem_boot_example_def)
  obtain t where t: "kinit1 0x80100000 (p2v (4 * 1024 * 1024)) kmem_boot_example = Ok () t" "kmem_free t (low_pages 0x80100000)"
      "kend t = 0x80100000"
    using kinit1_low [of kmem_boot_example] k by (auto simp: ok_iff)
  have "0x80200000 \<in> low_pages 0x80100000" by (simp add: page_ok_def)
  then have "low_pages 0x80100000 \<noteq> {}" by blast
  from km.alloc_free_page [OF t(2) this] obtain p u where
    u: "kalloc t = Ok p u" "p \<in> low_pages 0x80100000" "kmem_free u (low_pages 0x80100000 - {p})"
    by (auto simp: ok_iff)
  have ku: "kend u = 0x80100000" using u(1) t(3) by (auto simp: kalloc_def Let_def split: if_splits)
  have "low_pages 0x80100000 - {p} \<union> high_pages 0x80100000 = {v. page_ok 0x80100000 v} - {p}" using u(2) by auto
  moreover have "ok (kinit2 (p2v (4 * 1024 * 1024)) (p2v PHYSTOP) u)
      (\<lambda>_ w. kmem_free w (low_pages 0x80100000 - {p} \<union> high_pages 0x80100000) \<and> kmem_use_lock w)"
    using kinit_frees_all_pages [of u] u(3) ku by auto
  ultimately show ?thesis using kinit_frees_all_pages [of kmem_boot_example] k t(1) u(1) by (auto simp: ok_iff)
qed

text \<open>C10: Allocation and release are inverse and never hand out a page twice. As long as a page is
  free, \<open>kalloc\<close> succeeds with a page of the free set and \<open>kfree\<close> of that page restores the free
  set; two successful allocations in a row give different pages.\<close>
theorem kalloc_kfree_roundtrip:
  assumes "kmem_free s F" "F \<noteq> {}"
  shows "ok (bindk (kalloc s) kfree) (\<lambda>_ t. kmem_free t F) \<and>
         (\<forall>p t q u. kalloc s = Ok p t \<longrightarrow> kalloc t = Ok q u \<longrightarrow> q \<noteq> 0 \<longrightarrow> p \<in> F \<and> q \<in> F \<and> p \<noteq> q)"
proof (intro conjI allI impI)
  show "ok (bindk (kalloc s) kfree) (\<lambda>_ t. kmem_free t F)"
    using km.alloc_then_free [OF assms] by (rule ok_mono) simp
  fix p t q u assume a: "kalloc s = Ok p t" "kalloc t = Ok q u" "q \<noteq> 0"
  have p: "p \<in> F" "kmem_free t (F - {p})" using km.alloc_free_page [OF assms] a(1) by auto
  then show "p \<in> F" by simp
  show "p \<noteq> q" using km.alloc_twice_distinct [OF assms(1) a] .
  show "q \<in> F"
  proof (cases "F - {p} = {}")
    case True
    with p(2) a(2,3) km.alloc_empty [of t] show ?thesis by simp
  next
    case False
    with km.alloc_free_page [OF p(2) False] a(2) show ?thesis by simp
  qed
qed

definition kmem_two_pages :: kmem_state where
  "kmem_two_pages =
     \<lparr>kmem_mem = store32 (\<lambda>_. 0) 0x80101000 0x80102000, kmem_freelist = 0x80101000,
      kmem_use_lock = True, kend = 0x80100000\<rparr>"

lemma kmem_two_pages_free: "kmem_free kmem_two_pages {0x80101000, 0x80102000}"
proof -
  have "load32 (store32 (\<lambda>_. 0) 0x80101000 0x80102000) 0x80102000 = 0"
    by (simp add: load32_def store32_def enc32_def dec32_def Let_def)
  then have "kmem_inv kmem_two_pages [0x80101000, 0x80102000]"
    by (simp add: kmem_two_pages_def kmem_inv_def page_ok_def)
  then show ?thesis by (force simp: kmem_free_def)
qed

theorem kalloc_kfree_roundtrip_witness:
  "ok (bindk (kalloc kmem_two_pages) kfree) (\<lambda>_ t. kmem_free t {0x80101000, 0x80102000})"
  using kalloc_kfree_roundtrip [OF kmem_two_pages_free] by simp

end
