(* ===== verification/Sched.thy ===== *)
theory Sched
  imports Kalloc
begin

text \<open>
  The process table and the scheduler (proc.h, proc.c).

  A pointer to a process is its index in \<open>ptable.proc\<close>. The trap frame and the saved context of a
  process live at the top of its kernel stack page, in the kernel memory of \<open>Kalloc\<close>; \<open>p_tf\<close> and
  \<open>p_context\<close> are their addresses. \<open>cur\<close> is the per-CPU variable \<open>proc\<close> of the CPU that runs the
  function. The addresses of \<open>forkret\<close> and \<open>trapret\<close> are fixed by the linker. Everything done while
  \<open>ptable.lock\<close> is held is one atomic step.
\<close>

definition NPROC :: nat where "NPROC = 64"
definition NOFILE :: nat where "NOFILE = 16"
definition KSTACKSIZE :: uint where "KSTACKSIZE = 4096"

type_synonym cint = "32 word"

section \<open>Processes\<close>

datatype procstate = UNUSED | EMBRYO | SLEEPING | RUNNABLE | RUNNING | ZOMBIE

record proc =
  p_sz :: uint
  p_pgdir :: uint
  p_kstack :: uint
  p_state :: procstate
  p_pid :: cint
  p_parent :: "nat option"
  p_tf :: uint
  p_context :: uint
  p_chan :: "chan option"
  p_killed :: bool
  p_ofile :: "nat option list"
  p_cwd :: "nat option"
  p_name :: "uchar list"

definition proc0 :: proc where
  "proc0 = \<lparr>p_sz = 0, p_pgdir = 0, p_kstack = 0, p_state = UNUSED, p_pid = 0, p_parent = None,
     p_tf = 0, p_context = 0, p_chan = None, p_killed = False, p_ofile = replicate NOFILE None,
     p_cwd = None, p_name = replicate 16 0\<rparr>"

record sched_state = kmem_state +
  procs :: "proc list"
  nextpid :: cint
  initproc :: "nat option"
  cur :: "nat option"
  forkret_addr :: uint
  trapret_addr :: uint

definition upd_proc :: "nat \<Rightarrow> (proc \<Rightarrow> proc) \<Rightarrow> 'a sched_state_scheme \<Rightarrow> 'a sched_state_scheme" where
  "upd_proc i f s = s\<lparr>procs := (procs s)[i := f (procs s ! i)]\<rparr>"

subsection \<open>Trap frame and context in memory (x86.h, proc.h)\<close>

definition sizeof_trapframe :: uint where "sizeof_trapframe = 76"
definition sizeof_context :: uint where "sizeof_context = 20"

definition tf_eax :: uint where "tf_eax = 28"
definition tf_es :: uint where "tf_es = 40"
definition tf_ds :: uint where "tf_ds = 44"
definition tf_trapno :: uint where "tf_trapno = 48"
definition tf_eip :: uint where "tf_eip = 56"
definition tf_cs :: uint where "tf_cs = 60"
definition tf_eflags :: uint where "tf_eflags = 64"
definition tf_esp :: uint where "tf_esp = 68"
definition tf_ss :: uint where "tf_ss = 72"
definition ctx_eip :: uint where "ctx_eip = 16"

lemmas tf_defs = sizeof_trapframe_def sizeof_context_def tf_eax_def tf_es_def tf_ds_def
  tf_trapno_def tf_eip_def tf_cs_def tf_eflags_def tf_esp_def tf_ss_def ctx_eip_def

section \<open>Operations\<close>

subsection \<open>allocproc\<close>

definition allocproc :: "'a sched_state_scheme \<Rightarrow> ('a sched_state_scheme, nat option) outcome" where
  "allocproc s =
     (case first_index (\<lambda>p. p_state p = UNUSED) (procs s) of
        None \<Rightarrow> Ok None s
      | Some i \<Rightarrow>
          let s = upd_proc i (\<lambda>p. p\<lparr>p_state := EMBRYO, p_pid := nextpid s\<rparr>) s;
              s = s\<lparr>nextpid := nextpid s + 1\<rparr>
          in bindk (kalloc s) (\<lambda>k s.
               let s = upd_proc i (\<lambda>p. p\<lparr>p_kstack := k\<rparr>) s
               in if k = 0 then Ok None (upd_proc i (\<lambda>p. p\<lparr>p_state := UNUSED\<rparr>) s)
                  else let sp = k + KSTACKSIZE;
                           sp = sp - sizeof_trapframe;
                           s = upd_proc i (\<lambda>p. p\<lparr>p_tf := sp\<rparr>) s;
                           sp = sp - 4;
                           s = s\<lparr>kmem_mem := store32 (kmem_mem s) sp (trapret_addr s)\<rparr>;
                           sp = sp - sizeof_context;
                           s = upd_proc i (\<lambda>p. p\<lparr>p_context := sp\<rparr>) s;
                           s = s\<lparr>kmem_mem := fill (kmem_mem s) sp 0 sizeof_context\<rparr>;
                           s = s\<lparr>kmem_mem := store32 (kmem_mem s) (sp + ctx_eip) (forkret_addr s)\<rparr>
                       in Ok (Some i) s))"

subsection \<open>Sleep and wakeup\<close>

definition wake :: "chan option \<Rightarrow> proc \<Rightarrow> proc" where
  "wake c p = (if p_state p = SLEEPING \<and> p_chan p = c then p\<lparr>p_state := RUNNABLE\<rparr> else p)"

definition wakeup1 :: "chan option \<Rightarrow> 'a sched_state_scheme \<Rightarrow> 'a sched_state_scheme" where
  "wakeup1 c s = s\<lparr>procs := map (wake c) (procs s)\<rparr>"

definition wakeup :: "chan \<Rightarrow> 'a sched_state_scheme \<Rightarrow> 'a sched_state_scheme" where
  "wakeup c s = wakeup1 (Some c) s"

text \<open>
  \<open>sched\<close> leaves the CPU to the scheduler. What it checks of the process is here; what it checks of
  the lock and of the interrupt flag is in \<open>Spinlock\<close>.
\<close>

definition sched :: "chan \<Rightarrow> 'a sched_state_scheme \<Rightarrow> ('a sched_state_scheme, 'b) outcome" where
  "sched c s =
     (case cur s of
        None \<Rightarrow> Spin
      | Some i \<Rightarrow> if p_state (procs s ! i) = RUNNING then Panic ''sched running''
                 else Sleep c (s\<lparr>cur := None\<rparr>))"

definition sleep :: "chan \<Rightarrow> 'a sched_state_scheme \<Rightarrow> ('a sched_state_scheme, 'b) outcome" where
  "sleep c s =
     (case cur s of
        None \<Rightarrow> Panic ''sleep''
      | Some i \<Rightarrow> sched c (upd_proc i (\<lambda>p. p\<lparr>p_chan := Some c, p_state := SLEEPING\<rparr>) s))"

text \<open>What \<open>sleep\<close> does when the scheduler resumes process \<open>i\<close>.\<close>

definition sleep_resume :: "nat \<Rightarrow> 'a sched_state_scheme \<Rightarrow> 'a sched_state_scheme" where
  "sleep_resume i s = upd_proc i (\<lambda>p. p\<lparr>p_chan := None\<rparr>) s"

subsection \<open>kill, yield and the scheduler\<close>

definition kill :: "cint \<Rightarrow> 'a sched_state_scheme \<Rightarrow> ('a sched_state_scheme, cint) outcome" where
  "kill pid s =
     (case first_index (\<lambda>p. p_pid p = pid) (procs s) of
        None \<Rightarrow> Ok (-1) s
      | Some i \<Rightarrow>
          let s = upd_proc i (\<lambda>p. p\<lparr>p_killed := True\<rparr>) s;
              s = (if p_state (procs s ! i) = SLEEPING
                   then upd_proc i (\<lambda>p. p\<lparr>p_state := RUNNABLE\<rparr>) s else s)
          in Ok 0 s)"

text \<open>One turn of the scheduler's loop: process \<open>i\<close>, if runnable, becomes the running process.\<close>

definition scheduler_pick :: "nat \<Rightarrow> 'a sched_state_scheme \<Rightarrow> ('a sched_state_scheme, bool) outcome" where
  "scheduler_pick i s =
     (if p_state (procs s ! i) \<noteq> RUNNABLE then Ok False s
      else if p_pgdir (procs s ! i) = 0 then Panic ''switchuvm: no pgdir''
      else Ok True (upd_proc i (\<lambda>p. p\<lparr>p_state := RUNNING\<rparr>) (s\<lparr>cur := Some i\<rparr>)))"

text \<open>\<open>yield\<close>: the running process becomes runnable and the CPU goes back to the scheduler.\<close>

definition yield :: "'a sched_state_scheme \<Rightarrow> ('a sched_state_scheme, unit) outcome" where
  "yield s =
     (case cur s of
        None \<Rightarrow> Spin
      | Some i \<Rightarrow> Ok () ((upd_proc i (\<lambda>p. p\<lparr>p_state := RUNNABLE\<rparr>) s)\<lparr>cur := None\<rparr>))"

text \<open>
  The critical section of \<open>exit\<close>: wake the parent, hand the children to init, become a zombie and
  leave the CPU. (Closing files and releasing the directory come before; see \<open>Process\<close>.)
\<close>

fun pass_children :: "nat \<Rightarrow> nat list \<Rightarrow> 'a sched_state_scheme \<Rightarrow> 'a sched_state_scheme" where
  "pass_children i [] s = s"
| "pass_children i (j # js) s =
     pass_children i js
       (if p_parent (procs s ! j) = Some i
        then let s = upd_proc j (\<lambda>p. p\<lparr>p_parent := initproc s\<rparr>) s
             in if p_state (procs s ! j) = ZOMBIE then wakeup1 (map_option ChProc (initproc s)) s else s
        else s)"

definition exit_table :: "nat \<Rightarrow> 'a sched_state_scheme \<Rightarrow> 'a sched_state_scheme" where
  "exit_table i s =
     (let s = wakeup1 (map_option ChProc (p_parent (procs s ! i))) s;
          s = pass_children i [0..<length (procs s)] s;
          s = upd_proc i (\<lambda>p. p\<lparr>p_state := ZOMBIE\<rparr>) s
      in s\<lparr>cur := None\<rparr>)"

section \<open>Wakeups\<close>

text \<open>The only change to the process table that the disk, log and file system code makes.\<close>

definition woken :: "proc \<Rightarrow> proc \<Rightarrow> bool" where
  "woken p q \<longleftrightarrow> q = p \<or> (p_state p = SLEEPING \<and> q = p\<lparr>p_state := RUNNABLE\<rparr>)"

definition procs_woken :: "proc list \<Rightarrow> proc list \<Rightarrow> bool" where
  "procs_woken ps qs \<longleftrightarrow> list_all2 woken ps qs"

lemma woken_refl [simp]: "woken p p"
  by (simp add: woken_def)

lemma woken_trans: "woken p q \<Longrightarrow> woken q r \<Longrightarrow> woken p r"
  by (auto simp: woken_def)

lemma woken_wake [simp]: "woken p (wake c p)"
  by (simp add: woken_def wake_def)

lemma procs_woken_refl [simp]: "procs_woken ps ps"
  by (simp add: procs_woken_def list_all2_same)

lemma procs_woken_trans: "procs_woken ps qs \<Longrightarrow> procs_woken qs rs \<Longrightarrow> procs_woken ps rs"
  unfolding procs_woken_def by (rule list_all2_trans [OF woken_trans])

lemma procs_woken_wakeup [simp]: "procs_woken (procs s) (procs (wakeup c s))"
  by (simp add: procs_woken_def wakeup_def wakeup1_def list_all2_conv_all_nth)

lemma procs_woken_length: "procs_woken ps qs \<Longrightarrow> length qs = length ps"
  by (auto simp: procs_woken_def dest: list_all2_lengthD)

lemma procs_woken_nth: "procs_woken ps qs \<Longrightarrow> i < length ps \<Longrightarrow> woken (ps ! i) (qs ! i)"
  by (simp add: procs_woken_def list_all2_conv_all_nth)

end
