(* ===== verification/Ide.thy ===== *)
theory Ide
  imports Sched
begin

text \<open>
  Disk buffers (buf.h) and the IDE driver (ide.c), with the in-memory disk of memide.c that serves as
  its specification.

  A pointer to a buffer is its index in \<open>bcache.buf\<close>. \<open>idequeue\<close> is the list of buffers linked by
  \<open>qnext\<close>. The controller is seen through the registers the driver writes (\<open>ide_ports\<close>), the value
  its status port returns (\<open>ide_status\<close>) and the sectors of its two drives (\<open>disk\<close>, indexed by
  the drive-select bit and the sector number). \<open>disk_log\<close> is the sequence of sector writes the drives
  have received; a crash can happen after any of them.
\<close>

definition BSIZE :: nat where "BSIZE = 512"
definition NBUF :: nat where "NBUF = 30"
definition FSSIZE :: uint where "FSSIZE = 1000"

section \<open>State\<close>

text \<open>The three bits of \<open>flags\<close>: \<open>B_BUSY\<close>, \<open>B_VALID\<close>, \<open>B_DIRTY\<close>.\<close>

record buf =
  b_busy :: bool
  b_valid :: bool
  b_dirty :: bool
  b_dev :: uint
  b_blockno :: uint
  b_data :: "uchar list"

record bio_state = sched_state +
  bufs :: "buf list"
  lru :: "nat list"
  idequeue :: "nat list"
  havedisk1 :: bool
  ide_status :: uchar
  ide_ports :: "ushort \<Rightarrow> uchar"
  disk :: "bool \<Rightarrow> uint \<Rightarrow> uchar list"
  disk_log :: "(bool \<times> uint \<times> uchar list) list"

definition upd_buf :: "nat \<Rightarrow> (buf \<Rightarrow> buf) \<Rightarrow> 'a bio_state_scheme \<Rightarrow> 'a bio_state_scheme" where
  "upd_buf i f s = s\<lparr>bufs := (bufs s)[i := f (bufs s ! i)]\<rparr>"

section \<open>The controller\<close>

definition outb :: "ushort \<Rightarrow> uchar \<Rightarrow> 'a bio_state_scheme \<Rightarrow> 'a bio_state_scheme" where
  "outb port v s = s\<lparr>ide_ports := (ide_ports s)(port := v)\<rparr>"

text \<open>The 28-bit sector number and the drive the controller's registers select.\<close>

definition ide_lba :: "(ushort \<Rightarrow> uchar) \<Rightarrow> uint" where
  "ide_lba p = ucast (p 0x1f3) OR push_bit 8 (ucast (p 0x1f4)) OR push_bit 16 (ucast (p 0x1f5))
     OR push_bit 24 (ucast (p 0x1f6) AND 0x0f)"

definition ide_drive :: "(ushort \<Rightarrow> uchar) \<Rightarrow> bool" where
  "ide_drive p = bit (p 0x1f6) 4"

text \<open>Sending a block to the drive and receiving one from it (\<open>outsl\<close>, \<open>insl\<close> on port 0x1f0).\<close>

definition outsl :: "uchar list \<Rightarrow> 'a bio_state_scheme \<Rightarrow> 'a bio_state_scheme" where
  "outsl d s =
     (let drv = ide_drive (ide_ports s); sec = ide_lba (ide_ports s)
      in s\<lparr>disk := (disk s)(drv := (disk s drv)(sec := d)),
           disk_log := disk_log s @ [(drv, sec, d)]\<rparr>)"

definition insl :: "'a bio_state_scheme \<Rightarrow> uchar list" where
  "insl s = disk s (ide_drive (ide_ports s)) (ide_lba (ide_ports s))"

section \<open>The driver\<close>

definition idewait :: "bool \<Rightarrow> 'a bio_state_scheme \<Rightarrow> ('a bio_state_scheme, cint) outcome" where
  "idewait checkerr s =
     (if ide_status s AND (0x80 OR 0x40) \<noteq> 0x40 then Spin
      else if checkerr \<and> ide_status s AND (0x20 OR 0x01) \<noteq> 0 then Ok (-1) s
      else Ok 0 s)"

fun idestart :: "nat option \<Rightarrow> 'a bio_state_scheme \<Rightarrow> ('a bio_state_scheme, unit) outcome" where
  "idestart None s = Panic ''idestart''"
| "idestart (Some b) s =
     (if FSSIZE * 4 \<le> b_blockno (bufs s ! b) then Panic ''incorrect blockno''
      else let sector_per_block = 1;
               sector = b_blockno (bufs s ! b) * sector_per_block
           in bindk (idewait False s) (\<lambda>_ s.
                let s = outb 0x3f6 0 s;
                    s = outb 0x1f2 (ucast sector_per_block) s;
                    s = outb 0x1f3 (ucast (sector AND 0xff)) s;
                    s = outb 0x1f4 (ucast (drop_bit 8 sector AND 0xff)) s;
                    s = outb 0x1f5 (ucast (drop_bit 16 sector AND 0xff)) s;
                    s = outb 0x1f6 (ucast (0xe0 OR push_bit 4 (b_dev (bufs s ! b) AND 1)
                                          OR (drop_bit 24 sector AND 0x0f))) s
                in if b_dirty (bufs s ! b)
                   then Ok () (outsl (b_data (bufs s ! b)) (outb 0x1f7 0x30 s))
                   else Ok () (outb 0x1f7 0x20 s)))"

declare idestart.simps(2) [simp del]

definition ideintr :: "'a bio_state_scheme \<Rightarrow> ('a bio_state_scheme, unit) outcome" where
  "ideintr s =
     (case idequeue s of
        [] \<Rightarrow> Ok () s
      | b # q \<Rightarrow>
          let s = s\<lparr>idequeue := q\<rparr>
          in bindk (if \<not> b_dirty (bufs s ! b)
                    then bindk (idewait True s) (\<lambda>r s.
                           if 0 \<le> sint r then Ok () (upd_buf b (\<lambda>f. f\<lparr>b_data := insl s\<rparr>) s)
                           else Ok () s)
                    else Ok () s) (\<lambda>_ s.
               let s = upd_buf b (\<lambda>f. f\<lparr>b_valid := True\<rparr>) s;
                   s = upd_buf b (\<lambda>f. f\<lparr>b_dirty := False\<rparr>) s;
                   s = wakeup (ChBuf b) s
               in if idequeue s \<noteq> [] then idestart (Some (hd (idequeue s))) s else Ok () s))"

text \<open>
  Waiting for a request: the process sleeps, and each completion interrupt serves the request at
  the head of the queue. The queue shrinks with every interrupt, so its length bounds the number of
  interrupts; if the queue runs dry without serving the buffer the process stays asleep.
\<close>

fun iderw_wait :: "nat \<Rightarrow> nat \<Rightarrow> 'a bio_state_scheme \<Rightarrow> ('a bio_state_scheme, unit) outcome" where
  "iderw_wait n b s =
     (if b_valid (bufs s ! b) \<and> \<not> b_dirty (bufs s ! b) then Ok () s
      else case n of
             0 \<Rightarrow> sleep (ChBuf b) s
           | Suc m \<Rightarrow> bindk (ideintr s) (\<lambda>_ s. iderw_wait m b s))"

declare iderw_wait.simps [simp del]

text \<open>The part of \<open>iderw\<close> before the wait: append the buffer to the queue, start the disk if idle.\<close>

definition ide_submit :: "nat \<Rightarrow> 'a bio_state_scheme \<Rightarrow> ('a bio_state_scheme, unit) outcome" where
  "ide_submit b s =
     (let s = s\<lparr>idequeue := idequeue s @ [b]\<rparr>
      in if hd (idequeue s) = b then idestart (Some b) s else Ok () s)"

definition iderw :: "nat \<Rightarrow> 'a bio_state_scheme \<Rightarrow> ('a bio_state_scheme, unit) outcome" where
  "iderw b s =
     (let f = bufs s ! b
      in if \<not> b_busy f then Panic ''iderw: buf not busy''
         else if b_valid f \<and> \<not> b_dirty f then Panic ''iderw: nothing to do''
         else if b_dev f \<noteq> 0 \<and> \<not> havedisk1 s then Panic ''iderw: ide disk 1 not present''
         else bindk (ide_submit b s) (\<lambda>_ s. iderw_wait (length (idequeue s)) b s))"

text \<open>
  \<open>ideinit\<close>: probe for the second drive. \<open>status1 i\<close> is what the status port returns at the \<open>i\<close>-th
  read after drive 1 has been selected.
\<close>

definition ideinit :: "(nat \<Rightarrow> uchar) \<Rightarrow> 'a bio_state_scheme \<Rightarrow> ('a bio_state_scheme, unit) outcome" where
  "ideinit status1 s =
     bindk (idewait False s) (\<lambda>_ s.
       let s = outb 0x1f6 (0xe0 OR push_bit 4 1) s;
           s = (if list_ex (\<lambda>i. status1 i \<noteq> 0) [0..<1000] then s\<lparr>havedisk1 := True\<rparr> else s);
           s = outb 0x1f6 (0xe0 OR push_bit 4 0) s
       in Ok () s)"

section \<open>The in-memory disk (memide.c)\<close>

text \<open>
  The same interface over an array of blocks: the image linked into the kernel, of \<open>disksize\<close>
  blocks, read and written at once. It is drive 1 here. The size of the image is fixed by the linker.
\<close>

definition memide_ideinit :: "uint \<Rightarrow> uint" where
  "memide_ideinit binary_size = binary_size div 512"

definition memide_iderw ::
    "uint \<Rightarrow> nat \<Rightarrow> 'a bio_state_scheme \<Rightarrow> ('a bio_state_scheme, unit) outcome" where
  "memide_iderw disksize b s =
     (let f = bufs s ! b
      in if \<not> b_busy f then Panic ''iderw: buf not busy''
         else if b_valid f \<and> \<not> b_dirty f then Panic ''iderw: nothing to do''
         else if b_dev f \<noteq> 1 then Panic ''iderw: request not for disk 1''
         else if disksize \<le> b_blockno f then Panic ''iderw: block out of range''
         else if b_dirty f
         then Ok () (upd_buf b (\<lambda>f. f\<lparr>b_valid := True\<rparr>)
                (s\<lparr>bufs := (bufs s)[b := f\<lparr>b_dirty := False\<rparr>],
                   disk := (disk s)(True := (disk s True)(b_blockno f := b_data f)),
                   disk_log := disk_log s @ [(True, b_blockno f, b_data f)]\<rparr>))
         else Ok () (upd_buf b (\<lambda>f. f\<lparr>b_valid := True\<rparr>)
                (upd_buf b (\<lambda>f. f\<lparr>b_data := disk s True (b_blockno f)\<rparr>) s)))"

section \<open>The registers select the block that was asked for\<close>

definition ide_programmed :: "uint \<Rightarrow> uint \<Rightarrow> (ushort \<Rightarrow> uchar) \<Rightarrow> bool" where
  "ide_programmed dev bno p \<longleftrightarrow> ide_drive p = bit dev 0 \<and> ide_lba p = bno"

lemma ide_masks: "(0xff :: uint) = mask 8" "(0x0f :: uint) = mask 4" "(0xe0 :: uint) = push_bit 5 (mask 3)"
  by (simp_all add: mask_eq_exp_minus_1 push_bit_eq_mult)

lemma uint_high_bits: "(w :: uint) < 2 ^ k \<Longrightarrow> k \<le> n \<Longrightarrow> k < 32 \<Longrightarrow> \<not> bit w n"
proof -
  assume w: "w < 2 ^ k" "k \<le> n" "k < 32"
  have "take_bit k w = w"
    using w by (simp add: take_bit_eq_mod word_less_nat_alt word_unat_eq_iff unat_mod)
  then show "\<not> bit w n" using w(2) by (metis bit_take_bit_iff not_le)
qed

lemma byte_of: "(ucast (ucast ((x :: uint) AND 0xff) :: uchar) :: uint) = take_bit 8 x"
  unfolding ide_masks by (rule bit_word_eqI) (auto simp: bit_simps)

lemma nibble_of:
  "(ucast (ucast ((0xe0 :: uint) OR push_bit 4 (d AND 1) OR (x AND 0x0f)) :: uchar) :: uint) AND 0x0f
   = take_bit 4 x"
  unfolding ide_masks by (rule bit_word_eqI) (auto simp: bit_simps)

lemma bytes_join:
  fixes w :: uint
  assumes "w < 2 ^ 28"
  shows "take_bit 8 w OR push_bit 8 (take_bit 8 (drop_bit 8 w)) OR push_bit 16 (take_bit 8 (drop_bit 16 w))
     OR push_bit 24 (take_bit 4 (drop_bit 24 w)) = w" (is "?l = w")
proof (rule bit_word_eqI)
  fix n assume n: "n < LENGTH(32)"
  consider "n < 8" | "8 \<le> n" "n < 16" | "16 \<le> n" "n < 24" | "24 \<le> n" "n < 28" | "28 \<le> n" by linarith
  then show "bit ?l n = bit w n"
    using n uint_high_bits [OF assms, of n] by cases (auto simp: bit_simps)
qed

lemma drive_roundtrip:
  "bit (ucast ((0xe0 :: uint) OR push_bit 4 (d AND 1) OR (w AND 0x0f)) :: uchar) 4 = bit d 0"
  unfolding ide_masks by (auto simp: bit_simps)

section \<open>Effect of one request\<close>

text \<open>
  \<open>ide_sync b\<close> is what a request promises: a dirty buffer is written to its block and becomes clean, a
  buffer that is not dirty receives its block; either is valid afterwards.
\<close>

definition disk_write :: "bool \<Rightarrow> uint \<Rightarrow> uchar list \<Rightarrow> 'a bio_state_scheme \<Rightarrow> 'a bio_state_scheme" where
  "disk_write drv sec d s =
     s\<lparr>disk := (disk s)(drv := (disk s drv)(sec := d)), disk_log := disk_log s @ [(drv, sec, d)]\<rparr>"

definition ide_sync :: "nat \<Rightarrow> 'a bio_state_scheme \<Rightarrow> 'a bio_state_scheme" where
  "ide_sync b s =
     (let f = bufs s ! b; drv = bit (b_dev f) 0
      in if b_dirty f
         then disk_write drv (b_blockno f) (b_data f)
                (upd_buf b (\<lambda>f. f\<lparr>b_valid := True, b_dirty := False\<rparr>) s)
         else upd_buf b (\<lambda>f. f\<lparr>b_data := disk s drv (b_blockno f), b_valid := True, b_dirty := False\<rparr>) s)"

definition ide_ready :: "'a bio_state_scheme \<Rightarrow> bool" where
  "ide_ready s \<longleftrightarrow> ide_status s AND 0xc0 = 0x40 \<and> ide_status s AND 0x21 = 0"

lemma idewait_ready [simp]: "ide_ready s \<Longrightarrow> idewait c s = Ok 0 s"
  by (simp add: idewait_def ide_ready_def)

definition ide_regs :: "uint \<Rightarrow> uint \<Rightarrow> uchar \<Rightarrow> (ushort \<Rightarrow> uchar) \<Rightarrow> ushort \<Rightarrow> uchar" where
  "ide_regs dev sector cmd p = p(0x3f6 := 0, 0x1f2 := 1, 0x1f3 := ucast (sector AND 0xff),
     0x1f4 := ucast (drop_bit 8 sector AND 0xff), 0x1f5 := ucast (drop_bit 16 sector AND 0xff),
     0x1f6 := ucast (0xe0 OR push_bit 4 (dev AND 1) OR (drop_bit 24 sector AND 0x0f)), 0x1f7 := cmd)"

lemma ide_regs_programmed:
  assumes "bno < 4000" shows "ide_programmed dev bno (ide_regs dev bno cmd p)"
proof -
  have bno: "bno < 2 ^ 28" using assms by (simp add: word_less_nat_alt)
  let ?r = "ide_regs dev bno cmd p"
  have r: "?r 0x1f3 = ucast (bno AND 0xff)" "?r 0x1f4 = ucast (drop_bit 8 bno AND 0xff)"
    "?r 0x1f5 = ucast (drop_bit 16 bno AND 0xff)"
    "?r 0x1f6 = ucast (0xe0 OR push_bit 4 (dev AND 1) OR (drop_bit 24 bno AND 0x0f))"
    by (simp_all add: ide_regs_def)
  have "ide_lba ?r = bno"
    unfolding ide_lba_def r byte_of nibble_of by (rule bytes_join [OF bno])
  moreover have "ide_drive ?r = bit dev 0"
    unfolding ide_drive_def r by (rule drive_roundtrip)
  ultimately show ?thesis by (simp add: ide_programmed_def)
qed

lemma idestart_Some:
  assumes "b_blockno (bufs s ! b) < 4000" "ide_ready s"
  shows "\<exists>p. ide_programmed (b_dev (bufs s ! b)) (b_blockno (bufs s ! b)) p \<and>
     idestart (Some b) s =
       Ok () (if b_dirty (bufs s ! b)
              then disk_write (bit (b_dev (bufs s ! b)) 0) (b_blockno (bufs s ! b)) (b_data (bufs s ! b))
                     (s\<lparr>ide_ports := p\<rparr>)
              else s\<lparr>ide_ports := p\<rparr>)"
proof -
  let ?f = "bufs s ! b"
  let ?p = "ide_regs (b_dev ?f) (b_blockno ?f) (if b_dirty ?f then 0x30 else 0x20) (ide_ports s)"
  have p: "ide_programmed (b_dev ?f) (b_blockno ?f) ?p"
    by (rule ide_regs_programmed) (rule assms(1))
  have le: "\<not> FSSIZE * 4 \<le> b_blockno ?f"
    using assms(1) by (simp add: FSSIZE_def linorder_not_le)
  have "idestart (Some b) s =
      Ok () (if b_dirty ?f then outsl (b_data ?f) (s\<lparr>ide_ports := ?p\<rparr>) else s\<lparr>ide_ports := ?p\<rparr>)"
    using le assms(2) by (simp add: idestart.simps(2) outb_def ide_regs_def outsl_def Let_def)
  with p show ?thesis
    by (intro exI [of _ ?p]) (auto simp: outsl_def disk_write_def ide_programmed_def Let_def)
qed

text \<open>A request on an idle controller takes effect at once.\<close>

lemma iderw_idle:
  assumes "idequeue s = []" "b < length (bufs s)" "b_busy (bufs s ! b)"
    and "\<not> (b_valid (bufs s ! b) \<and> \<not> b_dirty (bufs s ! b))"
    and "b_dev (bufs s ! b) = 0 \<or> havedisk1 s" "b_blockno (bufs s ! b) < 4000" "ide_ready s"
  shows "\<exists>p. iderw b s = Ok () (wakeup (ChBuf b) ((ide_sync b s)\<lparr>ide_ports := p\<rparr>))"
proof -
  let ?s = "s\<lparr>idequeue := [b]\<rparr>"
  have "b_blockno (bufs ?s ! b) < 4000" "ide_ready ?s" using assms by (simp_all add: ide_ready_def)
  from idestart_Some [OF this] obtain p where
    p: "ide_programmed (b_dev (bufs s ! b)) (b_blockno (bufs s ! b)) p" and
    st: "idestart (Some b) ?s =
       Ok () (if b_dirty (bufs s ! b)
              then disk_write (bit (b_dev (bufs s ! b)) 0) (b_blockno (bufs s ! b)) (b_data (bufs s ! b))
                     (?s\<lparr>ide_ports := p\<rparr>)
              else ?s\<lparr>ide_ports := p\<rparr>)" by auto
  have "iderw b s = Ok () (wakeup (ChBuf b) ((ide_sync b s)\<lparr>ide_ports := p\<rparr>))"
  proof (cases "b_dirty (bufs s ! b)")
    case True
    with assms p show ?thesis
      by (simp add: iderw_def ide_submit_def st iderw_wait.simps [of "Suc 0"] iderw_wait.simps [of 0] ideintr_def Let_def
        upd_buf_def wakeup_def wakeup1_def ide_sync_def disk_write_def)
  next
    case False
    with assms p show ?thesis
      by (simp add: iderw_def ide_submit_def st iderw_wait.simps [of "Suc 0"] iderw_wait.simps [of 0] ideintr_def Let_def
        upd_buf_def wakeup_def wakeup1_def ide_sync_def insl_def ide_programmed_def ide_ready_def idewait_def)
  qed
  then show ?thesis by blast
qed

section \<open>The queue serves requests in order\<close>

type_synonym ide_core = "buf list \<times> (bool \<Rightarrow> uint \<Rightarrow> uchar list) \<times> (bool \<times> uint \<times> uchar list) list"

definition ide_core :: "'a bio_state_scheme \<Rightarrow> ide_core" where
  "ide_core s = (bufs s, disk s, disk_log s)"

text \<open>Writing the buffer's block, and completing the request, on buffers, drives and write history.\<close>

fun core_start :: "nat \<Rightarrow> ide_core \<Rightarrow> ide_core" where
  "core_start b (bs, d, h) =
     (let f = bs ! b; drv = bit (b_dev f) 0
      in if b_dirty f then (bs, d(drv := (d drv)(b_blockno f := b_data f)), h @ [(drv, b_blockno f, b_data f)])
         else (bs, d, h))"

fun core_finish :: "nat \<Rightarrow> ide_core \<Rightarrow> ide_core" where
  "core_finish b (bs, d, h) =
     (let f = bs ! b
      in (bs[b := f\<lparr>b_data := (if b_dirty f then b_data f else d (bit (b_dev f) 0) (b_blockno f)),
                     b_valid := True, b_dirty := False\<rparr>], d, h))"

definition core_sync :: "nat \<Rightarrow> ide_core \<Rightarrow> ide_core" where
  "core_sync b c = core_finish b (core_start b c)"

lemma core_sync_ide_sync: "ide_core (ide_sync b s) = core_sync b (ide_core s)"
  by (simp add: ide_core_def ide_sync_def core_sync_def disk_write_def upd_buf_def Let_def)

text \<open>The state after all pending requests; the head of the queue has been started already.\<close>

definition ide_abs :: "'a bio_state_scheme \<Rightarrow> ide_core" where
  "ide_abs s = (case idequeue s of [] \<Rightarrow> ide_core s | b # q \<Rightarrow> fold core_sync q (core_finish b (ide_core s)))"

definition submittable :: "nat \<Rightarrow> 'a bio_state_scheme \<Rightarrow> bool" where
  "submittable b s \<longleftrightarrow> b < length (bufs s) \<and> b \<notin> set (idequeue s) \<and>
     b_busy (bufs s ! b) \<and> \<not> (b_valid (bufs s ! b) \<and> \<not> b_dirty (bufs s ! b)) \<and>
     (b_dev (bufs s ! b) = 0 \<or> havedisk1 s) \<and> b_blockno (bufs s ! b) < 4000"

definition ide_inv :: "'a bio_state_scheme \<Rightarrow> bool" where
  "ide_inv s \<longleftrightarrow> ide_ready s \<and> distinct (idequeue s) \<and>
     (\<forall>b\<in>set (idequeue s). b < length (bufs s) \<and> b_blockno (bufs s ! b) < 4000 \<and>
        \<not> (b_valid (bufs s ! b) \<and> \<not> b_dirty (bufs s ! b))) \<and>
     (\<forall>b q. idequeue s = b # q \<longrightarrow>
        ide_programmed (b_dev (bufs s ! b)) (b_blockno (bufs s ! b)) (ide_ports s))"

text \<open>Starting the head of the queue.\<close>

lemma idestart_head:
  assumes "idequeue s = b # q" "ide_ready s" "b_blockno (bufs s ! b) < 4000"
  shows "ok (idestart (Some b) s) (\<lambda>_ s'. ide_core s' = core_start b (ide_core s) \<and> bufs s' = bufs s \<and>
     idequeue s' = idequeue s \<and> ide_status s' = ide_status s \<and> havedisk1 s' = havedisk1 s \<and> procs s' = procs s \<and>
     ide_programmed (b_dev (bufs s ! b)) (b_blockno (bufs s ! b)) (ide_ports s'))"
  using idestart_Some [OF assms(3,2)]
  by (auto simp: ide_core_def disk_write_def Let_def)

lemma submit_simulates:
  assumes "ide_inv s" "submittable b s"
  shows "ok (ide_submit b s) (\<lambda>_ s'. ide_inv s' \<and> ide_abs s' = core_sync b (ide_abs s) \<and>
     idequeue s' = idequeue s @ [b])"
proof (cases "idequeue s")
  case Nil
  let ?s = "s\<lparr>idequeue := [b]\<rparr>"
  have "idequeue ?s = b # []" "ide_ready ?s" "b_blockno (bufs ?s ! b) < 4000"
    using assms by (simp_all add: ide_inv_def ide_ready_def submittable_def)
  from idestart_head [OF this] Nil assms show ?thesis
    by (auto simp: ide_submit_def ide_inv_def ide_abs_def core_sync_def submittable_def ide_ready_def
      ide_core_def elim!: okE)
next
  case (Cons a q)
  with assms show ?thesis
    by (auto simp: ide_submit_def ide_inv_def ide_abs_def submittable_def ide_ready_def ide_core_def)
qed

text \<open>What \<open>ideintr\<close> does before it starts the next request.\<close>

definition ide_complete :: "nat \<Rightarrow> nat list \<Rightarrow> 'a bio_state_scheme \<Rightarrow> 'a bio_state_scheme" where
  "ide_complete b q s = wakeup (ChBuf b) (s\<lparr>idequeue := q, bufs := fst (core_finish b (ide_core s))\<rparr>)"

lemma ideintr_Cons:
  assumes "ide_inv s" "idequeue s = b # q"
  shows "ideintr s = (if q \<noteq> [] then idestart (Some (hd q)) (ide_complete b q s) else Ok () (ide_complete b q s))"
proof -
  have b: "b < length (bufs s)" using assms by (simp add: ide_inv_def)
  show ?thesis
  proof (cases "b_dirty (bufs s ! b)")
    case True
    with assms b show ?thesis
      by (simp add: ideintr_def ide_complete_def ide_core_def upd_buf_def wakeup_def wakeup1_def Let_def)
  next
    case False
    with assms b show ?thesis
      by (simp add: ideintr_def ide_complete_def ide_core_def upd_buf_def wakeup_def wakeup1_def Let_def
        insl_def ide_inv_def ide_programmed_def ide_ready_def idewait_def)
  qed
qed

lemma intr_simulates:
  assumes "ide_inv s"
  shows "ok (ideintr s) (\<lambda>_ s'. ide_inv s' \<and> ide_abs s' = ide_abs s \<and> idequeue s' = tl (idequeue s))"
proof (cases "idequeue s")
  case Nil
  with assms show ?thesis by (simp add: ideintr_def)
next
  case (Cons b q)
  let ?c = "ide_complete b q s"
  have core: "ide_core ?c = core_finish b (ide_core s)"
    by (simp add: ide_complete_def ide_core_def wakeup_def wakeup1_def Let_def)
  have q: "idequeue ?c = q" "ide_ready ?c" "length (bufs ?c) = length (bufs s)"
    using assms by (simp_all add: ide_complete_def wakeup_def wakeup1_def ide_inv_def ide_ready_def
      ide_core_def Let_def)
  have other: "bufs ?c ! j = bufs s ! j" if "j \<noteq> b" for j
    using that by (simp add: ide_complete_def wakeup_def wakeup1_def ide_core_def Let_def)
  show ?thesis
  proof (cases q)
    case Nil
    with Cons assms core q show ?thesis
      by (simp add: ideintr_Cons ide_inv_def ide_abs_def)
  next
    case (Cons c r)
    have nb: "c \<noteq> b" "c < length (bufs s)" "b_blockno (bufs s ! c) < 4000" "b \<notin> set r"
      using assms \<open>idequeue s = b # q\<close> Cons by (auto simp: ide_inv_def)
    have "ok (idestart (Some c) ?c) (\<lambda>_ s'. ide_core s' = core_start c (ide_core ?c) \<and> bufs s' = bufs ?c \<and>
     idequeue s' = idequeue ?c \<and> ide_status s' = ide_status ?c \<and> havedisk1 s' = havedisk1 ?c \<and> procs s' = procs ?c \<and>
     ide_programmed (b_dev (bufs ?c ! c)) (b_blockno (bufs ?c ! c)) (ide_ports s'))"
      using q Cons nb other by (intro idestart_head [where q = r]) auto
    moreover have "\<forall>j\<in>set r. bufs ?c ! j = bufs s ! j"
      using nb(4) other by metis
    ultimately show ?thesis
      using assms \<open>idequeue s = b # q\<close> Cons q core other [OF nb(1)] nb
      by (elim okE) (auto simp: ideintr_Cons ide_inv_def ide_abs_def ide_ready_def core_sync_def)
  qed
qed

text \<open>
  A request submitted behind others is complete when \<open>iderw\<close> returns, and so are all the requests that
  were queued before it.
\<close>

lemma iderw_wait_drains:
  assumes "ide_inv s" "b \<in> set (idequeue s)" "last (idequeue s) = b"
  shows "ok (iderw_wait (length (idequeue s)) b s)
     (\<lambda>_ s'. ide_inv s' \<and> idequeue s' = [] \<and> ide_core s' = ide_abs s)"
  using assms
proof (induction "length (idequeue s)" arbitrary: s)
  case (Suc n)
  have busy: "\<not> (b_valid (bufs s ! b) \<and> \<not> b_dirty (bufs s ! b))"
    using Suc.prems by (auto simp: ide_inv_def)
  obtain s1 where s1: "ideintr s = Ok () s1" "ide_inv s1" "ide_abs s1 = ide_abs s" "idequeue s1 = tl (idequeue s)"
    using intr_simulates [OF Suc.prems(1)] by (auto elim: okE)
  have len: "length (idequeue s1) = n" using s1(4) Suc.hyps(2) by simp
  have step: "iderw_wait (length (idequeue s)) b s = iderw_wait n b s1"
    using busy s1(1) Suc.hyps(2) by (subst iderw_wait.simps) (auto split: nat.split)
  show ?case
  proof (cases n)
    case 0
    then have q: "idequeue s = [b]" using Suc by (cases "idequeue s") auto
    have "ide_core s1 = core_finish b (ide_core s)" using s1 q by (simp add: ide_abs_def)
    then have "b_valid (bufs s1 ! b) \<and> \<not> b_dirty (bufs s1 ! b)"
      using Suc.prems q by (auto simp: ide_core_def Let_def ide_inv_def)
    with step s1 q show ?thesis by (simp add: iderw_wait.simps [of n] ide_abs_def)
  next
    case (Suc m)
    obtain a q where q: "idequeue s = a # q" "q \<noteq> []"
      using Suc Suc.hyps(2) by (cases "idequeue s"; cases "tl (idequeue s)") auto
    have "ok (iderw_wait (length (idequeue s1)) b s1)
       (\<lambda>_ s'. ide_inv s' \<and> idequeue s' = [] \<and> ide_core s' = ide_abs s1)"
      using Suc.prems q s1 len by (intro Suc.hyps(1)) auto
    with step len s1(3) show ?thesis by simp
  qed
qed simp

lemma iderw_queued:
  assumes "ide_inv s" "submittable b s"
  shows "ok (iderw b s) (\<lambda>_ s'. ide_inv s' \<and> idequeue s' = [] \<and> ide_core s' = core_sync b (ide_abs s))"
proof -
  obtain s1 where s1: "ide_submit b s = Ok () s1" "ide_inv s1" "ide_abs s1 = core_sync b (ide_abs s)"
    "idequeue s1 = idequeue s @ [b]"
    using submit_simulates [OF assms] by (auto elim: okE)
  have "iderw b s = iderw_wait (length (idequeue s1)) b s1"
    using assms(2) s1(1) by (auto simp: iderw_def submittable_def Let_def)
  with iderw_wait_drains [OF s1(2), of b] s1(3,4) show ?thesis by simp
qed

text \<open>
  Any interleaving of submissions and completion interrupts: \<open>ide_reach s0 bs s\<close> says that the
  controller can get from \<open>s0\<close> to \<open>s\<close> while the requests \<open>bs\<close> are submitted.
\<close>

inductive ide_reach :: "'a bio_state_scheme \<Rightarrow> nat list \<Rightarrow> 'a bio_state_scheme \<Rightarrow> bool" where
  start: "ide_reach s0 [] s0"
| submit: "ide_reach s0 bs s \<Longrightarrow> submittable b s \<Longrightarrow> ide_submit b s = Ok () s' \<Longrightarrow> ide_reach s0 (bs @ [b]) s'"
| intr: "ide_reach s0 bs s \<Longrightarrow> ideintr s = Ok () s' \<Longrightarrow> ide_reach s0 bs s'"

lemma ide_reach_abs:
  assumes "ide_reach s0 bs s" "ide_inv s0"
  shows "ide_inv s \<and> ide_abs s = fold core_sync bs (ide_abs s0)"
  using assms
proof (induction rule: ide_reach.induct)
  case (submit s0 bs s b s')
  with submit_simulates [of s b] show ?case by simp
next
  case (intr s0 bs s s')
  with intr_simulates [of s] show ?case by simp
qed simp

section \<open>The interface of a disk driver\<close>

text \<open>
  Both drivers offer the same function \<open>iderw\<close>. The contract: on a block the driver accepts, the call
  returns, and buffers, drives and write history are those of \<open>ide_sync\<close>.
\<close>

locale block_device =
  fixes rw :: "nat \<Rightarrow> 'a bio_state_scheme \<Rightarrow> ('a bio_state_scheme, unit) outcome"
    and accepts :: "uint \<Rightarrow> uint \<Rightarrow> 'a bio_state_scheme \<Rightarrow> bool"
  assumes rw_sync: "\<lbrakk>b < length (bufs s); b_busy (bufs s ! b);
      \<not> (b_valid (bufs s ! b) \<and> \<not> b_dirty (bufs s ! b)); idequeue s = [];
      accepts (b_dev (bufs s ! b)) (b_blockno (bufs s ! b)) s\<rbrakk> \<Longrightarrow>
      ok (rw b s) (\<lambda>_ s'. ide_core s' = core_sync b (ide_core s) \<and> idequeue s' = [])"
    and rw_accepts: "rw b s = Ok () s' \<Longrightarrow> accepts d n s' = accepts d n s"
begin

lemma write_read_back:
  assumes "i < length (bufs s)" "j < length (bufs s)" "i \<noteq> j" "b_busy (bufs s ! i)" "b_busy (bufs s ! j)"
    and "b_dirty (bufs s ! i)" "\<not> b_valid (bufs s ! j)" "\<not> b_dirty (bufs s ! j)"
    and "b_dev (bufs s ! i) = b_dev (bufs s ! j)" "b_blockno (bufs s ! i) = b_blockno (bufs s ! j)"
    and "idequeue s = []" "accepts (b_dev (bufs s ! i)) (b_blockno (bufs s ! i)) s"
  shows "ok (bindk (rw i s) (\<lambda>_. rw j))
     (\<lambda>_ s'. b_data (bufs s' ! j) = b_data (bufs s ! i) \<and> b_valid (bufs s' ! j) \<and>
        disk_log s' = disk_log s @
          [(bit (b_dev (bufs s ! i)) 0, b_blockno (bufs s ! i), b_data (bufs s ! i))])"
proof -
  obtain s1 where s1: "rw i s = Ok () s1" "ide_core s1 = core_sync i (ide_core s)" "idequeue s1 = []"
    using rw_sync [of i s] assms by (auto elim: okE)
  have j1: "bufs s1 ! j = bufs s ! j" "length (bufs s1) = length (bufs s)"
    using s1(2) assms by (auto simp: ide_core_def core_sync_def Let_def)
  have "accepts (b_dev (bufs s1 ! j)) (b_blockno (bufs s1 ! j)) s1"
    using rw_accepts [OF s1(1)] j1 assms by simp
  then obtain s2 where s2: "rw j s1 = Ok () s2" "ide_core s2 = core_sync j (ide_core s1)"
    using rw_sync [of j s1] j1 assms s1(3) by (auto elim: okE)
  from s1 s2 assms j1 show ?thesis
    by (auto simp: ide_core_def core_sync_def Let_def)
qed

end

definition ide_same :: "'a bio_state_scheme \<Rightarrow> 'a bio_state_scheme \<Rightarrow> bool" where
  "ide_same s s' \<longleftrightarrow> ide_status s' = ide_status s \<and> havedisk1 s' = havedisk1 s"

lemma ide_same_upd [simp]:
  "ide_same s (t\<lparr>idequeue := q\<rparr>) = ide_same s t" "ide_same s (upd_buf b f t) = ide_same s t"
  "ide_same s (wakeup c t) = ide_same s t" "ide_same s (outb p v t) = ide_same s t"
  "ide_same s (outsl d t) = ide_same s t"
  by (simp_all add: ide_same_def upd_buf_def wakeup_def wakeup1_def outb_def outsl_def Let_def)

lemma idestart_keeps: "ide_same s t \<Longrightarrow> okp (idestart b t) (\<lambda>_. ide_same s)"
  by (cases b) (auto simp: idestart.simps(2) idewait_def Let_def)

lemma ideintr_keeps: "ide_same s t \<Longrightarrow> okp (ideintr t) (\<lambda>_. ide_same s)"
  unfolding ideintr_def Let_def
  by (auto simp: idewait_def split: list.split intro!: idestart_keeps)

lemma iderw_wait_keeps: "ide_same s t \<Longrightarrow> okp (iderw_wait n b t) (\<lambda>_. ide_same s)"
proof (induction n arbitrary: t)
  case 0
  then show ?case by (subst iderw_wait.simps) (auto simp: sleep_def sched_def split: option.split)
next
  case (Suc n)
  have "okp (ideintr t) (\<lambda>_ t. okp (iderw_wait n b t) (\<lambda>_. ide_same s))"
    by (rule okp_mono [OF ideintr_keeps [OF Suc.prems]]) (rule Suc.IH)
  then show ?case using Suc.prems by (subst iderw_wait.simps) (auto simp: okp_bindk)
qed

lemma iderw_keeps: "ide_same s t \<Longrightarrow> okp (iderw b t) (\<lambda>_. ide_same s)"
proof -
  assume t: "ide_same s t"
  have "okp (ide_submit b t) (\<lambda>_. ide_same s)"
    unfolding ide_submit_def Let_def using t by (auto intro!: idestart_keeps)
  then have "okp (ide_submit b t) (\<lambda>_ t. okp (iderw_wait (length (idequeue t)) b t) (\<lambda>_. ide_same s))"
    by (rule okp_mono) (rule iderw_wait_keeps)
  then show ?thesis by (simp add: iderw_def Let_def okp_bindk)
qed

definition ide_accepts :: "uint \<Rightarrow> uint \<Rightarrow> 'a bio_state_scheme \<Rightarrow> bool" where
  "ide_accepts dev bno s \<longleftrightarrow> (dev = 0 \<or> havedisk1 s) \<and> bno < 4000 \<and> ide_ready s"

interpretation ide: block_device iderw ide_accepts
proof unfold_locales
  fix b and s :: "'a bio_state_scheme"
  assume "b < length (bufs s)" "b_busy (bufs s ! b)" "\<not> (b_valid (bufs s ! b) \<and> \<not> b_dirty (bufs s ! b))"
    "idequeue s = []" "ide_accepts (b_dev (bufs s ! b)) (b_blockno (bufs s ! b)) s"
  then show "ok (iderw b s) (\<lambda>_ s'. ide_core s' = core_sync b (ide_core s) \<and> idequeue s' = [])"
    using iderw_queued [of s b] by (auto simp: ide_inv_def submittable_def ide_accepts_def ide_abs_def elim: okE)
next
  fix b d n and s s' :: "'a bio_state_scheme"
  assume "iderw b s = Ok () s'"
  then show "ide_accepts d n s' = ide_accepts d n s"
    using okpD [OF iderw_keeps [of s s b]] by (simp add: ide_accepts_def ide_ready_def ide_same_def)
qed

definition memide_accepts :: "uint \<Rightarrow> uint \<Rightarrow> uint \<Rightarrow> 'a bio_state_scheme \<Rightarrow> bool" where
  "memide_accepts disksize dev bno s \<longleftrightarrow> dev = 1 \<and> bno < disksize"

lemma memide_sync:
  assumes "b < length (bufs s)" "b_busy (bufs s ! b)" "\<not> (b_valid (bufs s ! b) \<and> \<not> b_dirty (bufs s ! b))"
    "memide_accepts n (b_dev (bufs s ! b)) (b_blockno (bufs s ! b)) s"
  shows "\<exists>s'. memide_iderw n b s = Ok () s' \<and> ide_core s' = core_sync b (ide_core s) \<and> idequeue s' = idequeue s"
  using assms
  by (auto simp: memide_iderw_def memide_accepts_def core_sync_def ide_core_def upd_buf_def linorder_not_le Let_def
    intro!: arg_cong [where f = "list_update (bufs s) b"] buf.equality)

interpretation memide: block_device "memide_iderw n" "memide_accepts n" for n
proof unfold_locales
  fix b and s :: "'a bio_state_scheme"
  assume "b < length (bufs s)" "b_busy (bufs s ! b)" "\<not> (b_valid (bufs s ! b) \<and> \<not> b_dirty (bufs s ! b))"
    "idequeue s = []" "memide_accepts n (b_dev (bufs s ! b)) (b_blockno (bufs s ! b)) s"
  then show "ok (memide_iderw n b s) (\<lambda>_ s'. ide_core s' = core_sync b (ide_core s) \<and> idequeue s' = [])"
    using memide_sync [of b s n] by auto
qed (simp add: memide_accepts_def)

section \<open>Properties\<close>

text \<open>The kernel's data before initialisation, with a given content of the drives.\<close>

definition buf0 :: buf where
  "buf0 = \<lparr>b_busy = False, b_valid = False, b_dirty = False, b_dev = 0, b_blockno = 0,
     b_data = replicate BSIZE 0\<rparr>"

definition bio_zero :: "(bool \<Rightarrow> uint \<Rightarrow> uchar list) \<Rightarrow> bio_state" where
  "bio_zero d = \<lparr>kmem_mem = (\<lambda>_. 0), kmem_freelist = 0, kmem_use_lock = False, kend = 0x80110000,
     procs = replicate NPROC proc0, nextpid = 1, initproc = None, cur = None, forkret_addr = 0, trapret_addr = 0,
     bufs = replicate NBUF buf0, lru = [], idequeue = [], havedisk1 = False, ide_status = 0x50,
     ide_ports = (\<lambda>_. 0), disk = d, disk_log = []\<rparr>"

lemmas bio_zero_simps = bio_zero_def buf0_def NBUF_def BSIZE_def

text \<open>
  C11: However submissions of requests and completion interrupts interleave, the queue of the IDE driver
  serves the requests one by one in the order in which they were submitted: once the queue is
  empty, buffers, drives and the sequence of writes the drives received are what performing
  the requests synchronously in that order gives. No interrupt fails, and a call of
  \<open>iderw\<close> made at any moment returns with its own request and all earlier ones complete.
\<close>

theorem ide_requests_fifo:
  assumes "ide_inv s0" "ide_reach s0 bs s"
  shows "(idequeue s = [] \<longrightarrow> ide_core s = fold core_sync bs (ide_abs s0)) \<and>
     ok (ideintr s) (\<lambda>_ s'. idequeue s' = tl (idequeue s)) \<and>
     (submittable b s \<longrightarrow>
       ok (iderw b s) (\<lambda>_ s'. idequeue s' = [] \<and> ide_core s' = core_sync b (fold core_sync bs (ide_abs s0))))"
proof -
  have s: "ide_inv s" "ide_abs s = fold core_sync bs (ide_abs s0)"
    using ide_reach_abs [OF assms(2,1)] by auto
  have "idequeue s = [] \<longrightarrow> ide_core s = ide_abs s" by (simp add: ide_abs_def)
  moreover have "ok (ideintr s) (\<lambda>_ s'. idequeue s' = tl (idequeue s))"
    by (rule ok_mono [OF intr_simulates [OF s(1)]]) simp
  moreover have "ok (iderw b s) (\<lambda>_ s'. idequeue s' = [] \<and> ide_core s' = core_sync b (ide_abs s))"
    if "submittable b s"
    by (rule ok_mono [OF iderw_queued [OF s(1) that]]) simp
  ultimately show ?thesis using s(2) by simp
qed

definition ide_example :: bio_state where
  "ide_example = upd_buf 0 (\<lambda>f. f\<lparr>b_busy := True, b_dirty := True, b_valid := True, b_blockno := 7\<rparr>)
     (upd_buf 1 (\<lambda>f. f\<lparr>b_busy := True, b_blockno := 7\<rparr>) (bio_zero (\<lambda>_ _. replicate BSIZE 1)))"

lemma ide_example_inv: "ide_inv ide_example" "submittable 0 ide_example" "submittable 1 ide_example"
  by (simp_all add: ide_example_def ide_inv_def ide_ready_def submittable_def upd_buf_def bio_zero_simps)

theorem ide_requests_fifo_witness:
  "\<exists>s. ide_submit 0 ide_example = Ok () s \<and> idequeue s = [0] \<and>
     ok (iderw 1 s) (\<lambda>_ s'. ide_core s' = core_sync 1 (core_sync 0 (ide_core ide_example)))"
proof -
  have e: "ide_abs ide_example = ide_core ide_example" "havedisk1 ide_example = False"
    by (simp_all add: ide_abs_def ide_example_def upd_buf_def bio_zero_simps)
  obtain s where s: "ide_submit 0 ide_example = Ok () s" "idequeue s = [0]"
      "bufs s = bufs ide_example"
    using idestart_head [of "ide_example\<lparr>idequeue := [0]\<rparr>" 0 "[]"] ide_example_inv
    by (auto simp: ide_submit_def ide_inv_def ide_ready_def submittable_def ide_example_def upd_buf_def
      bio_zero_simps elim!: okE)
  have "ide_reach ide_example ([] @ [0]) s"
    by (rule ide_reach.submit [OF ide_reach.start ide_example_inv(2) s(1)])
  moreover have "submittable 1 s"
    using ide_example_inv(3) s(2,3) by (simp add: submittable_def ide_example_def upd_buf_def bio_zero_simps)
  ultimately show ?thesis
    using ide_requests_fifo [OF ide_example_inv(1), of "[0]" s 1] s e by (auto elim!: okE)
qed

text \<open>
  C12: The interrupt-driven driver of ide.c and the in-memory driver of memide.c do the same: on a
  request for disk 1 that both accept, both return, and leave the same buffers, the same disk content and
  the same history of writes.
\<close>

theorem ide_equiv_memide:
  assumes "b < length (bufs s)" "b_busy (bufs s ! b)" "\<not> (b_valid (bufs s ! b) \<and> \<not> b_dirty (bufs s ! b))"
    and "idequeue s = []" "ide_ready s" "havedisk1 s" "b_dev (bufs s ! b) = 1"
    and "b_blockno (bufs s ! b) < n" "n \<le> 4000"
  shows "\<exists>s1 s2. iderw b s = Ok () s1 \<and> memide_iderw n b s = Ok () s2 \<and>
     bufs s1 = bufs s2 \<and> disk s1 = disk s2 \<and> disk_log s1 = disk_log s2"
proof -
  have acc: "ide_accepts (b_dev (bufs s ! b)) (b_blockno (bufs s ! b)) s"
    "memide_accepts n (b_dev (bufs s ! b)) (b_blockno (bufs s ! b)) s"
    using assms by (auto simp: ide_accepts_def memide_accepts_def)
  obtain s1 s2 where "iderw b s = Ok () s1" "memide_iderw n b s = Ok () s2" "ide_core s1 = ide_core s2"
    using ide.rw_sync [OF assms(1-4) acc(1)] memide.rw_sync [OF assms(1-4) acc(2)] by (auto elim!: okE)
  then show ?thesis by (simp add: ide_core_def)
qed

theorem ide_equiv_memide_witness:
  "let s = (bio_zero (\<lambda>_ _. replicate BSIZE 1))\<lparr>havedisk1 := True,
         bufs := [buf0\<lparr>b_busy := True, b_dev := 1, b_blockno := 5\<rparr>]\<rparr>
   in \<exists>s1 s2. iderw 0 s = Ok () s1 \<and> memide_iderw 1000 0 s = Ok () s2 \<and>
     bufs s1 = bufs s2 \<and> disk s1 = disk s2 \<and> disk_log s1 = disk_log s2"
  unfolding Let_def
  by (rule ide_equiv_memide) (simp_all add: bio_zero_simps ide_ready_def)

end
