(* ===== verification/Bio.thy ===== *)
theory Bio
  imports Ide
begin

text \<open>
  The buffer cache (bio.c): \<open>bget\<close>, \<open>bread\<close>, \<open>bwrite\<close>, \<open>brelse\<close> over the buffers of \<open>Ide\<close>.

  \<open>lru\<close> is the ring through \<open>bcache.head\<close> as the list of its buffers from \<open>head.next\<close> to
  \<open>head.prev\<close>; unlinking a buffer and linking it behind \<open>head\<close> are removal from and insertion at the
  front of this list.
\<close>

section \<open>Operations\<close>

fun binit_loop :: "nat list \<Rightarrow> 'a bio_state_scheme \<Rightarrow> 'a bio_state_scheme" where
  "binit_loop [] s = s"
| "binit_loop (b # bs) s = binit_loop bs ((upd_buf b (\<lambda>f. f\<lparr>b_dev := -1\<rparr>) s)\<lparr>lru := b # lru s\<rparr>)"

definition binit :: "'a bio_state_scheme \<Rightarrow> 'a bio_state_scheme" where
  "binit s = binit_loop [0..<NBUF] (s\<lparr>lru := []\<rparr>)"

definition bget :: "uint \<Rightarrow> uint \<Rightarrow> 'a bio_state_scheme \<Rightarrow> ('a bio_state_scheme, nat) outcome" where
  "bget dev blockno s =
     (case find (\<lambda>b. b_dev (bufs s ! b) = dev \<and> b_blockno (bufs s ! b) = blockno) (lru s) of
        Some b \<Rightarrow> if \<not> b_busy (bufs s ! b) then Ok b (upd_buf b (\<lambda>f. f\<lparr>b_busy := True\<rparr>) s)
                 else sleep (ChBuf b) s
      | None \<Rightarrow>
          (case find (\<lambda>b. \<not> b_busy (bufs s ! b) \<and> \<not> b_dirty (bufs s ! b)) (rev (lru s)) of
             Some b \<Rightarrow> Ok b (upd_buf b (\<lambda>f. f\<lparr>b_dev := dev, b_blockno := blockno,
                         b_busy := True, b_valid := False, b_dirty := False\<rparr>) s)
           | None \<Rightarrow> Panic ''bget: no buffers''))"

definition bread :: "uint \<Rightarrow> uint \<Rightarrow> 'a bio_state_scheme \<Rightarrow> ('a bio_state_scheme, nat) outcome" where
  "bread dev blockno s =
     bindk (bget dev blockno s) (\<lambda>b s.
       if \<not> b_valid (bufs s ! b) then bindk (iderw b s) (\<lambda>_ s. Ok b s) else Ok b s)"

definition bwrite :: "nat \<Rightarrow> 'a bio_state_scheme \<Rightarrow> ('a bio_state_scheme, unit) outcome" where
  "bwrite b s =
     (if \<not> b_busy (bufs s ! b) then Panic ''bwrite''
      else iderw b (upd_buf b (\<lambda>f. f\<lparr>b_dirty := True\<rparr>) s))"

definition brelse :: "nat \<Rightarrow> 'a bio_state_scheme \<Rightarrow> ('a bio_state_scheme, unit) outcome" where
  "brelse b s =
     (if \<not> b_busy (bufs s ! b) then Panic ''brelse''
      else let s = s\<lparr>lru := b # remove1 b (lru s)\<rparr>;
               s = upd_buf b (\<lambda>f. f\<lparr>b_busy := False\<rparr>) s
           in Ok () (wakeup (ChBuf b) s))"

section \<open>Invariant and abstraction\<close>

type_synonym bkey = "uint \<times> uint"

definition bkey :: "buf \<Rightarrow> bkey" where
  "bkey f = (b_dev f, b_blockno f)"

lemma bkey_upd [simp]:
  "bkey (f\<lparr>b_busy := x\<rparr>) = bkey f" "bkey (f\<lparr>b_valid := x\<rparr>) = bkey f" "bkey (f\<lparr>b_dirty := x\<rparr>) = bkey f"
  "bkey (f\<lparr>b_data := d\<rparr>) = bkey f"
  by (simp_all add: bkey_def)

definition dsk :: "'a bio_state_scheme \<Rightarrow> bkey \<Rightarrow> uchar list" where
  "dsk s k = (if fst k = 0 then disk s False (snd k) else if fst k = 1 then disk s True (snd k) else [])"

definition baccept :: "'a bio_state_scheme \<Rightarrow> bkey \<Rightarrow> bool" where
  "baccept s k \<longleftrightarrow> (fst k = 0 \<or> fst k = 1 \<and> havedisk1 s) \<and> snd k < 4000"

definition buf_ok :: "'a bio_state_scheme \<Rightarrow> buf \<Rightarrow> bool" where
  "buf_ok s f \<longleftrightarrow> length (b_data f) = BSIZE \<and> (b_dirty f \<longrightarrow> b_valid f) \<and>
     (b_valid f \<longrightarrow> b_dev f \<noteq> -1) \<and> (b_dev f \<noteq> -1 \<longrightarrow> baccept s (bkey f)) \<and>
     (b_dev f \<noteq> -1 \<and> \<not> b_busy f \<longrightarrow> b_valid f) \<and>
     (b_valid f \<and> \<not> b_dirty f \<and> \<not> b_busy f \<longrightarrow> b_data f = dsk s (bkey f))"

definition bio_inv :: "'a bio_state_scheme \<Rightarrow> bool" where
  "bio_inv s \<longleftrightarrow> length (bufs s) = NBUF \<and> distinct (lru s) \<and> set (lru s) = {..<NBUF} \<and>
     (\<forall>i<NBUF. buf_ok s (bufs s ! i)) \<and>
     (\<forall>i<NBUF. \<forall>j<NBUF. b_dev (bufs s ! i) \<noteq> -1 \<longrightarrow> bkey (bufs s ! i) = bkey (bufs s ! j) \<longrightarrow> i = j) \<and>
     ide_ready s \<and> idequeue s = [] \<and> (\<forall>d n. length (disk s d n) = BSIZE)"

text \<open>The content of a block as the kernel sees it: the cached copy if there is one, the disk otherwise.\<close>

definition bview :: "'a bio_state_scheme \<Rightarrow> bkey \<Rightarrow> uchar list" where
  "bview s k =
     (case first_index (\<lambda>f. bkey f = k \<and> b_valid f) (bufs s) of
        Some i \<Rightarrow> b_data (bufs s ! i)
      | None \<Rightarrow> dsk s k)"

definition busy :: "'a bio_state_scheme \<Rightarrow> nat set" where
  "busy s = {i. i < NBUF \<and> b_busy (bufs s ! i)}"

definition dirty :: "'a bio_state_scheme \<Rightarrow> bkey set" where
  "dirty s = {bkey (bufs s ! i) | i. i < NBUF \<and> b_dirty (bufs s ! i)}"

text \<open>Buffer \<open>i\<close> is locked by the caller and holds block \<open>k\<close>.\<close>

definition held :: "'a bio_state_scheme \<Rightarrow> nat \<Rightarrow> bkey \<Rightarrow> bool" where
  "held s i k \<longleftrightarrow> i < NBUF \<and> b_busy (bufs s ! i) \<and> b_valid (bufs s ! i) \<and> bkey (bufs s ! i) = k"

definition bdata :: "'a bio_state_scheme \<Rightarrow> nat \<Rightarrow> uchar list" where
  "bdata s i = b_data (bufs s ! i)"

text \<open>Everything that is not the buffer cache and not the disk; the process table up to wakeups.\<close>

definition bio_frame :: "'a bio_state_scheme \<Rightarrow> 'a bio_state_scheme \<Rightarrow> bool" where
  "bio_frame s s' \<longleftrightarrow> kmem_mem s' = kmem_mem s \<and> kmem_freelist s' = kmem_freelist s \<and>
     kmem_use_lock s' = kmem_use_lock s \<and> kend s' = kend s \<and> nextpid s' = nextpid s \<and>
     initproc s' = initproc s \<and> cur s' = cur s \<and> forkret_addr s' = forkret_addr s \<and>
     trapret_addr s' = trapret_addr s \<and> havedisk1 s' = havedisk1 s \<and> ide_status s' = ide_status s \<and>
     procs_woken (procs s) (procs s') \<and> bio_state.more s' = bio_state.more s"

lemma bio_frame_refl [simp]: "bio_frame s s"
  by (simp add: bio_frame_def)

lemma bio_frame_trans: "bio_frame s t \<Longrightarrow> bio_frame t u \<Longrightarrow> bio_frame s u"
  by (auto simp: bio_frame_def elim: procs_woken_trans)

lemma baccept_frame: "bio_frame s s' \<Longrightarrow> baccept s' k = baccept s k"
  by (simp add: bio_frame_def baccept_def)

section \<open>Basic facts\<close>

lemma bio_invD:
  assumes "bio_inv s"
  shows "length (bufs s) = NBUF" "distinct (lru s)" "set (lru s) = {..<NBUF}"
    "\<And>i. i < NBUF \<Longrightarrow> buf_ok s (bufs s ! i)" "ide_ready s" "idequeue s = []" "length (disk s d n) = BSIZE"
  using assms by (auto simp: bio_inv_def)

lemma bio_inv_unique:
  "\<lbrakk>bio_inv s; i < NBUF; j < NBUF; b_dev (bufs s ! i) \<noteq> -1; bkey (bufs s ! i) = bkey (bufs s ! j)\<rbrakk> \<Longrightarrow> i = j"
  by (simp add: bio_inv_def)

lemma buf_okD:
  assumes "bio_inv s" "i < NBUF"
  shows "length (b_data (bufs s ! i)) = BSIZE" "b_dirty (bufs s ! i) \<Longrightarrow> b_valid (bufs s ! i)"
    "b_valid (bufs s ! i) \<Longrightarrow> b_dev (bufs s ! i) \<noteq> -1"
    "b_dev (bufs s ! i) \<noteq> -1 \<Longrightarrow> baccept s (bkey (bufs s ! i))"
    "\<lbrakk>b_valid (bufs s ! i); \<not> b_dirty (bufs s ! i); \<not> b_busy (bufs s ! i)\<rbrakk> \<Longrightarrow>
       b_data (bufs s ! i) = dsk s (bkey (bufs s ! i))"
    "\<lbrakk>b_dev (bufs s ! i) \<noteq> -1; \<not> b_busy (bufs s ! i)\<rbrakk> \<Longrightarrow> b_valid (bufs s ! i)"
  using bio_invD(4) [OF assms] by (auto simp: buf_ok_def)

lemma bview_cached:
  assumes "bio_inv s" "i < NBUF" "b_valid (bufs s ! i)"
  shows "bview s (bkey (bufs s ! i)) = b_data (bufs s ! i)"
proof -
  have "first_index (\<lambda>f. bkey f = bkey (bufs s ! i) \<and> b_valid f) (bufs s) = Some i"
  proof (rule first_index_eq)
    fix j assume "j < i"
    then show "\<not> (bkey (bufs s ! j) = bkey (bufs s ! i) \<and> b_valid (bufs s ! j))"
      using bio_inv_unique [OF assms(1), of j i] buf_okD(3) [OF assms(1), of j] assms(2) by auto
  qed (use assms bio_invD(1) [OF assms(1)] in auto)
  then show ?thesis by (simp add: bview_def)
qed

lemma bview_uncached:
  assumes "length (bufs s) = NBUF" "\<And>i. i < NBUF \<Longrightarrow> bkey (bufs s ! i) = k \<Longrightarrow> \<not> b_valid (bufs s ! i)"
  shows "bview s k = dsk s k"
proof -
  have "first_index (\<lambda>f. bkey f = k \<and> b_valid f) (bufs s) = None"
    using assms by (auto simp: first_index_None in_set_conv_nth)
  then show ?thesis by (simp add: bview_def)
qed

lemma bview_clean:
  assumes "bio_inv s" "\<And>i. i < NBUF \<Longrightarrow> bkey (bufs s ! i) = k \<Longrightarrow> \<not> b_dirty (bufs s ! i) \<and> \<not> b_busy (bufs s ! i)"
  shows "bview s k = dsk s k"
proof (cases "\<exists>i<NBUF. bkey (bufs s ! i) = k \<and> b_valid (bufs s ! i)")
  case True
  then obtain i where i: "i < NBUF" "bkey (bufs s ! i) = k" "b_valid (bufs s ! i)" by blast
  with bview_cached [OF assms(1) i(1,3)] buf_okD(5) [OF assms(1) i(1,3)] assms(2) [OF i(1,2)] show ?thesis by simp
qed (use assms bio_invD(1) in \<open>auto intro: bview_uncached\<close>)

lemma held_view: "bio_inv s \<Longrightarrow> held s i k \<Longrightarrow> bview s k = bdata s i"
  using bview_cached by (auto simp: held_def bdata_def)

lemma held_unique: "bio_inv s \<Longrightarrow> held s i k \<Longrightarrow> held s j k \<Longrightarrow> i = j"
  unfolding held_def by (metis bio_inv_unique buf_okD(3))

lemma length_bview: "bio_inv s \<Longrightarrow> fst k = 0 \<or> fst k = 1 \<Longrightarrow> length (bview s k) = BSIZE"
proof (cases "\<exists>i<NBUF. bkey (bufs s ! i) = k \<and> b_valid (bufs s ! i)")
  case True
  assume "bio_inv s"
  with True show ?thesis using bview_cached buf_okD(1) by fastforce
next
  case False
  assume "bio_inv s" "fst k = 0 \<or> fst k = 1"
  with False show ?thesis
    using bio_invD(1,7) by (subst bview_uncached) (auto simp: dsk_def)
qed

section \<open>Changing one buffer\<close>

lemma bio_inv_upd_buf:
  assumes "bio_inv s" "i < NBUF" "buf_ok s (f (bufs s ! i))"
    and "\<And>j. b_dev (f (bufs s ! i)) \<noteq> -1 \<Longrightarrow> j < NBUF \<Longrightarrow> j \<noteq> i \<Longrightarrow> bkey (bufs s ! j) \<noteq> bkey (f (bufs s ! i))"
  shows "bio_inv (upd_buf i f s)"
proof -
  have len: "length (bufs s) = NBUF" using assms(1) by (rule bio_invD)
  have ok: "buf_ok (upd_buf i f s) g = buf_ok s g" for g
    by (simp add: upd_buf_def buf_ok_def baccept_def dsk_def)
  have "x = y" if "x < NBUF" "y < NBUF" "b_dev (bufs (upd_buf i f s) ! x) \<noteq> -1"
    "bkey (bufs (upd_buf i f s) ! x) = bkey (bufs (upd_buf i f s) ! y)" for x y
  proof (cases "x = i \<or> y = i")
    case True
    then show ?thesis
      using that assms(4) [of x] assms(4) [of y] len assms(2)
      by (cases "x = i"; cases "y = i") (auto simp: upd_buf_def bkey_def)
  next
    case False
    then show ?thesis using that bio_inv_unique [OF assms(1) that(1,2)] by (simp add: upd_buf_def)
  qed
  then show ?thesis
    using assms(1,3) ok len assms(2) by (auto simp: bio_inv_def upd_buf_def nth_list_update ide_ready_def)
qed

lemma bio_inv_irrelevant [simp]:
  "bio_inv (wakeup c s) = bio_inv s" "bio_inv (s\<lparr>ide_ports := p\<rparr>) = bio_inv s"
  by (simp_all add: bio_inv_def buf_ok_def baccept_def dsk_def ide_ready_def wakeup_def wakeup1_def)

lemma bview_irrelevant [simp]:
  "bview (wakeup c s) = bview s" "bview (s\<lparr>ide_ports := p\<rparr>) = bview s" "bview (s\<lparr>lru := l\<rparr>) = bview s"
  by (simp_all add: bview_def dsk_def wakeup_def wakeup1_def fun_eq_iff split: option.split)

lemma bview_other:
  assumes "bio_inv s" "bio_inv s'" "\<And>j. j < NBUF \<Longrightarrow> j \<noteq> i \<Longrightarrow> bufs s' ! j = bufs s ! j"
    and "k \<noteq> bkey (bufs s' ! i)" "dsk s' k = dsk s k"
    and "bkey (bufs s ! i) = k \<Longrightarrow> b_valid (bufs s ! i) \<Longrightarrow> b_data (bufs s ! i) = dsk s k"
  shows "bview s' k = bview s k"
proof (cases "\<exists>j<NBUF. bkey (bufs s' ! j) = k \<and> b_valid (bufs s' ! j)")
  case True
  then obtain j where j: "j < NBUF" "bkey (bufs s' ! j) = k" "b_valid (bufs s' ! j)" by blast
  moreover have "bufs s' ! j = bufs s ! j" using j assms(3,4) by metis
  ultimately show ?thesis using bview_cached [OF assms(1), of j] bview_cached [OF assms(2), of j] by simp
next
  case False
  have *: "bview s' k = dsk s k"
    using False bio_invD(1) [OF assms(2)] assms(5) by (subst bview_uncached) auto
  show ?thesis
  proof (cases "\<exists>j<NBUF. bkey (bufs s ! j) = k \<and> b_valid (bufs s ! j)")
    case True
    then obtain j where j: "j < NBUF" "bkey (bufs s ! j) = k" "b_valid (bufs s ! j)" by blast
    with False assms(3) have "j = i" by metis
    with j assms(6) bview_cached [OF assms(1) j(1,3)] * show ?thesis by simp
  next
    case False
    with bio_invD(1) [OF assms(1)] * show ?thesis by (subst (2) bview_uncached) auto
  qed
qed

section \<open>bget and bread\<close>

text \<open>A buffer for block \<open>k\<close> can be had: it is cached, or some buffer is neither locked nor dirty.\<close>

definition bavail :: "'a bio_state_scheme \<Rightarrow> bkey \<Rightarrow> bool" where
  "bavail s k \<longleftrightarrow> (\<exists>i<NBUF. bkey (bufs s ! i) = k) \<or> (\<exists>i<NBUF. \<not> b_busy (bufs s ! i) \<and> \<not> b_dirty (bufs s ! i))"

definition unlocked :: "'a bio_state_scheme \<Rightarrow> bkey \<Rightarrow> bool" where
  "unlocked s k \<longleftrightarrow> (\<forall>i\<in>busy s. bkey (bufs s ! i) \<noteq> k)"

lemma find_SomeD: "find P xs = Some x \<Longrightarrow> x \<in> set xs \<and> P x"
  by (induction xs) (auto split: if_splits)

lemma bget_cases:
  assumes inv: "bio_inv s" and "unlocked s (dev, bno)" "bavail s (dev, bno)"
  obtains (hit) i where "i < NBUF" "bkey (bufs s ! i) = (dev, bno)" "\<not> b_busy (bufs s ! i)"
      "bget dev bno s = Ok i (upd_buf i (\<lambda>f. f\<lparr>b_busy := True\<rparr>) s)"
  | (miss) i where "i < NBUF" "\<And>j. j < NBUF \<Longrightarrow> bkey (bufs s ! j) \<noteq> (dev, bno)"
      "\<not> b_busy (bufs s ! i)" "\<not> b_dirty (bufs s ! i)"
      "bget dev bno s = Ok i (upd_buf i (\<lambda>f. f\<lparr>b_dev := dev, b_blockno := bno,
         b_busy := True, b_valid := False, b_dirty := False\<rparr>) s)"
proof (cases "find (\<lambda>b. b_dev (bufs s ! b) = dev \<and> b_blockno (bufs s ! b) = bno) (lru s)")
  case (Some i)
  then have i: "i < NBUF" "bkey (bufs s ! i) = (dev, bno)"
    using bio_invD(3) [OF inv] by (auto simp: find_Some_iff bkey_def set_conv_nth)
  with assms(2) have "\<not> b_busy (bufs s ! i)" by (auto simp: unlocked_def busy_def)
  with i Some show ?thesis by (intro hit [of i]) (auto simp: bget_def)
next
  case None
  then have none: "bkey (bufs s ! j) \<noteq> (dev, bno)" if "j < NBUF" for j
    using bio_invD(3) [OF inv] that by (auto simp: find_None_iff bkey_def)
  with assms(3) obtain j where j: "j < NBUF" "\<not> b_busy (bufs s ! j) \<and> \<not> b_dirty (bufs s ! j)"
    by (auto simp: bavail_def)
  then obtain i where i: "find (\<lambda>b. \<not> b_busy (bufs s ! b) \<and> \<not> b_dirty (bufs s ! b)) (rev (lru s)) = Some i"
    using bio_invD(3) [OF inv]
    by (cases "find (\<lambda>b. \<not> b_busy (bufs s ! b) \<and> \<not> b_dirty (bufs s ! b)) (rev (lru s))")
      (auto simp: find_None_iff)
  then have "i \<in> set (rev (lru s)) \<and> \<not> b_busy (bufs s ! i) \<and> \<not> b_dirty (bufs s ! i)"
    by (rule find_SomeD)
  with i None none bio_invD(3) [OF inv] show ?thesis by (intro miss [of i]) (auto simp: bget_def)
qed

lemma dsk_cong: "disk s' = disk s \<Longrightarrow> dsk s' = dsk s"
  by (simp add: dsk_def fun_eq_iff)

lemma dsk_eq: "baccept s k \<Longrightarrow> disk s (bit (fst k) 0) (snd k) = dsk s k"
  by (auto simp: baccept_def dsk_def)

lemma bview_cong:
  assumes inv: "bio_inv s" "bio_inv s'" and disk: "disk s' = disk s"
    and same: "\<And>j. j < NBUF \<Longrightarrow> bkey (bufs s' ! j) = bkey (bufs s ! j) \<and>
      b_valid (bufs s' ! j) = b_valid (bufs s ! j) \<and> b_data (bufs s' ! j) = b_data (bufs s ! j)"
  shows "bview s' = bview s"
proof
  fix k
  show "bview s' k = bview s k"
  proof (cases "\<exists>j<NBUF. bkey (bufs s ! j) = k \<and> b_valid (bufs s ! j)")
    case True
    then obtain j where "j < NBUF" "bkey (bufs s ! j) = k" "b_valid (bufs s ! j)" by blast
    then show ?thesis using bview_cached [OF inv(1), of j] bview_cached [OF inv(2), of j] same by simp
  next
    case False
    then have "bview s k = dsk s k" "bview s' k = dsk s' k"
      using same bio_invD(1) [OF inv(1)] bio_invD(1) [OF inv(2)] by (auto intro!: bview_uncached)
    then show ?thesis by (simp add: disk dsk_def)
  qed
qed

lemma dirty_iff: "k \<in> dirty s \<longleftrightarrow> (\<exists>j<NBUF. bkey (bufs s ! j) = k \<and> b_dirty (bufs s ! j))"
  by (auto simp: dirty_def)

lemma dirty_cong:
  "(\<And>j. j < NBUF \<Longrightarrow> b_dirty (bufs s' ! j) = b_dirty (bufs s ! j) \<and>
     (b_dirty (bufs s ! j) \<longrightarrow> bkey (bufs s' ! j) = bkey (bufs s ! j))) \<Longrightarrow> dirty s' = dirty s"
  unfolding dirty_def by (intro Collect_cong) metis

lemma upd_buf_simps [simp]:
  "dsk (upd_buf i f s) = dsk s" "disk (upd_buf i f s) = disk s" "disk_log (upd_buf i f s) = disk_log s"
  "lru (upd_buf i f s) = lru s" "idequeue (upd_buf i f s) = idequeue s" "havedisk1 (upd_buf i f s) = havedisk1 s"
  "baccept (upd_buf i f s) = baccept s" "ide_ready (upd_buf i f s) = ide_ready s"
  "length (bufs (upd_buf i f s)) = length (bufs s)"
  by (simp_all add: upd_buf_def dsk_def baccept_def ide_ready_def fun_eq_iff)

lemma nth_upd_buf:
  "bufs (upd_buf i f s) ! j = (if j = i \<and> i < length (bufs s) then f (bufs s ! i) else bufs s ! j)"
  by (cases "i < length (bufs s)"; cases "j = i") (simp_all add: upd_buf_def list_update_beyond)

lemma bread_hit:
  assumes inv: "bio_inv s" and i: "i < NBUF" "\<not> b_busy (bufs s ! i)"
  defines "s' \<equiv> upd_buf i (\<lambda>f. f\<lparr>b_busy := True\<rparr>) s"
  shows "bio_inv s'" "bview s' = bview s" "busy s' = insert i (busy s)" "dirty s' = dirty s" "bio_frame s s'"
proof -
  have nth: "bufs s' ! j = (if j = i then (bufs s ! i)\<lparr>b_busy := True\<rparr> else bufs s ! j)" for j
    using i bio_invD(1) [OF inv] by (simp add: s'_def nth_upd_buf)
  show inv': "bio_inv s'"
    unfolding s'_def
  proof (rule bio_inv_upd_buf [OF inv i(1)])
    show "buf_ok s ((bufs s ! i)\<lparr>b_busy := True\<rparr>)"
      using bio_invD(4) [OF inv i(1)] by (simp add: buf_ok_def)
    show "bkey (bufs s ! j) \<noteq> bkey ((bufs s ! i)\<lparr>b_busy := True\<rparr>)"
      if "b_dev ((bufs s ! i)\<lparr>b_busy := True\<rparr>) \<noteq> - 1" "j < NBUF" "j \<noteq> i" for j
      using bio_inv_unique [OF inv i(1) that(2)] that(1,3) by (metis bkey_upd(1) buf.select_convs(4) buf.surjective buf.update_convs(1))
  qed
  show "busy s' = insert i (busy s)"
    using i by (auto simp: busy_def nth)
  show "dirty s' = dirty s"
    by (rule dirty_cong) (simp add: nth)
  show "bio_frame s s'" by (simp add: s'_def bio_frame_def upd_buf_def)
  show "bview s' = bview s"
    by (rule bview_cong [OF inv inv']) (simp add: s'_def upd_buf_def, simp add: nth)
qed

text \<open>A miss takes over a clean buffer and fills it from the disk.\<close>

lemma bread_fill:
  assumes inv: "bio_inv s" and i: "i < NBUF" "\<not> b_busy (bufs s ! i)" "\<not> b_dirty (bufs s ! i)"
    and k: "baccept s k" "\<And>j. j < NBUF \<Longrightarrow> bkey (bufs s ! j) \<noteq> k"
    and s': "length (bufs s') = NBUF" "\<And>j. j < NBUF \<Longrightarrow> j \<noteq> i \<Longrightarrow> bufs s' ! j = bufs s ! j"
      "bufs s' ! i = \<lparr>b_busy = True, b_valid = v, b_dirty = False, b_dev = fst k, b_blockno = snd k, b_data = d\<rparr>"
      "length d = BSIZE" "disk s' = disk s" "lru s' = lru s" "bio_frame s s'" "idequeue s' = []"
  shows "bio_inv s'" "busy s' = insert i (busy s)" "dirty s' = dirty s"
    "v \<Longrightarrow> d = dsk s k \<Longrightarrow> bview s' = bview s"
proof -
  have k1: "fst k \<noteq> -1" using k(1) by (auto simp: baccept_def)
  have acc: "baccept s' k = baccept s k" for k using s'(7) by (rule baccept_frame)
  have bk: "bkey (bufs s' ! i) = k" using s'(3) by (simp add: bkey_def)
  have dsk: "dsk s' = dsk s" using s'(5) by (simp add: dsk_def fun_eq_iff)
  have ok: "buf_ok s' (bufs s' ! j)" if "j < NBUF" for j
    using bio_invD(4) [OF inv that] s'(2) [OF that] s'(3,4) k(1) k1 bk
    by (cases "j = i") (auto simp: buf_ok_def acc dsk)
  have uniq: "x = y" if "x < NBUF" "y < NBUF" "b_dev (bufs s' ! x) \<noteq> -1" "bkey (bufs s' ! x) = bkey (bufs s' ! y)" for x y
    using that bio_inv_unique [OF inv that(1,2)] s'(2) k(2) bk
    by (cases "x = i"; cases "y = i") auto
  show inv': "bio_inv s'"
    using inv s' ok uniq by (simp add: bio_inv_def ide_ready_def bio_frame_def)
  show "busy s' = insert i (busy s)"
    using i s'(2,3) by (auto simp: busy_def) metis+
  show "dirty s' = dirty s"
    using i s'(2,3) by (intro dirty_cong) (metis buf.select_convs(3))
  show "bview s' = bview s" if v: "v" "d = dsk s k"
  proof
    fix k'
    show "bview s' k' = bview s k'"
    proof (cases "k' = k")
      case True
      have "bview s' k = d" using bview_cached [OF inv' i(1)] s'(3) v bk by simp
      moreover have "bview s k = dsk s k" using k(2) bio_invD(1) [OF inv] by (intro bview_uncached) auto
      ultimately show ?thesis using True v by simp
    next
      case False
      then show ?thesis
        using bk dsk i buf_okD(5) [OF inv i(1)] by (intro bview_other [OF inv inv' s'(2)]) auto
    qed
  qed
qed

text \<open>
  What \<open>bread\<close> promises its callers: the buffer it returns is locked by them, holds the block and its
  current content; nothing else that they can observe has changed.
\<close>

definition bread_post :: "bkey \<Rightarrow> 'a bio_state_scheme \<Rightarrow> nat \<Rightarrow> 'a bio_state_scheme \<Rightarrow> bool" where
  "bread_post k s i s' \<longleftrightarrow> bio_inv s' \<and> held s' i k \<and> bdata s' i = bview s k \<and> bview s' = bview s \<and>
     disk s' = disk s \<and> disk_log s' = disk_log s \<and> i \<notin> busy s \<and> busy s' = insert i (busy s) \<and>
     dirty s' = dirty s \<and> (\<forall>j\<in>busy s. bufs s' ! j = bufs s ! j) \<and> bio_frame s s'"

lemma iderw_fill:
  assumes inv: "bio_inv s" and i: "i < NBUF" "\<not> b_busy (bufs s ! i)" "\<not> b_dirty (bufs s ! i)"
    and k: "baccept s k" "\<And>j. j < NBUF \<Longrightarrow> bkey (bufs s ! j) \<noteq> k"
    and s1: "s1 = upd_buf i (\<lambda>f. f\<lparr>b_dev := fst k, b_blockno := snd k,
         b_busy := True, b_valid := False, b_dirty := False\<rparr>) s"
  shows "ok (iderw i s1) (\<lambda>_ s'. bread_post k s i s')"
proof -
  have len: "length (bufs s) = NBUF" using inv by (rule bio_invD)
  have f1: "bufs s1 ! i = (bufs s ! i)\<lparr>b_dev := fst k, b_blockno := snd k,
         b_busy := True, b_valid := False, b_dirty := False\<rparr>"
    using len i by (simp add: s1 nth_upd_buf)
  have "idequeue s1 = []" "i < length (bufs s1)" "ide_ready s1" "disk s1 = disk s" "havedisk1 s1 = havedisk1 s"
    using inv i len by (simp_all add: s1 bio_inv_def upd_buf_def ide_ready_def)
  then obtain p where p: "iderw i s1 = Ok () (wakeup (ChBuf i) ((ide_sync i s1)\<lparr>ide_ports := p\<rparr>))"
    using iderw_idle [of s1 i] k(1) by (auto simp: f1 baccept_def)
  define s' where "s' = wakeup (ChBuf i) ((ide_sync i s1)\<lparr>ide_ports := p\<rparr>)"
  have d: "disk s (bit (fst k) 0) (snd k) = dsk s k" using k(1) by (rule dsk_eq)
  have s': "bufs s' = (bufs s)[i := \<lparr>b_busy = True, b_valid = True, b_dirty = False, b_dev = fst k,
      b_blockno = snd k, b_data = dsk s k\<rparr>]"
    using f1 len i d
    by (simp add: s'_def ide_sync_def upd_buf_def wakeup_def wakeup1_def Let_def s1)
      (rule arg_cong [where f = "list_update (bufs s) i"], rule buf.equality, simp_all)
  have same: "disk s' = disk s" "disk_log s' = disk_log s" "lru s' = lru s" "idequeue s' = []"
    using bio_invD(6) [OF inv] i len
    by (simp_all add: s'_def ide_sync_def f1 upd_buf_def wakeup_def wakeup1_def Let_def s1)
  have frame: "bio_frame s s'"
    using procs_woken_wakeup [of s "ChBuf i"] i len
    by (simp add: s'_def ide_sync_def f1 upd_buf_def wakeup_def wakeup1_def Let_def s1 bio_frame_def)
  have dl: "length (dsk s k) = BSIZE" using bio_invD(7) [OF inv] k(1) by (auto simp: dsk_def baccept_def)
  have fill: "bio_inv s'" "busy s' = insert i (busy s)" "dirty s' = dirty s" "bview s' = bview s"
    using bread_fill [OF inv i k, of s' True "dsk s k"] s' same frame dl len i(1) by simp_all
  moreover have "held s' i k" using s' i len by (simp add: held_def bkey_def)
  moreover have "bdata s' i = bview s k"
    using s' i len bview_uncached [OF len, of k] k(2) by (simp add: bdata_def)
  moreover have "i \<notin> busy s" using i by (simp add: busy_def)
  moreover from this have "\<forall>j\<in>busy s. bufs s' ! j = bufs s ! j" using s' by (metis nth_list_update_neq)
  ultimately show ?thesis using p same frame by (simp add: bread_post_def s'_def)
qed

lemma bread_ok:
  assumes inv: "bio_inv s" and k: "baccept s (dev, bno)" "unlocked s (dev, bno)" "bavail s (dev, bno)"
  shows "ok (bread dev bno s) (bread_post (dev, bno) s)"
  using inv k(2,3)
proof (cases rule: bget_cases)
  case (hit i)
  let ?s = "upd_buf i (\<lambda>f. f\<lparr>b_busy := True\<rparr>) s"
  have len: "length (bufs s) = NBUF" using inv by (rule bio_invD)
  have v: "b_valid (bufs s ! i)"
    using hit k(1) buf_okD(6) [OF inv, of i] by (auto simp: bkey_def baccept_def)
  note facts = bread_hit [OF inv hit(1,3)]
  have "held ?s i (dev, bno)" using hit v len by (simp add: held_def nth_upd_buf)
  moreover have "bdata ?s i = bview s (dev, bno)"
    using hit(1,2) bview_cached [OF inv hit(1) v] len by (simp add: bdata_def nth_upd_buf)
  moreover have "i \<notin> busy s" "\<forall>j\<in>busy s. bufs ?s ! j = bufs s ! j"
    using hit(3) by (auto simp: busy_def nth_upd_buf)
  moreover have "disk ?s = disk s" "disk_log ?s = disk_log s" by (simp_all add: upd_buf_def)
  ultimately have "bread_post (dev, bno) s i ?s" using facts by (simp add: bread_post_def)
  then show ?thesis using hit v len by (simp add: bread_def nth_upd_buf)
next
  case (miss i)
  have "\<not> b_valid (bufs (upd_buf i (\<lambda>f. f\<lparr>b_dev := dev, b_blockno := bno,
         b_busy := True, b_valid := False, b_dirty := False\<rparr>) s) ! i)"
    using miss(1) bio_invD(1) [OF inv] by (simp add: nth_upd_buf)
  then show ?thesis
    using iderw_fill [OF inv miss(1,3,4) k(1) miss(2) refl] miss(5)
    by (simp add: bread_def ok_bindk)
qed

section \<open>Writing and releasing a buffer\<close>

text \<open>Storing new content into a locked buffer (an assignment to \<open>b->data\<close>).\<close>

definition bstore :: "nat \<Rightarrow> uchar list \<Rightarrow> 'a bio_state_scheme \<Rightarrow> 'a bio_state_scheme" where
  "bstore i d s = upd_buf i (\<lambda>f. f\<lparr>b_data := d\<rparr>) s"

lemma held_upd:
  assumes inv: "bio_inv s" and h: "held s i k"
    and f: "buf_ok s (f (bufs s ! i))" "bkey (f (bufs s ! i)) = k" "b_busy (f (bufs s ! i))" "b_valid (f (bufs s ! i))"
  shows "bio_inv (upd_buf i f s)" "held (upd_buf i f s) i k" "busy (upd_buf i f s) = busy s"
    "bview (upd_buf i f s) = (bview s)(k := b_data (f (bufs s ! i)))" "bio_frame s (upd_buf i f s)"
proof -
  let ?s = "upd_buf i f s"
  have i: "i < NBUF" "bkey (bufs s ! i) = k" using h by (simp_all add: held_def)
  have len: "length (bufs s) = NBUF" using inv by (rule bio_invD)
  have nth: "bufs ?s ! j = (if j = i then f (bufs s ! i) else bufs s ! j)" for j
    using i len by (simp add: nth_upd_buf)
  have dev: "b_dev (bufs s ! i) \<noteq> -1" using h buf_okD(3) [OF inv i(1)] by (simp add: held_def)
  show inv': "bio_inv ?s"
  proof (rule bio_inv_upd_buf [of s i f, OF inv i(1) f(1)])
    fix j assume "j < NBUF" "j \<noteq> i"
    then show "bkey (bufs s ! j) \<noteq> bkey (f (bufs s ! i))"
      using bio_inv_unique [OF inv i(1) _ dev, of j] i(2) f(2) by auto
  qed
  show "held ?s i k" using i f by (simp add: held_def nth)
  show "busy ?s = busy s" using i f(3) h by (auto simp: busy_def nth held_def)
  show "bio_frame s ?s" by (simp add: bio_frame_def upd_buf_def)
  show "bview ?s = (bview s)(k := b_data (f (bufs s ! i)))"
  proof
    fix k'
    show "bview ?s k' = ((bview s)(k := b_data (f (bufs s ! i)))) k'"
    proof (cases "k' = k")
      case True
      then show ?thesis using bview_cached [OF inv' i(1)] f by (simp add: nth)
    next
      case False
      have "bview ?s k' = bview s k'"
        by (rule bview_other [OF inv inv', of i]) (use False f(2) i(2) in \<open>auto simp: nth\<close>)
      with False show ?thesis by simp
    qed
  qed
qed

lemma bio_inv_same_keys:
  assumes "bio_inv s" "length (bufs s') = NBUF" "distinct (lru s') \<and> set (lru s') = set (lru s)"
      "idequeue s' = []" "bio_frame s s'"
    and "\<And>j. j < NBUF \<Longrightarrow> buf_ok s' (bufs s' ! j)" "\<And>j. j < NBUF \<Longrightarrow> bkey (bufs s' ! j) = bkey (bufs s ! j)"
    and "\<And>d n. length (disk s' d n) = BSIZE"
  shows "bio_inv s'"
proof -
  have "b_dev (bufs s' ! j) = b_dev (bufs s ! j)" if "j < NBUF" for j
    using assms(7) [OF that] by (simp add: bkey_def)
  then show ?thesis
    using assms by (simp add: bio_inv_def ide_ready_def bio_frame_def)
qed

lemma bstore_ok:
  assumes inv: "bio_inv s" and h: "held s i k" and d: "length d = BSIZE"
  shows "bio_inv (bstore i d s)" "held (bstore i d s) i k" "bdata (bstore i d s) i = d"
    "bview (bstore i d s) = (bview s)(k := d)" "busy (bstore i d s) = busy s"
    "dirty (bstore i d s) = dirty s" "bio_frame s (bstore i d s)"
    "disk (bstore i d s) = disk s" "disk_log (bstore i d s) = disk_log s"
    "\<And>j. j \<noteq> i \<Longrightarrow> bufs (bstore i d s) ! j = bufs s ! j"
    "b_dirty (bufs (bstore i d s) ! i) = b_dirty (bufs s ! i)"
proof -
  have i: "i < NBUF" "b_busy (bufs s ! i)" "b_valid (bufs s ! i)" "bkey (bufs s ! i) = k"
    using h by (simp_all add: held_def)
  have len: "length (bufs s) = NBUF" using inv by (rule bio_invD)
  have ok: "buf_ok s ((bufs s ! i)\<lparr>b_data := d\<rparr>)"
    using bio_invD(4) [OF inv i(1)] i d by (simp add: buf_ok_def)
  note facts = held_upd [OF inv h, of "\<lambda>f. f\<lparr>b_data := d\<rparr>", OF ok]
  show "bio_inv (bstore i d s)" "held (bstore i d s) i k" "bview (bstore i d s) = (bview s)(k := d)"
    "busy (bstore i d s) = busy s" "bio_frame s (bstore i d s)"
    using facts i by (simp_all add: bstore_def)
  show "dirty (bstore i d s) = dirty s"
    by (rule dirty_cong) (simp add: bstore_def nth_upd_buf)
qed (use bio_invD(1) [OF inv] h in \<open>simp_all add: bstore_def bdata_def nth_upd_buf held_def\<close>)

lemma bwrite_ok:
  assumes inv: "bio_inv s" and h: "held s i k"
  shows "ok (bwrite i s) (\<lambda>_ s'. bio_inv s' \<and> held s' i k \<and> bdata s' i = bdata s i \<and> bview s' = bview s \<and>
     dsk s' = (dsk s)(k := bdata s i) \<and>
     disk_log s' = disk_log s @ [(bit (fst k) 0, snd k, bdata s i)] \<and> busy s' = busy s \<and>
     dirty s' = dirty s - {k} \<and> \<not> b_dirty (bufs s' ! i) \<and>
     (\<forall>j. j \<noteq> i \<longrightarrow> bufs s' ! j = bufs s ! j) \<and> bio_frame s s')"
proof -
  have i: "i < NBUF" "b_busy (bufs s ! i)" "b_valid (bufs s ! i)" "bkey (bufs s ! i) = k"
    using h by (simp_all add: held_def)
  have len: "length (bufs s) = NBUF" using inv by (rule bio_invD)
  have dev: "b_dev (bufs s ! i) \<noteq> -1" using buf_okD(3) [OF inv i(1,3)] .
  have acc: "baccept s k" using buf_okD(4) [OF inv i(1) dev] i(4) by simp
  have k: "b_dev (bufs s ! i) = fst k" "b_blockno (bufs s ! i) = snd k" using i(4) by (auto simp: bkey_def)
  let ?s1 = "upd_buf i (\<lambda>f. f\<lparr>b_dirty := True\<rparr>) s"
  have f1: "bufs ?s1 ! i = (bufs s ! i)\<lparr>b_dirty := True\<rparr>" using i len by (simp add: nth_upd_buf)
  have "\<exists>p. iderw i ?s1 = Ok () (wakeup (ChBuf i) ((ide_sync i ?s1)\<lparr>ide_ports := p\<rparr>))"
    using inv i len acc k by (intro iderw_idle) (auto simp: f1 bio_inv_def baccept_def)
  then obtain p where p: "iderw i ?s1 = Ok () (wakeup (ChBuf i) ((ide_sync i ?s1)\<lparr>ide_ports := p\<rparr>))" by blast
  define s' where "s' = wakeup (ChBuf i) ((ide_sync i ?s1)\<lparr>ide_ports := p\<rparr>)"
  have bufs: "bufs s' = (bufs s)[i := (bufs s ! i)\<lparr>b_valid := True, b_dirty := False\<rparr>]"
    using i len f1 by (simp add: s'_def ide_sync_def upd_buf_def wakeup_def wakeup1_def Let_def disk_write_def)
  have disk: "disk s' = (disk s)(bit (fst k) 0 := (disk s (bit (fst k) 0))(snd k := bdata s i))"
    "disk_log s' = disk_log s @ [(bit (fst k) 0, snd k, bdata s i)]" "lru s' = lru s" "idequeue s' = []"
    using i len f1 k bio_invD(6) [OF inv]
    by (simp_all add: s'_def ide_sync_def upd_buf_def wakeup_def wakeup1_def Let_def disk_write_def bdata_def)
  have frame: "bio_frame s s'"
    using procs_woken_wakeup [of s "ChBuf i"] i len
    by (simp add: s'_def ide_sync_def upd_buf_def wakeup_def wakeup1_def Let_def bio_frame_def disk_write_def)
  have dsk: "dsk s' = (dsk s)(k := bdata s i)"
    using acc by (auto simp: fun_eq_iff dsk_def disk(1) baccept_def prod_eq_iff)
  have nth: "bufs s' ! j = (if j = i then (bufs s ! i)\<lparr>b_valid := True, b_dirty := False\<rparr> else bufs s ! j)" for j
    using i len by (simp add: bufs nth_list_update)
  have acc': "baccept s' = baccept s" using baccept_frame [OF frame] by (simp add: fun_eq_iff)
  have uniq: "bkey (bufs s ! j) \<noteq> k" if "j < NBUF" "j \<noteq> i" for j
    using bio_inv_unique [OF inv i(1) that(1) dev] that(2) i(4) by auto
  have ok: "buf_ok s' (bufs s' ! j)" if "j < NBUF" for j
    using bio_invD(4) [OF inv that] uniq [OF that] i(2-4)
    by (cases "j = i") (auto simp: buf_ok_def acc' dsk nth bdata_def)
  have inv': "bio_inv s'"
  proof (rule bio_inv_same_keys [OF inv _ _ disk(4) frame ok])
    show "length (bufs s') = NBUF" using len by (simp add: bufs)
    show "distinct (lru s') \<and> set (lru s') = set (lru s)" using bio_invD(2) [OF inv] by (simp add: disk)
  qed (use i(4) bio_invD(7) [OF inv] buf_okD(1) [OF inv i(1)] in \<open>simp_all add: nth disk(1) bdata_def\<close>)
  have dirty: "dirty s' = dirty s - {k}"
  proof (rule set_eqI)
    fix x
    have "x \<in> dirty s' \<longleftrightarrow> (\<exists>j<NBUF. j \<noteq> i \<and> bkey (bufs s ! j) = x \<and> b_dirty (bufs s ! j))"
      unfolding dirty_iff by (intro iff_exI) (auto simp: nth)
    also have "\<dots> \<longleftrightarrow> x \<in> dirty s - {k}" using uniq i(4) by (auto simp: dirty_iff)
    finally show "x \<in> dirty s' \<longleftrightarrow> x \<in> dirty s - {k}" .
  qed
  have "bview s' = bview s"
  proof
    fix k'
    show "bview s' k' = bview s k'"
    proof (cases "k' = k")
      case True
      then show ?thesis using bview_cached [OF inv' i(1)] bview_cached [OF inv i(1,3)] i(4) by (simp add: nth)
    next
      case False
      then show ?thesis
        by (intro bview_other [OF inv inv', of i]) (auto simp: nth i(4) dsk)
    qed
  qed
  moreover have "busy s' = busy s" "held s' i k" using i by (auto simp: busy_def nth held_def)
  ultimately show ?thesis
    using p inv' dsk disk dirty frame i(2) by (simp add: bwrite_def s'_def [symmetric] nth bdata_def)
qed

lemma brelse_ok:
  assumes inv: "bio_inv s" and h: "held s i k" and sync: "k \<in> dirty s \<or> bdata s i = dsk s k"
  shows "ok (brelse i s) (\<lambda>_ s'. bio_inv s' \<and> bview s' = bview s \<and> disk s' = disk s \<and> disk_log s' = disk_log s \<and>
     busy s' = busy s - {i} \<and> dirty s' = dirty s \<and> (\<forall>j. j \<noteq> i \<longrightarrow> bufs s' ! j = bufs s ! j) \<and> bio_frame s s')"
proof -
  have i: "i < NBUF" "b_busy (bufs s ! i)" "b_valid (bufs s ! i)" "bkey (bufs s ! i) = k"
    using h by (simp_all add: held_def)
  have len: "length (bufs s) = NBUF" using inv by (rule bio_invD)
  have dev: "b_dev (bufs s ! i) \<noteq> -1" using buf_okD(3) [OF inv i(1,3)] .
  define s' where "s' = wakeup (ChBuf i) (upd_buf i (\<lambda>f. f\<lparr>b_busy := False\<rparr>) (s\<lparr>lru := i # remove1 i (lru s)\<rparr>))"
  have nth: "bufs s' ! j = (if j = i then (bufs s ! i)\<lparr>b_busy := False\<rparr> else bufs s ! j)" for j
    using i len by (simp add: s'_def wakeup_def wakeup1_def upd_buf_def nth_list_update)
  have same: "disk s' = disk s" "disk_log s' = disk_log s" "lru s' = i # remove1 i (lru s)" "idequeue s' = []"
    "length (bufs s') = NBUF" "dsk s' = dsk s"
    using bio_invD(6) [OF inv] len by (simp_all add: s'_def wakeup_def wakeup1_def upd_buf_def dsk_def fun_eq_iff)
  have frame: "bio_frame s s'"
    using procs_woken_wakeup [of s "ChBuf i"]
    by (simp add: s'_def wakeup_def wakeup1_def upd_buf_def bio_frame_def)
  have acc': "baccept s' = baccept s" using baccept_frame [OF frame] by (simp add: fun_eq_iff)
  have "b_dirty (bufs s ! i)" if "k \<in> dirty s"
  proof -
    from that obtain j where j: "j < NBUF" "k = bkey (bufs s ! j)" "b_dirty (bufs s ! j)" by (auto simp: dirty_def)
    with bio_inv_unique [OF inv i(1) j(1) dev] i(4) show ?thesis by simp
  qed
  then have ok: "buf_ok s' (bufs s' ! j)" if "j < NBUF" for j
    using bio_invD(4) [OF inv that] sync i(3,4)
    by (cases "j = i") (auto simp: buf_ok_def acc' same nth bdata_def)
  have keys: "bkey (bufs s' ! j) = bkey (bufs s ! j)" for j by (simp add: nth)
  have inv': "bio_inv s'"
  proof (rule bio_inv_same_keys [OF inv same(5) _ same(4) frame ok keys])
    have "i \<in> set (lru s)" using bio_invD(3) [OF inv] i(1) by simp
    then show "distinct (lru s') \<and> set (lru s') = set (lru s)"
      using bio_invD(2) [OF inv] by (auto simp: same(3))
  qed (use bio_invD(7) [OF inv] in \<open>simp_all add: same(1)\<close>)
  have "bview s' = bview s"
    by (rule bview_cong [OF inv inv' same(1)]) (simp add: nth)
  moreover have "busy s' = busy s - {i}" by (auto simp: busy_def nth)
  moreover have "dirty s' = dirty s" by (rule dirty_cong) (simp add: nth)
  moreover have "brelse i s = Ok () s'" using i by (simp add: brelse_def s'_def)
  ultimately show ?thesis using inv' same frame by (simp add: nth)
qed

text \<open>Marking a locked buffer dirty (what \<open>log_write\<close> does to pin it).\<close>

lemma mark_dirty_ok:
  assumes inv: "bio_inv s" and h: "held s i k"
  defines "s' \<equiv> upd_buf i (\<lambda>f. f\<lparr>b_dirty := True\<rparr>) s"
  shows "bio_inv s'" "held s' i k" "bdata s' i = bdata s i" "bview s' = bview s" "busy s' = busy s"
    "dirty s' = insert k (dirty s)" "bio_frame s s'" "\<And>j. j \<noteq> i \<Longrightarrow> bufs s' ! j = bufs s ! j"
proof -
  have i: "i < NBUF" "b_busy (bufs s ! i)" "b_valid (bufs s ! i)" "bkey (bufs s ! i) = k"
    using h by (simp_all add: held_def)
  have len: "length (bufs s) = NBUF" using inv by (rule bio_invD)
  have nth: "bufs s' ! j = (if j = i then (bufs s ! i)\<lparr>b_dirty := True\<rparr> else bufs s ! j)" for j
    using i len by (simp add: s'_def nth_upd_buf)
  have ok: "buf_ok s ((bufs s ! i)\<lparr>b_dirty := True\<rparr>)"
    using bio_invD(4) [OF inv i(1)] i by (simp add: buf_ok_def)
  note facts = held_upd [OF inv h, of "\<lambda>f. f\<lparr>b_dirty := True\<rparr>", OF ok]
  show "bio_inv s'" "held s' i k" "busy s' = busy s" "bio_frame s s'"
    using facts i by (simp_all add: s'_def)
  show "bview s' = bview s"
    using facts(4) i held_view [OF inv h] by (simp add: s'_def bdata_def fun_upd_idem)
  show "dirty s' = insert k (dirty s)"
    using i by (auto simp: dirty_def nth)
qed (use bio_invD(1) [OF inv] h in \<open>simp_all add: s'_def bdata_def nth_upd_buf held_def\<close>)

section \<open>Availability of buffers\<close>

lemma finite_busy [simp]: "finite (busy s)"
  by (simp add: busy_def)

lemma finite_dirty [simp]: "finite (dirty s)"
proof -
  have "dirty s = (\<lambda>i. bkey (bufs s ! i)) ` {i. i < NBUF \<and> b_dirty (bufs s ! i)}" by (auto simp: dirty_def)
  then show ?thesis by simp
qed

lemma bavailI:
  assumes "bio_inv s" "card (busy s) + card (dirty s) < NBUF"
  shows "bavail s k"
proof (rule ccontr)
  assume "\<not> bavail s k"
  let ?D = "{i. i < NBUF \<and> b_dirty (bufs s ! i)}"
  have "inj_on (\<lambda>i. bkey (bufs s ! i)) ?D"
    using bio_inv_unique [OF assms(1)] buf_okD(2,3) [OF assms(1)] by (auto simp: inj_on_def)
  then have "card ?D = card ((\<lambda>i. bkey (bufs s ! i)) ` ?D)" by (simp add: card_image)
  also have "(\<lambda>i. bkey (bufs s ! i)) ` ?D = dirty s" by (auto simp: dirty_def)
  finally have D: "card ?D = card (dirty s)" .
  have "{..<NBUF} \<subseteq> busy s \<union> ?D" using \<open>\<not> bavail s k\<close> by (auto simp: bavail_def busy_def)
  then have "card {..<NBUF} \<le> card (busy s \<union> ?D)" by (intro card_mono) simp_all
  also have "\<dots> \<le> card (busy s) + card ?D" by (rule card_Un_le)
  finally show False using D assms(2) by simp
qed

lemma bavail_held: "i < NBUF \<Longrightarrow> bkey (bufs s ! i) = k \<Longrightarrow> bavail s k"
  by (auto simp: bavail_def)

lemma bavail_dirty: "k \<in> dirty s \<Longrightarrow> bavail s k"
  by (auto simp: bavail_def dirty_def)

lemma unlocked_no_busy [simp]: "busy s = {} \<Longrightarrow> unlocked s k"
  by (simp add: unlocked_def)

lemma unlocked_insert:
  "held s i k' \<Longrightarrow> busy s = insert i B \<Longrightarrow> k \<noteq> k' \<Longrightarrow> (\<And>j. j \<in> B \<Longrightarrow> bkey (bufs s ! j) \<noteq> k) \<Longrightarrow> unlocked s k"
  by (auto simp: unlocked_def held_def)

section \<open>Initialisation\<close>

lemma binit_loop_bufs:
  "distinct bs \<Longrightarrow> set bs \<subseteq> {..<length (bufs s)} \<Longrightarrow>
   bufs (binit_loop bs s) = map (\<lambda>i. if i \<in> set bs then (bufs s ! i)\<lparr>b_dev := -1\<rparr> else bufs s ! i) [0..<length (bufs s)]"
proof (induction bs arbitrary: s)
  case Nil
  then show ?case by (simp add: map_nth)
next
  case (Cons b bs)
  then show ?case
    by (auto simp: upd_buf_def nth_list_update intro!: nth_equalityI)
qed

lemma binit_loop_lru: "lru (binit_loop bs s) = rev bs @ lru s"
  by (induction bs arbitrary: s) simp_all

lemma binit_loop_same:
  "disk (binit_loop bs s) = disk s \<and> disk_log (binit_loop bs s) = disk_log s \<and> idequeue (binit_loop bs s) = idequeue s \<and>
   bio_frame s (binit_loop bs s)"
proof (induction bs arbitrary: s)
  case (Cons b bs)
  have "bio_frame s ((upd_buf b (\<lambda>f. f\<lparr>b_dev := -1\<rparr>) s)\<lparr>lru := b # lru s\<rparr>)"
    by (simp add: bio_frame_def upd_buf_def)
  with Cons show ?case by (auto intro: bio_frame_trans)
qed simp

lemma binit_inv:
  assumes "length (bufs s) = NBUF" "\<And>d n. length (disk s d n) = BSIZE" "ide_ready s" "idequeue s = []"
    and "\<And>i. i < NBUF \<Longrightarrow> \<not> b_busy (bufs s ! i) \<and> \<not> b_valid (bufs s ! i) \<and> \<not> b_dirty (bufs s ! i) \<and>
           length (b_data (bufs s ! i)) = BSIZE"
  shows "bio_inv (binit s)" "busy (binit s) = {}" "dirty (binit s) = {}" "bview (binit s) = dsk s"
    "disk (binit s) = disk s" "disk_log (binit s) = disk_log s" "bio_frame s (binit s)"
proof -
  let ?s = "binit s"
  have bufs: "bufs ?s = map (\<lambda>i. (bufs s ! i)\<lparr>b_dev := -1\<rparr>) [0..<NBUF]"
    using binit_loop_bufs [of "[0..<NBUF]" "s\<lparr>lru := []\<rparr>"] assms(1) by (simp add: binit_def atLeast0LessThan cong: map_cong)
  have same: "disk ?s = disk s" "disk_log ?s = disk_log s" "idequeue ?s = []" "lru ?s = rev [0..<NBUF]"
    "bio_frame s ?s"
    using binit_loop_same [of "[0..<NBUF]" "s\<lparr>lru := []\<rparr>"] assms(4)
    by (simp_all add: binit_def binit_loop_lru bio_frame_def)
  have ok: "bufs ?s ! i = (bufs s ! i)\<lparr>b_dev := -1\<rparr>" if "i < NBUF" for i
    using that by (simp add: bufs)
  show inv: "bio_inv ?s"
    using same assms ok by (auto simp: bio_inv_def bufs buf_ok_def ide_ready_def bio_frame_def)
  show "busy ?s = {}" "dirty ?s = {}" using assms(5) by (auto simp: busy_def dirty_def ok)
  have "bview ?s k = dsk ?s k" for k
    using bio_invD(1) [OF inv] assms(5) by (intro bview_uncached) (auto simp: ok)
  then show "bview ?s = dsk s" using same(1) by (simp add: fun_eq_iff dsk_def)
qed (use binit_loop_same [of "[0..<NBUF]" "s\<lparr>lru := []\<rparr>"] in \<open>simp_all add: binit_def bio_frame_def\<close>)

lemma binit_bio_zero:
  assumes "\<And>d n. length (dk d n) = BSIZE"
  shows "bio_inv (binit (bio_zero dk))" "busy (binit (bio_zero dk)) = {}" "dirty (binit (bio_zero dk)) = {}"
    "bview (binit (bio_zero dk)) = dsk (bio_zero dk)" "disk (binit (bio_zero dk)) = dk"
    "disk_log (binit (bio_zero dk)) = []" "bio_frame (bio_zero dk) (binit (bio_zero dk))"
  using binit_inv [of "bio_zero dk"] assms
  by (simp_all add: bio_zero_def buf0_def ide_ready_def)

section \<open>Properties\<close>

text \<open>
  C13: Reading a block, changing it, writing it and releasing it. On a cache that satisfies the
  invariant, for a block no one has locked and with a buffer to spare, \<open>bread\<close> returns a buffer with the
  current content of the block; \<open>bwrite\<close> puts the new content on the disk by exactly one write; after
  \<open>brelse\<close> the invariant holds, the block has the new content for every later reader, every
  other block (those that are dirty in the cache and not yet on disk included) is unchanged, and
  no buffer stays locked.
\<close>

theorem buffer_read_modify_write:
  assumes "bio_inv s" "baccept s (dev, bno)" "unlocked s (dev, bno)"
    and "card (busy s) + card (dirty s) < NBUF" "length d = BSIZE"
  shows "ok (bread dev bno s) (\<lambda>i s1. bdata s1 i = bview s (dev, bno) \<and>
     ok (bwrite i (bstore i d s1)) (\<lambda>_ s2. ok (brelse i s2) (\<lambda>_ s3.
       bio_inv s3 \<and> bview s3 = (bview s)((dev, bno) := d) \<and> dsk s3 = (dsk s)((dev, bno) := d) \<and>
       disk_log s3 = disk_log s @ [(bit dev 0, bno, d)] \<and> busy s3 = busy s \<and>
       dirty s3 = dirty s - {(dev, bno)})))"
proof (rule ok_mono [OF bread_ok [OF assms(1-3) bavailI [OF assms(1,4)]]])
  fix i s1 assume r: "bread_post (dev, bno) s i s1"
  let ?s1 = "bstore i d s1"
  let ?P = "\<lambda>(_ :: unit) s3. bio_inv s3 \<and> bview s3 = (bview s)((dev, bno) := d) \<and>
    dsk s3 = (dsk s)((dev, bno) := d) \<and> disk_log s3 = disk_log s @ [(bit dev 0, bno, d)] \<and>
    busy s3 = busy s \<and> dirty s3 = dirty s - {(dev, bno)}"
  have r': "bio_inv s1" "held s1 i (dev, bno)" "i \<notin> busy s" using r by (auto simp: bread_post_def)
  note st = bstore_ok [OF r'(1,2) assms(5)]
  have dsk1: "dsk ?s1 = dsk s" using st(8) r by (intro dsk_cong) (simp add: bread_post_def)
  have "ok (bwrite i ?s1) (\<lambda>_ s2. ok (brelse i s2) ?P)"
  proof (rule ok_mono [OF bwrite_ok [OF st(1,2)]], elim conjE)
    fix u s2
    assume w: "bio_inv s2" "held s2 i (dev, bno)" "bdata s2 i = bdata ?s1 i" "bview s2 = bview ?s1"
      "dsk s2 = (dsk ?s1)((dev, bno) := bdata ?s1 i)" "busy s2 = busy ?s1" "dirty s2 = dirty ?s1 - {(dev, bno)}"
      "disk_log s2 = disk_log ?s1 @ [(bit (fst (dev, bno)) 0, snd (dev, bno), bdata ?s1 i)]"
    have "ok (brelse i s2) (\<lambda>_ s3. bio_inv s3 \<and> bview s3 = bview s2 \<and> disk s3 = disk s2 \<and>
        disk_log s3 = disk_log s2 \<and> busy s3 = busy s2 - {i} \<and> dirty s3 = dirty s2 \<and> dsk s3 = dsk s2)"
    proof (rule ok_mono [OF brelse_ok [OF w(1,2)]])
      show "(dev, bno) \<in> dirty s2 \<or> bdata s2 i = dsk s2 (dev, bno)" using w(3,5) by simp
    qed (auto intro: dsk_cong)
    then show "ok (brelse i s2) ?P"
      by (rule ok_mono) (use w st(3-6,9) r r'(3) dsk1 in \<open>simp add: bread_post_def\<close>)
  qed
  with r show "bdata s1 i = bview s (dev, bno) \<and> ok (bwrite i ?s1) (\<lambda>_ s2. ok (brelse i s2) ?P)"
    by (simp add: bread_post_def)
qed

theorem buffer_read_modify_write_witness:
  "let s = binit (bio_zero (\<lambda>_ _. replicate BSIZE 3))
   in bio_inv s \<and> ok (bread 0 7 s) (\<lambda>i s1. bdata s1 i = bview s (0, 7) \<and>
     ok (bwrite i (bstore i (replicate BSIZE 4) s1)) (\<lambda>_ s2. ok (brelse i s2) (\<lambda>_ s3.
       bview s3 = (bview s)((0, 7) := replicate BSIZE 4) \<and> busy s3 = {})))"
proof -
  let ?s = "binit (bio_zero (\<lambda>_ _. replicate BSIZE 3))"
  note z = binit_bio_zero [of "\<lambda>_ _. replicate BSIZE 3", simplified]
  have "baccept ?s (0, 7)" by (simp add: baccept_def)
  from buffer_read_modify_write [OF z(1) this, of "replicate BSIZE 4"] z
  show ?thesis by (auto simp: Let_def NBUF_def elim!: okE)
qed

end
