(* ===== verification/Log.thy ===== *)
theory Log
  imports Bio
begin

text \<open>
  The write-ahead log (log.c): transactions of several block writes that survive a crash whole or not
  at all.

  The C variables of type \<open>int\<close> are 32-bit words read with \<open>sint\<close>. \<open>lh_n\<close> and \<open>lh_block\<close> are the
  in-memory header \<open>log.lh\<close>; on disk the header is the block \<open>log_start\<close>: a little-endian \<open>n\<close> followed
  by the block numbers. An access to \<open>log.lh.block\<close> outside its \<open>LOGSIZE\<close> elements is undefined in C
  and is the outcome \<open>undef\<close>.
\<close>

definition LOGSIZE :: nat where "LOGSIZE = 30"
definition MAXOPBLOCKS :: int where "MAXOPBLOCKS = 10"

definition undef :: "('s, 'a) outcome" where
  "undef = Panic ''undefined behaviour''"

record log_state = bio_state +
  log_start :: cint
  log_size :: cint
  log_outstanding :: cint
  log_committing :: bool
  log_dev :: cint
  lh_n :: cint
  lh_block :: "cint list"

section \<open>The header block\<close>

definition head_n :: "uchar list \<Rightarrow> cint" where
  "head_n d = get32 0 d"

definition head_block :: "uchar list \<Rightarrow> nat \<Rightarrow> cint" where
  "head_block d i = get32 (4 + 4 * i) d"

fun put_head_blocks :: "nat list \<Rightarrow> cint list \<Rightarrow> uchar list \<Rightarrow> uchar list" where
  "put_head_blocks [] bs d = d"
| "put_head_blocks (i # is) bs d = put_head_blocks is bs (put32 (4 + 4 * i) (bs ! i) d)"

section \<open>Operations\<close>

fun install_trans_loop :: "nat list \<Rightarrow> 'a log_state_scheme \<Rightarrow> ('a log_state_scheme, unit) outcome" where
  "install_trans_loop [] s = Ok () s"
| "install_trans_loop (tail # ts) s =
     (if LOGSIZE \<le> tail then undef
      else bindk (bread (log_dev s) (log_start s + of_nat tail + 1) s) (\<lambda>lbuf s.
           bindk (bread (log_dev s) (lh_block s ! tail) s) (\<lambda>dbuf s.
           bindk (bwrite dbuf (bstore dbuf (bdata s lbuf) s)) (\<lambda>_ s.
           bindk (brelse lbuf s) (\<lambda>_ s.
           bindk (brelse dbuf s) (\<lambda>_ s. install_trans_loop ts s))))))"

definition install_trans :: "'a log_state_scheme \<Rightarrow> ('a log_state_scheme, unit) outcome" where
  "install_trans s = install_trans_loop [0..<nat (sint (lh_n s))] s"

definition read_head :: "'a log_state_scheme \<Rightarrow> ('a log_state_scheme, unit) outcome" where
  "read_head s =
     bindk (bread (log_dev s) (log_start s) s) (\<lambda>buf s.
       let d = bdata s buf; n = nat (sint (head_n d))
       in if LOGSIZE < n then undef
          else brelse buf (s\<lparr>lh_n := head_n d,
                 lh_block := map (\<lambda>i. if i < n then head_block d i else lh_block s ! i) [0..<LOGSIZE]\<rparr>))"

definition write_head :: "'a log_state_scheme \<Rightarrow> ('a log_state_scheme, unit) outcome" where
  "write_head s =
     bindk (bread (log_dev s) (log_start s) s) (\<lambda>buf s.
       let n = nat (sint (lh_n s)); d = put32 0 (lh_n s) (bdata s buf)
       in if LOGSIZE < n then undef
          else bindk (bwrite buf (bstore buf (put_head_blocks [0..<n] (lh_block s) d) s)) (\<lambda>_ s.
                 brelse buf s))"

definition recover_from_log :: "'a log_state_scheme \<Rightarrow> ('a log_state_scheme, unit) outcome" where
  "recover_from_log s =
     bindk (read_head s) (\<lambda>_ s.
     bindk (install_trans s) (\<lambda>_ s.
       write_head (s\<lparr>lh_n := 0\<rparr>)))"

definition begin_op :: "'a log_state_scheme \<Rightarrow> ('a log_state_scheme, unit) outcome" where
  "begin_op s =
     (if log_committing s then sleep ChLog s
      else if int LOGSIZE < sint (lh_n s + (log_outstanding s + 1) * of_int MAXOPBLOCKS) then sleep ChLog s
      else Ok () (s\<lparr>log_outstanding := log_outstanding s + 1\<rparr>))"

fun write_log_loop :: "nat list \<Rightarrow> 'a log_state_scheme \<Rightarrow> ('a log_state_scheme, unit) outcome" where
  "write_log_loop [] s = Ok () s"
| "write_log_loop (tail # ts) s =
     (if LOGSIZE \<le> tail then undef
      else bindk (bread (log_dev s) (log_start s + of_nat tail + 1) s) (\<lambda>to s.
           bindk (bread (log_dev s) (lh_block s ! tail) s) (\<lambda>frm s.
           bindk (bwrite to (bstore to (bdata s frm) s)) (\<lambda>_ s.
           bindk (brelse frm s) (\<lambda>_ s.
           bindk (brelse to s) (\<lambda>_ s. write_log_loop ts s))))))"

definition write_log :: "'a log_state_scheme \<Rightarrow> ('a log_state_scheme, unit) outcome" where
  "write_log s = write_log_loop [0..<nat (sint (lh_n s))] s"

definition commit :: "'a log_state_scheme \<Rightarrow> ('a log_state_scheme, unit) outcome" where
  "commit s =
     (if 0 < sint (lh_n s)
      then bindk (write_log s) (\<lambda>_ s.
           bindk (write_head s) (\<lambda>_ s.
           bindk (install_trans s) (\<lambda>_ s.
             write_head (s\<lparr>lh_n := 0\<rparr>))))
      else Ok () s)"

definition end_op :: "'a log_state_scheme \<Rightarrow> ('a log_state_scheme, unit) outcome" where
  "end_op s =
     (let s = s\<lparr>log_outstanding := log_outstanding s - 1\<rparr>
      in if log_committing s then Panic ''log.committing''
         else if log_outstanding s = 0
         then bindk (commit (s\<lparr>log_committing := True\<rparr>)) (\<lambda>_ s.
                Ok () (wakeup ChLog (s\<lparr>log_committing := False\<rparr>)))
         else Ok () (wakeup ChLog s))"

definition log_write :: "nat \<Rightarrow> 'a log_state_scheme \<Rightarrow> ('a log_state_scheme, unit) outcome" where
  "log_write b s =
     (if int LOGSIZE \<le> sint (lh_n s) \<or> sint (log_size s) - 1 \<le> sint (lh_n s)
      then Panic ''too big a transaction''
      else if sint (log_outstanding s) < 1 then Panic ''log_write outside of trans''
      else let bno = b_blockno (bufs s ! b);
               n = nat (sint (lh_n s));
               i = (case first_index (\<lambda>x. x = bno) (take n (lh_block s)) of Some i \<Rightarrow> i | None \<Rightarrow> n);
               s = s\<lparr>lh_block := (lh_block s)[i := bno]\<rparr>;
               s = (if int i = sint (lh_n s) then s\<lparr>lh_n := lh_n s + 1\<rparr> else s)
           in Ok () (upd_buf b (\<lambda>f. f\<lparr>b_dirty := True\<rparr>) s))"

section \<open>The log's variables are not touched by the buffer cache\<close>

lemma log_frame:
  fixes s s' :: "'a log_state_scheme"
  assumes "bio_frame s s'"
  shows "log_start s' = log_start s" "log_size s' = log_size s" "log_outstanding s' = log_outstanding s"
    "log_committing s' = log_committing s" "log_dev s' = log_dev s" "lh_n s' = lh_n s" "lh_block s' = lh_block s"
    "log_state.more s' = log_state.more s"
  using assms by (cases s; cases s'; simp add: bio_frame_def)+

section \<open>Copying a block\<close>

lemma two_breads:
  assumes "bio_inv s" "busy s = {}" "baccept s (dev, a)" "baccept s (dev, b)" "a \<noteq> b"
    and "card (dirty s) < NBUF" "(dev, b) \<in> dirty s \<or> card (dirty s) + 1 < NBUF"
  shows "ok (bread dev a s) (\<lambda>x s1. bio_frame s s1 \<and> ok (bread dev b s1) (\<lambda>y s2.
     bio_inv s2 \<and> held s2 x (dev, a) \<and> held s2 y (dev, b) \<and> busy s2 = {x, y} \<and> x \<noteq> y \<and> bview s2 = bview s \<and>
     disk s2 = disk s \<and> disk_log s2 = disk_log s \<and> dirty s2 = dirty s \<and> bio_frame s s2))"
proof -
  have "bavail s (dev, a)" using assms by (intro bavailI) auto
  then have "ok (bread dev a s) (bread_post (dev, a) s)" using assms by (intro bread_ok) auto
  then show ?thesis
  proof (rule ok_mono)
    fix x s1 assume r: "bread_post (dev, a) s x s1"
    then have r1: "bio_inv s1" "held s1 x (dev, a)" "busy s1 = {x}" "dirty s1 = dirty s" "bio_frame s s1"
      using assms(2) by (auto simp: bread_post_def)
    have "unlocked s1 (dev, b)"
      using r1(2,3) assms(5) by (auto simp: unlocked_def held_def)
    moreover have "bavail s1 (dev, b)"
      using assms(7) r1 by (auto intro: bavail_dirty bavailI)
    ultimately have "ok (bread dev b s1) (bread_post (dev, b) s1)"
      using r1 assms(4) by (intro bread_ok) (auto simp: baccept_frame)
    then have "ok (bread dev b s1) (\<lambda>y s2. bio_inv s2 \<and> held s2 x (dev, a) \<and> held s2 y (dev, b) \<and>
       busy s2 = {x, y} \<and> x \<noteq> y \<and> bview s2 = bview s \<and>
       disk s2 = disk s \<and> disk_log s2 = disk_log s \<and> dirty s2 = dirty s \<and> bio_frame s s2)"
      by (rule ok_mono) (use r r1 in \<open>auto simp: bread_post_def held_def intro: bio_frame_trans\<close>)
    with r1(5) show "bio_frame s s1 \<and> ok (bread dev b s1) (\<lambda>y s2. bio_inv s2 \<and> held s2 x (dev, a) \<and>
       held s2 y (dev, b) \<and> busy s2 = {x, y} \<and> x \<noteq> y \<and> bview s2 = bview s \<and>
       disk s2 = disk s \<and> disk_log s2 = disk_log s \<and> dirty s2 = dirty s \<and> bio_frame s s2)" ..
  qed
qed

lemma copy_held:
  assumes inv: "bio_inv s" and f: "held s f kf" and t: "held s t kt" and busy: "busy s = {f, t}"
    and ne: "f \<noteq> t" and sync: "kf \<in> dirty s \<or> bdata s f = dsk s kf"
  shows "ok (bwrite t (bstore t (bdata s f) s)) (\<lambda>_ s1. ok (brelse f s1) (\<lambda>_ s2. ok (brelse t s2) (\<lambda>_ s3.
     bio_inv s3 \<and> busy s3 = {} \<and> bview s3 = (bview s)(kt := bview s kf) \<and> dsk s3 = (dsk s)(kt := bview s kf) \<and>
     disk_log s3 = disk_log s @ [(bit (fst kt) 0, snd kt, bview s kf)] \<and> dirty s3 = dirty s - {kt} \<and>
     bio_frame s s3)))"
proof -
  let ?d = "bdata s f"
  let ?s1 = "bstore t ?d s"
  have kne: "kf \<noteq> kt" using held_unique [OF inv f] t ne by auto
  have d: "bview s kf = ?d" using held_view [OF inv f] .
  have len: "length ?d = BSIZE" using buf_okD(1) [OF inv] f by (simp add: bdata_def held_def)
  note st = bstore_ok [OF inv t len]
  have f1: "held ?s1 f kf" "bdata ?s1 f = ?d" using f st(10) [OF ne] by (simp_all add: held_def bdata_def)
  have dsk1: "dsk ?s1 = dsk s" using st(8) by (rule dsk_cong)
  show ?thesis
  proof (rule ok_mono [OF bwrite_ok [OF st(1,2)]], elim conjE)
    fix u s2
    assume w: "bio_inv s2" "held s2 t kt" "bdata s2 t = bdata ?s1 t" "bview s2 = bview ?s1"
      "dsk s2 = (dsk ?s1)(kt := bdata ?s1 t)" "busy s2 = busy ?s1" "dirty s2 = dirty ?s1 - {kt}"
      "disk_log s2 = disk_log ?s1 @ [(bit (fst kt) 0, snd kt, bdata ?s1 t)]"
      "\<forall>j. j \<noteq> t \<longrightarrow> bufs s2 ! j = bufs ?s1 ! j" "bio_frame ?s1 s2"
    have f2: "held s2 f kf" "bdata s2 f = ?d" using w(9) f1 ne by (simp_all add: held_def bdata_def)
    have "kf \<in> dirty s2 \<or> bdata s2 f = dsk s2 kf"
      using sync f2(2) w(5,7) st(6) dsk1 kne by auto
    note rel = brelse_ok [OF w(1) f2(1) this]
    show "ok (brelse f s2) (\<lambda>_ s2. ok (brelse t s2) (\<lambda>_ s3.
     bio_inv s3 \<and> busy s3 = {} \<and> bview s3 = (bview s)(kt := bview s kf) \<and> dsk s3 = (dsk s)(kt := bview s kf) \<and>
     disk_log s3 = disk_log s @ [(bit (fst kt) 0, snd kt, bview s kf)] \<and> dirty s3 = dirty s - {kt} \<and>
     bio_frame s s3))"
    proof (rule ok_mono [OF rel], elim conjE)
      fix u s3
      assume v: "bio_inv s3" "bview s3 = bview s2" "disk s3 = disk s2" "disk_log s3 = disk_log s2"
        "busy s3 = busy s2 - {f}" "dirty s3 = dirty s2" "\<forall>j. j \<noteq> f \<longrightarrow> bufs s3 ! j = bufs s2 ! j" "bio_frame s2 s3"
      have t3: "held s3 t kt" "bdata s3 t = bdata s2 t" using v(7) w(2) ne by (simp_all add: held_def bdata_def)
      have dsk3: "dsk s3 = dsk s2" using v(3) by (rule dsk_cong)
      have "kt \<in> dirty s3 \<or> bdata s3 t = dsk s3 kt" using t3(2) dsk3 w(3,5) by simp
      note rel2 = brelse_ok [OF v(1) t3(1) this]
      have frame: "bio_frame s s3" using st(7) w(10) v(8) by (blast intro: bio_frame_trans)
      show "ok (brelse t s3) (\<lambda>_ s3.
         bio_inv s3 \<and> busy s3 = {} \<and> bview s3 = (bview s)(kt := bview s kf) \<and> dsk s3 = (dsk s)(kt := bview s kf) \<and>
         disk_log s3 = disk_log s @ [(bit (fst kt) 0, snd kt, bview s kf)] \<and> dirty s3 = dirty s - {kt} \<and>
         bio_frame s s3)"
      proof (rule ok_mono [OF rel2], elim conjE, intro conjI)
        fix u s4
        assume x: "bio_inv s4" "bview s4 = bview s3" "disk s4 = disk s3" "disk_log s4 = disk_log s3"
          "busy s4 = busy s3 - {t}" "dirty s4 = dirty s3" "bio_frame s3 s4"
        show "bio_inv s4" by fact
        show "busy s4 = {}" using x(5) v(5) w(6) st(5) busy by auto
        show "bview s4 = (bview s)(kt := bview s kf)" using x(2) v(2) w(4) st(4) d by simp
        show "dsk s4 = (dsk s)(kt := bview s kf)" using dsk_cong [OF x(3)] dsk3 w(5) dsk1 st(3) d by simp
        show "disk_log s4 = disk_log s @ [(bit (fst kt) 0, snd kt, bview s kf)]"
          using x(4) v(4) w(8) st(3,9) d by simp
        show "dirty s4 = dirty s - {kt}" using x(6) v(6) w(7) st(6) by simp
        show "bio_frame s s4" using frame x(7) by (rule bio_frame_trans)
      qed
    qed
  qed
qed

lemma clean_sync: "bio_inv s \<Longrightarrow> busy s = {} \<Longrightarrow> k \<in> dirty s \<or> bview s k = dsk s k"
  using bview_clean [of s k] by (auto simp: dirty_iff busy_def)

text \<open>Block \<open>kf\<close> has been copied to block \<open>kt\<close>, in the cache and on the disk.\<close>

definition copied :: "bkey \<Rightarrow> bkey \<Rightarrow> 'a bio_state_scheme \<Rightarrow> 'a bio_state_scheme \<Rightarrow> bool" where
  "copied kf kt s s' \<longleftrightarrow> bio_inv s' \<and> busy s' = {} \<and> bview s' = (bview s)(kt := bview s kf) \<and>
     dsk s' = (dsk s)(kt := bview s kf) \<and> disk_log s' = disk_log s @ [(bit (fst kt) 0, snd kt, bview s kf)] \<and>
     dirty s' = dirty s - {kt} \<and> bio_frame s s'"

lemma copied_held:
  assumes "bio_inv s" "busy s = {}" "bio_inv s2" "held s2 f kf" "held s2 t kt" "busy s2 = {f, t}" "f \<noteq> t"
    and "bview s2 = bview s" "disk s2 = disk s" "disk_log s2 = disk_log s" "dirty s2 = dirty s" "bio_frame s s2"
  shows "ok (bwrite t (bstore t (bdata s2 f) s2)) (\<lambda>_ s3. ok (brelse f s3) (\<lambda>_ s4. ok (brelse t s4)
     (\<lambda>_. copied kf kt s)))"
proof -
  have dsk: "dsk s2 = dsk s" using assms(9) by (rule dsk_cong)
  have "kf \<in> dirty s2 \<or> bdata s2 f = dsk s2 kf"
    using clean_sync [OF assms(1,2), of kf] held_view [OF assms(3,4)] assms(8,11) dsk by simp
  from copy_held [OF assms(3-7) this] show ?thesis
    using assms(8-12) dsk by (elim ok_mono) (auto simp: copied_def intro: bio_frame_trans)
qed

lemma copy_second_to_first:
  assumes "bio_inv s" "busy s = {}" "baccept s (dev, a)" "baccept s (dev, b)" "a \<noteq> b"
    and "card (dirty s) < NBUF" "(dev, b) \<in> dirty s \<or> card (dirty s) + 1 < NBUF"
  shows "ok (bread dev a s) (\<lambda>x s1. bio_frame s s1 \<and> ok (bread dev b s1) (\<lambda>y s2. ok (bwrite x (bstore x (bdata s2 y) s2)) (\<lambda>_ s3.
     ok (brelse y s3) (\<lambda>_ s4. ok (brelse x s4) (\<lambda>_. copied (dev, b) (dev, a) s)))))"
proof -
  have "ok (bwrite x (bstore x (bdata s2 y) s2)) (\<lambda>_ s3.
     ok (brelse y s3) (\<lambda>_ s4. ok (brelse x s4) (\<lambda>_. copied (dev, b) (dev, a) s)))"
    if "bio_inv s2 \<and> held s2 x (dev, a) \<and> held s2 y (dev, b) \<and> busy s2 = {x, y} \<and> x \<noteq> y \<and> bview s2 = bview s \<and>
     disk s2 = disk s \<and> disk_log s2 = disk_log s \<and> dirty s2 = dirty s \<and> bio_frame s s2" for x y s2
    using that assms(1,2) by (intro copied_held) auto
  note * = this
  show ?thesis by (rule ok_mono [OF two_breads [OF assms]], elim conjE, intro conjI, assumption, erule ok_mono, rule *)
qed

lemma copy_first_to_second:
  assumes "bio_inv s" "busy s = {}" "baccept s (dev, a)" "baccept s (dev, b)" "a \<noteq> b"
    and "card (dirty s) < NBUF" "(dev, b) \<in> dirty s \<or> card (dirty s) + 1 < NBUF"
  shows "ok (bread dev a s) (\<lambda>x s1. bio_frame s s1 \<and> ok (bread dev b s1) (\<lambda>y s2. ok (bwrite y (bstore y (bdata s2 x) s2)) (\<lambda>_ s3.
     ok (brelse x s3) (\<lambda>_ s4. ok (brelse y s4) (\<lambda>_. copied (dev, a) (dev, b) s)))))"
proof -
  have "ok (bwrite y (bstore y (bdata s2 x) s2)) (\<lambda>_ s3.
     ok (brelse x s3) (\<lambda>_ s4. ok (brelse y s4) (\<lambda>_. copied (dev, a) (dev, b) s)))"
    if "bio_inv s2 \<and> held s2 x (dev, a) \<and> held s2 y (dev, b) \<and> busy s2 = {x, y} \<and> x \<noteq> y \<and> bview s2 = bview s \<and>
     disk s2 = disk s \<and> disk_log s2 = disk_log s \<and> dirty s2 = dirty s \<and> bio_frame s s2" for x y s2
    using that assms(1,2) by (intro copied_held) auto
  note * = this
  show ?thesis by (rule ok_mono [OF two_breads [OF assms]], elim conjE, intro conjI, assumption, erule ok_mono, rule *)
qed

section \<open>Shape of a transaction\<close>

definition in_log :: "'a log_state_scheme \<Rightarrow> uint \<Rightarrow> bool" where
  "in_log s b \<longleftrightarrow> unat (log_start s) \<le> unat b \<and> unat b < unat (log_start s) + LOGSIZE"

definition log_geom :: "'a log_state_scheme \<Rightarrow> bool" where
  "log_geom s \<longleftrightarrow> (log_dev s = 0 \<or> log_dev s = 1 \<and> havedisk1 s) \<and> unat (log_start s) + LOGSIZE \<le> 4000"

definition home_ok :: "'a log_state_scheme \<Rightarrow> uint list \<Rightarrow> bool" where
  "home_ok s bs \<longleftrightarrow> length bs < LOGSIZE \<and> distinct bs \<and> (\<forall>b\<in>set bs. unat b < 4000 \<and> \<not> in_log s b)"

definition hdr_ok :: "'a log_state_scheme \<Rightarrow> nat \<Rightarrow> bool" where
  "hdr_ok s n \<longleftrightarrow> lh_n s = of_nat n \<and> length (lh_block s) = LOGSIZE \<and> n < LOGSIZE \<and> home_ok s (take n (lh_block s))"

text \<open>The key of the \<open>i\<close>-th data block of the log, and of a home block.\<close>

definition lkey :: "'a log_state_scheme \<Rightarrow> nat \<Rightarrow> bkey" where
  "lkey s i = (log_dev s, log_start s + of_nat i + 1)"

definition hkey :: "'a log_state_scheme \<Rightarrow> nat \<Rightarrow> bkey" where
  "hkey s i = (log_dev s, lh_block s ! i)"

lemma fst_lkey [simp]: "fst (lkey s i) = log_dev s"
  by (simp add: lkey_def)

lemma fst_hkey [simp]: "fst (hkey s i) = log_dev s"
  by (simp add: hkey_def)

lemma unat_log_addr:
  assumes "log_geom s" "i \<le> LOGSIZE"
  shows "unat (log_start s + of_nat i) = unat (log_start s) + i"
  using assms by (simp add: log_geom_def LOGSIZE_def unat_word_ariths unat_of_nat)

lemma unat_lkey: "log_geom s \<Longrightarrow> i < LOGSIZE \<Longrightarrow> unat (snd (lkey s i)) = unat (log_start s) + i + 1"
  using unat_log_addr [of s "Suc i"] by (simp add: lkey_def algebra_simps)

lemma lkey_accept:
  assumes "log_geom s" "Suc i < LOGSIZE" shows "baccept s (lkey s i)"
proof -
  have "unat (snd (lkey s i)) < 4000"
    using unat_lkey [OF assms(1), of i] assms by (simp add: log_geom_def)
  then have "snd (lkey s i) < 4000" by (simp add: word_less_nat_alt)
  with assms(1) show ?thesis by (simp add: baccept_def log_geom_def)
qed

lemma lkey_in_log:
  assumes "log_geom s" "Suc i < LOGSIZE" shows "in_log s (snd (lkey s i))"
  using unat_lkey [OF assms(1), of i] assms(2) by (simp add: in_log_def)

lemma lkey_inj:
  assumes "log_geom s" "i < LOGSIZE" "j < LOGSIZE" "lkey s i = lkey s j" shows "i = j"
  using unat_lkey [OF assms(1,2)] unat_lkey [OF assms(1,3)] assms(4) by (metis add_left_cancel add_right_cancel)

lemma hkey_facts:
  assumes "log_geom s" "hdr_ok s n" "i < n"
  shows "baccept s (hkey s i)" "\<not> in_log s (snd (hkey s i))"
proof -
  have "lh_block s ! i \<in> set (take n (lh_block s))"
    using assms(2,3) by (metis hdr_ok_def in_set_conv_nth length_take less_imp_le min_absorb2 nth_take)
  then have "unat (lh_block s ! i) < 4000 \<and> \<not> in_log s (lh_block s ! i)"
    using assms(2) by (auto simp: hdr_ok_def home_ok_def)
  then show "baccept s (hkey s i)" "\<not> in_log s (snd (hkey s i))"
    using assms(1) by (auto simp: hkey_def baccept_def log_geom_def word_less_nat_alt)
qed

lemma hkey_inj:
  assumes "hdr_ok s n" "i < n" "j < n" "hkey s i = hkey s j"
  shows "i = j"
  using assms nth_eq_iff_index_eq [of "take n (lh_block s)" i j]
  by (simp add: hkey_def hdr_ok_def home_ok_def)

lemma hkey_ne_lkey:
  assumes "log_geom s" "hdr_ok s n" "i < n" "j < n" shows "hkey s i \<noteq> lkey s j"
  using hkey_facts(2) [OF assms(1-3)] lkey_in_log [OF assms(1), of j] assms(2,4) by (auto simp: hdr_ok_def)

lemma log_frame_geom:
  assumes "bio_frame s s'"
  shows "log_geom s' = log_geom s" "hdr_ok s' n = hdr_ok s n" "lkey s' = lkey s" "hkey s' = hkey s"
    "in_log s' b = in_log s b" "home_ok s' bs = home_ok s bs"
proof -
  have h: "havedisk1 s' = havedisk1 s" using assms by (simp add: bio_frame_def)
  show "log_geom s' = log_geom s" "hdr_ok s' n = hdr_ok s n" "lkey s' = lkey s" "hkey s' = hkey s"
    "in_log s' b = in_log s b" "home_ok s' bs = home_ok s bs"
    using log_frame [OF assms] h
    by (simp_all add: log_geom_def hdr_ok_def home_ok_def in_log_def fun_eq_iff lkey_def hkey_def)
qed

section \<open>The two copying loops\<close>

definition fupds :: "('k \<Rightarrow> 'v) \<Rightarrow> ('k \<times> 'v) list \<Rightarrow> 'k \<Rightarrow> 'v" where
  "fupds f kvs = fold (\<lambda>(k, x) f. f(k := x)) kvs f"

lemma fupds_simps [simp]: "fupds f [] = f" "fupds f ((k, x) # kvs) = fupds (f(k := x)) kvs"
  "fupds f (kvs @ kws) = fupds (fupds f kvs) kws"
  by (simp_all add: fupds_def)

lemma fupds_other: "k \<notin> fst ` set kvs \<Longrightarrow> fupds f kvs k = f k"
  by (induction kvs arbitrary: f) auto

lemma fupds_map:
  "distinct (map kf ts) \<Longrightarrow> t \<in> set ts \<Longrightarrow> fupds f (map (\<lambda>i. (kf i, x i)) ts) (kf t) = x t"
proof (induction ts arbitrary: f)
  case (Cons a ts)
  show ?case
  proof (cases "t \<in> set ts")
    case False
    with Cons.prems show ?thesis by (auto simp: fupds_other image_image)
  qed (use Cons in auto)
qed simp

definition wr :: "bkey \<times> uchar list \<Rightarrow> bool \<times> uint \<times> uchar list" where
  "wr kx = (bit (fst (fst kx)) 0, snd (fst kx), snd kx)"

text \<open>The blocks of \<open>kvs\<close> have been written, in this order, in the cache and on the disk.\<close>

definition wrote :: "(bkey \<times> uchar list) list \<Rightarrow> 'a bio_state_scheme \<Rightarrow> 'a bio_state_scheme \<Rightarrow> bool" where
  "wrote kvs s s' \<longleftrightarrow> bio_inv s' \<and> busy s' = {} \<and> bview s' = fupds (bview s) kvs \<and> dsk s' = fupds (dsk s) kvs \<and>
     disk_log s' = disk_log s @ map wr kvs \<and> dirty s' = dirty s - fst ` set kvs"

lemma wrote_Nil: "bio_inv s \<Longrightarrow> busy s = {} \<Longrightarrow> wrote [] s s"
  by (simp add: wrote_def)

lemma wrote_trans: "wrote kvs s t \<Longrightarrow> wrote kws t u \<Longrightarrow> wrote (kvs @ kws) s u"
  by (auto simp: wrote_def)

lemma copied_wrote: "copied kf kt s s' \<Longrightarrow> wrote [(kt, bview s kf)] s s'"
  by (simp add: copied_def wrote_def wr_def)

lemma write_log_loop_ok:
  assumes "bio_inv s" "busy s = {}" "log_geom s" "hdr_ok s n" "set ts \<subseteq> {..<n}" "distinct ts"
    and "card (dirty s) < NBUF" "\<forall>i<n. hkey s i \<in> dirty s" "\<forall>i<n. lkey s i \<notin> dirty s"
  shows "ok (write_log_loop ts s)
     (\<lambda>_ s'. wrote (map (\<lambda>i. (lkey s i, bview s (hkey s i))) ts) s s' \<and> bio_frame s s')"
  using assms
proof (induction ts arbitrary: s)
  case Nil
  then show ?case by (simp add: wrote_Nil)
next
  case (Cons t ts)
  have t: "t < n" "Suc t < LOGSIZE" using Cons.prems by (auto simp: hdr_ok_def)
  then have nt: "(LOGSIZE \<le> t) = False" by simp
  have step: "ok (bread (log_dev s) (log_start s + of_nat t + 1) s) (\<lambda>x s1. bio_frame s s1 \<and>
     ok (bread (log_dev s) (lh_block s ! t) s1) (\<lambda>y s2. ok (bwrite x (bstore x (bdata s2 y) s2)) (\<lambda>_ s3.
     ok (brelse y s3) (\<lambda>_ s4. ok (brelse x s4) (\<lambda>_. copied (hkey s t) (lkey s t) s)))))"
    unfolding lkey_def hkey_def
  proof (rule copy_second_to_first)
    show "log_start s + of_nat t + 1 \<noteq> lh_block s ! t"
      using hkey_ne_lkey [OF Cons.prems(3,4) t(1) t(1)] by (simp add: hkey_def lkey_def)
  qed (use Cons.prems t lkey_accept [OF Cons.prems(3) t(2)] hkey_facts(1) [OF Cons.prems(3,4) t(1)] in
      \<open>auto simp: lkey_def hkey_def\<close>)
  have rest: "ok (write_log_loop ts s1)
     (\<lambda>_ s'. wrote (map (\<lambda>i. (lkey s i, bview s (hkey s i))) (t # ts)) s s' \<and> bio_frame s s')"
    if c: "copied (hkey s t) (lkey s t) s s1" for s1
  proof -
    have fr: "bio_frame s s1" using c by (simp add: copied_def)
    note g = log_frame_geom [OF fr]
    have d: "dirty s1 = dirty s" using c Cons.prems(9) t by (auto simp: copied_def)
    have v: "bview s1 (hkey s i) = bview s (hkey s i)" if "i < n" for i
      using c hkey_ne_lkey [OF Cons.prems(3,4) that t(1)] by (simp add: copied_def)
    have eq: "map (\<lambda>i. (lkey s1 i, bview s1 (hkey s1 i))) ts = map (\<lambda>i. (lkey s i, bview s (hkey s i))) ts"
      using v Cons.prems(5) by (auto simp: g)
    have "ok (write_log_loop ts s1)
       (\<lambda>_ s'. wrote (map (\<lambda>i. (lkey s1 i, bview s1 (hkey s1 i))) ts) s1 s' \<and> bio_frame s1 s')"
      using Cons.prems c by (intro Cons.IH) (auto simp: copied_def g d)
    then show ?thesis
      unfolding eq using wrote_trans [OF copied_wrote [OF c]] bio_frame_trans [OF fr] by (elim ok_mono) auto
  qed
  show ?case
    unfolding write_log_loop.simps(2) nt if_False ok_bindk
    by (rule ok_mono [OF step], elim conjE, simp only: log_frame(5,7), elim ok_mono, erule rest)
qed

lemma install_trans_loop_ok:
  assumes "bio_inv s" "busy s = {}" "log_geom s" "hdr_ok s n" "set ts \<subseteq> {..<n}" "distinct ts"
    and "card (dirty s) < NBUF" "(\<forall>i\<in>set ts. hkey s i \<in> dirty s) \<or> card (dirty s) + 1 < NBUF"
  shows "ok (install_trans_loop ts s)
     (\<lambda>_ s'. wrote (map (\<lambda>i. (hkey s i, bview s (lkey s i))) ts) s s' \<and> bio_frame s s')"
  using assms
proof (induction ts arbitrary: s)
  case Nil
  then show ?case by (simp add: wrote_Nil)
next
  case (Cons t ts)
  have t: "t < n" "Suc t < LOGSIZE" using Cons.prems by (auto simp: hdr_ok_def)
  then have nt: "(LOGSIZE \<le> t) = False" by simp
  have step: "ok (bread (log_dev s) (log_start s + of_nat t + 1) s) (\<lambda>x s1. bio_frame s s1 \<and>
     ok (bread (log_dev s) (lh_block s ! t) s1) (\<lambda>y s2. ok (bwrite y (bstore y (bdata s2 x) s2)) (\<lambda>_ s3.
     ok (brelse x s3) (\<lambda>_ s4. ok (brelse y s4) (\<lambda>_. copied (lkey s t) (hkey s t) s)))))"
    unfolding lkey_def hkey_def
  proof (rule copy_first_to_second)
    show "log_start s + of_nat t + 1 \<noteq> lh_block s ! t"
      using hkey_ne_lkey [OF Cons.prems(3,4) t(1) t(1)] by (simp add: hkey_def lkey_def)
  qed (use Cons.prems t lkey_accept [OF Cons.prems(3) t(2)] hkey_facts(1) [OF Cons.prems(3,4) t(1)] in
      \<open>auto simp: lkey_def hkey_def\<close>)
  have rest: "ok (install_trans_loop ts s1)
     (\<lambda>_ s'. wrote (map (\<lambda>i. (hkey s i, bview s (lkey s i))) (t # ts)) s s' \<and> bio_frame s s')"
    if c: "copied (lkey s t) (hkey s t) s s1" for s1
  proof -
    have fr: "bio_frame s s1" using c by (simp add: copied_def)
    note g = log_frame_geom [OF fr]
    have d: "dirty s1 = dirty s - {hkey s t}" using c by (simp add: copied_def)
    have d': "hkey s i \<in> dirty s1" if "i \<in> set ts" "hkey s i \<in> dirty s" for i
      using that hkey_inj [OF Cons.prems(4), of i t] Cons.prems(5,6) by (auto simp: d)
    have card: "card (dirty s1) \<le> card (dirty s)" by (simp add: d card_mono)
    have v: "bview s1 (lkey s i) = bview s (lkey s i)" if "i < n" for i
      using c hkey_ne_lkey [OF Cons.prems(3,4) t(1) that] by (simp add: copied_def)
    have eq: "map (\<lambda>i. (hkey s1 i, bview s1 (lkey s1 i))) ts = map (\<lambda>i. (hkey s i, bview s (lkey s i))) ts"
      using v Cons.prems(5) by (auto simp: g)
    have "ok (install_trans_loop ts s1)
       (\<lambda>_ s'. wrote (map (\<lambda>i. (hkey s1 i, bview s1 (lkey s1 i))) ts) s1 s' \<and> bio_frame s1 s')"
      using Cons.prems c card d' by (intro Cons.IH) (auto simp: copied_def g)
    then show ?thesis
      unfolding eq using wrote_trans [OF copied_wrote [OF c]] bio_frame_trans [OF fr] by (elim ok_mono) auto
  qed
  show ?case
    unfolding install_trans_loop.simps(2) nt if_False ok_bindk
    by (rule ok_mono [OF step], elim conjE, simp only: log_frame(5,7), elim ok_mono, erule rest)
qed

section \<open>Reading and writing the header\<close>

lemma length_put_head_blocks [simp]:
  "set is \<subseteq> {..<LOGSIZE} \<Longrightarrow> length d = BSIZE \<Longrightarrow> length (put_head_blocks is bs d) = BSIZE"
  by (induction "is" arbitrary: d) (auto simp: LOGSIZE_def BSIZE_def)

lemma get32_put_head_blocks:
  "set is \<subseteq> {..<LOGSIZE} \<Longrightarrow> length d = BSIZE \<Longrightarrow> off + 4 \<le> BSIZE \<Longrightarrow>
   (\<And>i. i \<in> set is \<Longrightarrow> off + 4 \<le> 4 + 4 * i \<or> 8 + 4 * i \<le> off) \<Longrightarrow>
   get32 off (put_head_blocks is bs d) = get32 off d"
  by (induction "is" arbitrary: d) (auto simp: LOGSIZE_def BSIZE_def get32_put32_disjoint)

lemma head_put_head_blocks:
  assumes "n \<le> LOGSIZE" "length d = BSIZE"
  shows "head_n (put_head_blocks [0..<n] bs (put32 0 w d)) = w"
    "i < n \<Longrightarrow> head_block (put_head_blocks [0..<n] bs d) i = bs ! i"
proof -
  have "get32 0 (put_head_blocks [0..<n] bs (put32 0 w d)) = get32 0 (put32 0 w d)"
    using assms by (intro get32_put_head_blocks) (auto simp: BSIZE_def)
  then show "head_n (put_head_blocks [0..<n] bs (put32 0 w d)) = w"
    using assms by (simp add: head_n_def BSIZE_def)
next
  assume "i < n"
  then have split: "[0..<n] = [0..<i] @ i # [Suc i..<n]"
    using upt_add_eq_append [of 0 i "n - i"] upt_conv_Cons [of i n] by simp
  have app: "put_head_blocks (xs @ ys) bs d = put_head_blocks ys bs (put_head_blocks xs bs d)" for xs ys and d
    by (induction xs arbitrary: d) auto
  let ?d = "put_head_blocks [0..<i] bs d"
  have len: "length ?d = BSIZE" using assms \<open>i < n\<close> by (intro length_put_head_blocks) auto
  have "get32 (4 + 4 * i) (put_head_blocks [Suc i..<n] bs (put32 (4 + 4 * i) (bs ! i) ?d))
      = get32 (4 + 4 * i) (put32 (4 + 4 * i) (bs ! i) ?d)"
    using assms \<open>i < n\<close> len by (intro get32_put_head_blocks) (auto simp: BSIZE_def LOGSIZE_def)
  then show "head_block (put_head_blocks [0..<n] bs d) i = bs ! i"
    using assms \<open>i < n\<close> len by (simp add: split app head_block_def BSIZE_def LOGSIZE_def)
qed

section \<open>The buffer cache does not see the log's variables\<close>

lemma bio_inv_log [simp]:
  "bio_inv (s\<lparr>lh_n := x\<rparr>) = bio_inv s"
  "bio_inv (s\<lparr>lh_block := bs\<rparr>) = bio_inv s"
  "bio_inv (s\<lparr>log_outstanding := x\<rparr>) = bio_inv s"
  "bio_inv (s\<lparr>log_committing := c\<rparr>) = bio_inv s"
  "bio_inv (s\<lparr>log_start := x\<rparr>) = bio_inv s"
  "bio_inv (s\<lparr>log_size := x\<rparr>) = bio_inv s"
  "bio_inv (s\<lparr>log_dev := x\<rparr>) = bio_inv s"
  by (simp_all add: bio_inv_def buf_ok_def baccept_def dsk_def ide_ready_def)

lemma bview_log [simp]:
  "bview (s\<lparr>lh_n := x\<rparr>) = bview s"
  "bview (s\<lparr>lh_block := bs\<rparr>) = bview s"
  "bview (s\<lparr>log_outstanding := x\<rparr>) = bview s"
  "bview (s\<lparr>log_committing := c\<rparr>) = bview s"
  "bview (s\<lparr>log_start := x\<rparr>) = bview s"
  "bview (s\<lparr>log_size := x\<rparr>) = bview s"
  "bview (s\<lparr>log_dev := x\<rparr>) = bview s"
  by (simp_all add: bview_def dsk_def fun_eq_iff split: option.split)

lemma dsk_log [simp]:
  "dsk (s\<lparr>lh_n := x\<rparr>) = dsk s"
  "dsk (s\<lparr>lh_block := bs\<rparr>) = dsk s"
  "dsk (s\<lparr>log_outstanding := x\<rparr>) = dsk s"
  "dsk (s\<lparr>log_committing := c\<rparr>) = dsk s"
  "dsk (s\<lparr>log_start := x\<rparr>) = dsk s"
  "dsk (s\<lparr>log_size := x\<rparr>) = dsk s"
  "dsk (s\<lparr>log_dev := x\<rparr>) = dsk s"
  by (simp_all add: dsk_def fun_eq_iff)

lemma busy_log [simp]:
  "busy (s\<lparr>lh_n := x\<rparr>) = busy s"
  "busy (s\<lparr>lh_block := bs\<rparr>) = busy s"
  "busy (s\<lparr>log_outstanding := x\<rparr>) = busy s"
  "busy (s\<lparr>log_committing := c\<rparr>) = busy s"
  "busy (s\<lparr>log_start := x\<rparr>) = busy s"
  "busy (s\<lparr>log_size := x\<rparr>) = busy s"
  "busy (s\<lparr>log_dev := x\<rparr>) = busy s"
  by (simp_all add: busy_def)

lemma dirty_log [simp]:
  "dirty (s\<lparr>lh_n := x\<rparr>) = dirty s"
  "dirty (s\<lparr>lh_block := bs\<rparr>) = dirty s"
  "dirty (s\<lparr>log_outstanding := x\<rparr>) = dirty s"
  "dirty (s\<lparr>log_committing := c\<rparr>) = dirty s"
  "dirty (s\<lparr>log_start := x\<rparr>) = dirty s"
  "dirty (s\<lparr>log_size := x\<rparr>) = dirty s"
  "dirty (s\<lparr>log_dev := x\<rparr>) = dirty s"
  by (simp_all add: dirty_def)

lemma held_log [simp]:
  "held (s\<lparr>lh_n := x\<rparr>) = held s"
  "held (s\<lparr>lh_block := bs\<rparr>) = held s"
  "held (s\<lparr>log_outstanding := x\<rparr>) = held s"
  "held (s\<lparr>log_committing := c\<rparr>) = held s"
  "held (s\<lparr>log_start := x\<rparr>) = held s"
  "held (s\<lparr>log_size := x\<rparr>) = held s"
  "held (s\<lparr>log_dev := x\<rparr>) = held s"
  by (simp_all add: held_def fun_eq_iff)

lemma bdata_log [simp]:
  "bdata (s\<lparr>lh_n := x\<rparr>) = bdata s"
  "bdata (s\<lparr>lh_block := bs\<rparr>) = bdata s"
  "bdata (s\<lparr>log_outstanding := x\<rparr>) = bdata s"
  "bdata (s\<lparr>log_committing := c\<rparr>) = bdata s"
  "bdata (s\<lparr>log_start := x\<rparr>) = bdata s"
  "bdata (s\<lparr>log_size := x\<rparr>) = bdata s"
  "bdata (s\<lparr>log_dev := x\<rparr>) = bdata s"
  by (simp_all add: bdata_def fun_eq_iff)

lemma baccept_log [simp]:
  "baccept (s\<lparr>lh_n := x\<rparr>) = baccept s"
  "baccept (s\<lparr>lh_block := bs\<rparr>) = baccept s"
  "baccept (s\<lparr>log_outstanding := x\<rparr>) = baccept s"
  "baccept (s\<lparr>log_committing := c\<rparr>) = baccept s"
  "baccept (s\<lparr>log_start := x\<rparr>) = baccept s"
  "baccept (s\<lparr>log_size := x\<rparr>) = baccept s"
  "baccept (s\<lparr>log_dev := x\<rparr>) = baccept s"
  by (simp_all add: baccept_def fun_eq_iff)

definition hdkey :: "'a log_state_scheme \<Rightarrow> bkey" where
  "hdkey s = (log_dev s, log_start s)"

lemma hdkey_accept: "log_geom s \<Longrightarrow> baccept s (hdkey s)"
  by (auto simp: hdkey_def log_geom_def baccept_def word_less_nat_alt LOGSIZE_def)

lemma hdkey_ne_lkey:
  assumes "log_geom s" "i < LOGSIZE" shows "hdkey s \<noteq> lkey s i"
proof
  assume "hdkey s = lkey s i"
  then have "snd (lkey s i) = log_start s" by (metis hdkey_def snd_conv)
  with unat_lkey [OF assms] show False by simp
qed

lemma hdkey_ne_hkey:
  assumes "log_geom s" "hdr_ok s n" "i < n" shows "hdkey s \<noteq> hkey s i"
proof
  assume "hdkey s = hkey s i"
  then have "snd (hkey s i) = log_start s" by (metis hdkey_def snd_conv)
  with hkey_facts(2) [OF assms] show False by (simp add: in_log_def LOGSIZE_def)
qed

lemma hdkey_frame: "bio_frame s s' \<Longrightarrow> hdkey s' = hdkey s"
  by (simp add: hdkey_def log_frame)

text \<open>Reading, changing and writing back one block (what \<open>write_head\<close> does).\<close>

lemma bread_bwrite_brelse:
  assumes "bio_inv s" "busy s = {}" "baccept s (dev, b)" "card (dirty s) < NBUF" "\<And>d. length d = BSIZE \<Longrightarrow> length (f d) = BSIZE"
  shows "ok (bread dev b s) (\<lambda>x s1. bio_frame s s1 \<and> ok (bwrite x (bstore x (f (bdata s1 x)) s1)) (\<lambda>_ s2.
     ok (brelse x s2) (\<lambda>_ s3. wrote [((dev, b), f (bview s (dev, b)))] s s3 \<and> bio_frame s s3)))"
proof -
  have "bavail s (dev, b)" using assms by (intro bavailI) auto
  then have "ok (bread dev b s) (bread_post (dev, b) s)" using assms by (intro bread_ok) auto
  then show ?thesis
  proof (rule ok_mono)
    fix x s1 assume r: "bread_post (dev, b) s x s1"
    then have r1: "bio_inv s1" "held s1 x (dev, b)" "busy s1 = {x}" "dirty s1 = dirty s" "bio_frame s s1"
      "bdata s1 x = bview s (dev, b)" "bview s1 = bview s" "disk s1 = disk s" "disk_log s1 = disk_log s"
      using assms(2) by (auto simp: bread_post_def)
    let ?d = "f (bview s (dev, b))"
    have "length (bview s (dev, b)) = BSIZE"
      using length_bview [OF assms(1)] assms(3) by (auto simp: baccept_def)
    then have len: "length ?d = BSIZE" by (rule assms(5))
    note st = bstore_ok [OF r1(1,2) len]
    let ?s1 = "bstore x ?d s1"
    have dsk1: "dsk ?s1 = dsk s" using st(8) r1(8) by (metis dsk_cong)
    have "ok (bwrite x ?s1) (\<lambda>_ s2. ok (brelse x s2) (\<lambda>_ s3. wrote [((dev, b), ?d)] s s3 \<and> bio_frame s s3))"
    proof (rule ok_mono [OF bwrite_ok [OF st(1,2)]], elim conjE)
      fix u s2
      assume w: "bio_inv s2" "held s2 x (dev, b)" "bdata s2 x = bdata ?s1 x" "bview s2 = bview ?s1"
        "dsk s2 = (dsk ?s1)((dev, b) := bdata ?s1 x)" "busy s2 = busy ?s1" "dirty s2 = dirty ?s1 - {(dev, b)}"
        "disk_log s2 = disk_log ?s1 @ [(bit (fst (dev, b)) 0, snd (dev, b), bdata ?s1 x)]" "bio_frame ?s1 s2"
      have "(dev, b) \<in> dirty s2 \<or> bdata s2 x = dsk s2 (dev, b)" using w(3,5) by simp
      then show "ok (brelse x s2) (\<lambda>_ s3. wrote [((dev, b), ?d)] s s3 \<and> bio_frame s s3)"
      proof (rule ok_mono [OF brelse_ok [OF w(1,2)]], elim conjE, intro conjI)
        fix u s3
        assume v: "bio_inv s3" "bview s3 = bview s2" "disk s3 = disk s2" "disk_log s3 = disk_log s2"
          "busy s3 = busy s2 - {x}" "dirty s3 = dirty s2" "bio_frame s2 s3"
        show "wrote [((dev, b), ?d)] s s3"
          using v w st(3-6,9) r1 dsk1 dsk_cong [OF v(3)] by (simp add: wrote_def wr_def)
        show "bio_frame s s3" using r1(5) st(7) w(9) v(7) by (blast intro: bio_frame_trans)
      qed
    qed
    with r1 show "bio_frame s s1 \<and> ok (bwrite x (bstore x (f (bdata s1 x)) s1)) (\<lambda>_ s2.
       ok (brelse x s2) (\<lambda>_ s3. wrote [((dev, b), ?d)] s s3 \<and> bio_frame s s3))" by simp
  qed
qed

definition head_of :: "nat \<Rightarrow> 'a log_state_scheme \<Rightarrow> uchar list \<Rightarrow> uchar list" where
  "head_of n s d = put_head_blocks [0..<n] (lh_block s) (put32 0 (of_nat n) d)"

lemma length_head_of: "n \<le> LOGSIZE \<Longrightarrow> length d = BSIZE \<Longrightarrow> length (head_of n s d) = BSIZE"
  unfolding head_of_def by (rule length_put_head_blocks) (auto simp: BSIZE_def)

lemma write_head_ok:
  assumes "bio_inv s" "busy s = {}" "log_geom s" "lh_n s = of_nat n" "n \<le> LOGSIZE" "card (dirty s) < NBUF"
  shows "ok (write_head s) (\<lambda>_ s'. wrote [(hdkey s, head_of n s (bview s (hdkey s)))] s s' \<and> bio_frame s s')"
proof -
  have n: "nat (sint (of_nat n :: 32 word)) = n" "(LOGSIZE < n) = False"
    using assms(5) by (simp_all add: sint_of_nat_small LOGSIZE_def)
  have acc: "baccept s (log_dev s, log_start s)" using hdkey_accept [OF assms(3)] by (simp add: hdkey_def)
  have *: "ok (bread (log_dev s) (log_start s) s) (\<lambda>x s1. bio_frame s s1 \<and>
     ok (bwrite x (bstore x (head_of n s (bdata s1 x)) s1)) (\<lambda>_ s2. ok (brelse x s2) (\<lambda>_ s3.
       wrote [((log_dev s, log_start s), head_of n s (bview s (log_dev s, log_start s)))] s s3 \<and> bio_frame s s3)))"
    by (rule bread_bwrite_brelse [OF assms(1,2) acc assms(6)]) (rule length_head_of [OF assms(5)])
  show ?thesis
    unfolding write_head_def ok_bindk hdkey_def Let_def
  proof (rule ok_mono [OF *], elim conjE)
    fix x s1
    assume fr: "bio_frame s s1" and w: "ok (bwrite x (bstore x (head_of n s (bdata s1 x)) s1)) (\<lambda>_ s2. ok (brelse x s2) (\<lambda>_ s3.
       wrote [((log_dev s, log_start s), head_of n s (bview s (log_dev s, log_start s)))] s s3 \<and> bio_frame s s3))"
    note f = log_frame [OF fr]
    show "ok (if LOGSIZE < nat (sint (lh_n s1)) then undef
         else bindk (bwrite x (bstore x (put_head_blocks [0..<nat (sint (lh_n s1))] (lh_block s1)
                (put32 0 (lh_n s1) (bdata s1 x))) s1)) (\<lambda>_. brelse x))
       (\<lambda>_ s3. wrote [((log_dev s, log_start s), head_of n s (bview s (log_dev s, log_start s)))] s s3 \<and> bio_frame s s3)"
      using w by (simp add: f assms(4) n head_of_def ok_bindk)
  qed
qed

section \<open>Commit\<close>

lemma wrote_log [simp]:
  "wrote kvs (s\<lparr>lh_n := x\<rparr>) s' = wrote kvs s s'" "wrote kvs s (s'\<lparr>lh_n := x\<rparr>) = wrote kvs s s'"
  by (simp_all add: wrote_def)

lemma geom_log [simp]:
  "log_geom (s\<lparr>lh_n := x\<rparr>) = log_geom s" "lkey (s\<lparr>lh_n := x\<rparr>) = lkey s" "hkey (s\<lparr>lh_n := x\<rparr>) = hkey s"
  "hdkey (s\<lparr>lh_n := x\<rparr>) = hdkey s" "head_of n (s\<lparr>lh_n := x\<rparr>) = head_of n s"
  by (simp_all add: log_geom_def lkey_def hkey_def hdkey_def head_of_def fun_eq_iff)

lemma bio_frame_lh_n: "bio_frame s s' \<Longrightarrow> bio_frame (s\<lparr>lh_n := x\<rparr>) (s'\<lparr>lh_n := x\<rparr>)"
  by (cases s; cases s'; simp add: bio_frame_def)

text \<open>
  A transaction ready to commit: \<open>n\<close> distinct home blocks outside the log, which are exactly the
  dirty blocks of the cache; no buffer is locked.
\<close>

definition txn_ok :: "'a log_state_scheme \<Rightarrow> nat \<Rightarrow> bool" where
  "txn_ok s n \<longleftrightarrow> bio_inv s \<and> busy s = {} \<and> log_geom s \<and> hdr_ok s n \<and> dirty s = hkey s ` {..<n}"

definition commit_writes :: "'a log_state_scheme \<Rightarrow> nat \<Rightarrow> (bkey \<times> uchar list) list" where
  "commit_writes s n =
     (let H = head_of n s (bview s (hdkey s))
      in map (\<lambda>i. (lkey s i, bview s (hkey s i))) [0..<n] @ [(hdkey s, H)] @
         map (\<lambda>i. (hkey s i, bview s (hkey s i))) [0..<n] @ [(hdkey s, head_of 0 s H)])"

lemma card_hkeys: "hdr_ok s n \<Longrightarrow> card (hkey s ` {..<n}) = n"
  using hkey_inj by (subst card_image) (auto simp: inj_on_def)

lemma head_of_frame: "bio_frame s s' \<Longrightarrow> head_of n s' = head_of n s"
  by (simp add: head_of_def fun_eq_iff log_frame)

lemma commit_ok:
  assumes txn: "txn_ok s n" and pos: "0 < n"
  shows "ok (commit s) (\<lambda>_ s'. wrote (commit_writes s n) s s' \<and> bio_frame (s\<lparr>lh_n := 0\<rparr>) s')"
proof -
  have a: "bio_inv s" "busy s = {}" "log_geom s" "hdr_ok s n" "dirty s = hkey s ` {..<n}"
    using txn by (auto simp: txn_ok_def)
  have n: "n < LOGSIZE" "lh_n s = of_nat n" using a(4) by (auto simp: hdr_ok_def)
  have sn: "nat (sint (of_nat n :: 32 word)) = n" "0 < sint (of_nat n :: 32 word)"
    using n(1) pos by (simp_all add: sint_of_nat_small LOGSIZE_def)
  have small: "card (dirty s) < NBUF" using card_hkeys [OF a(4)] a(5) n(1) by (simp add: NBUF_def LOGSIZE_def)
  have nolog: "lkey s i \<notin> dirty s" if "i < n" for i
    unfolding a(5) using hkey_ne_lkey [OF a(3,4) _ that] by (metis imageE lessThan_iff)
  let ?A = "map (\<lambda>i. (lkey s i, bview s (hkey s i))) [0..<n]"
  let ?H = "head_of n s (bview s (hdkey s))"
  let ?C = "map (\<lambda>i. (hkey s i, bview s (hkey s i))) [0..<n]"
  have hdA: "hdkey s \<notin> fst ` set ?A" 
    unfolding set_map image_image fst_conv set_upt
    using hdkey_ne_lkey [OF a(3)] n(1) by (metis (no_types, lifting) imageE atLeastLessThan_iff less_trans)
  have hdC: "hdkey s \<notin> fst ` set ?C" 
    unfolding set_map image_image fst_conv set_upt
    using hdkey_ne_hkey [OF a(3,4)] by (metis (no_types, lifting) imageE atLeastLessThan_iff)
  have 1: "ok (write_log s) (\<lambda>_ s1. wrote ?A s s1 \<and> bio_frame s s1)"
    unfolding write_log_def n(2) sn(1) using a small nolog by (intro write_log_loop_ok [where n = n]) auto
  have 2: "ok (write_head s1) (\<lambda>_ s2. wrote (?A @ [(hdkey s, ?H)]) s s2 \<and> bio_frame s s2)"
    if w: "wrote ?A s s1" and f: "bio_frame s s1" for s1
  proof -
    have "bview s1 (hdkey s) = bview s (hdkey s)"
      using w fupds_other [OF hdA] by (simp add: wrote_def)
    moreover have "card (dirty s1) < NBUF"
      using w small by (auto simp: wrote_def intro: le_less_trans [OF card_mono])
    ultimately have "ok (write_head s1) (\<lambda>_ s2. wrote [(hdkey s, ?H)] s1 s2 \<and> bio_frame s1 s2)"
      using write_head_ok [of s1 n] w a(3) n log_frame_geom [OF f] log_frame [OF f] hdkey_frame [OF f]
        head_of_frame [OF f] by (simp add: wrote_def)
    then show ?thesis using wrote_trans [OF w] bio_frame_trans [OF f] by (elim ok_mono) auto
  qed
  have 3: "ok (install_trans s2) (\<lambda>_ s3. wrote (?A @ [(hdkey s, ?H)] @ ?C) s s3 \<and> bio_frame s s3)"
    if w: "wrote (?A @ [(hdkey s, ?H)]) s s2" and f: "bio_frame s s2" for s2
  proof -
    note g = log_frame_geom [OF f] log_frame [OF f]
    have d: "distinct (map (lkey s) [0..<n])"
      using lkey_inj [OF a(3)] n(1) by (auto simp: distinct_map inj_on_def)
    have v: "bview s2 (lkey s i) = bview s (hkey s i)" if "i < n" for i
    proof -
      have "bview s2 (lkey s i) = fupds (bview s) ?A (lkey s i)"
        using w hdkey_ne_lkey [OF a(3), of i] that n(1) by (simp add: wrote_def)
      then show ?thesis using fupds_map [OF d, of i] that by simp
    qed
    have "hdkey s \<notin> dirty s" unfolding a(5) using hdkey_ne_hkey [OF a(3,4)] by (metis imageE lessThan_iff)
    moreover have "fst ` set (?A @ [(hdkey s, ?H)]) = insert (hdkey s) (lkey s ` {0..<n})"
      by (simp add: image_image)
    ultimately have disj: "dirty s \<inter> fst ` set (?A @ [(hdkey s, ?H)]) = {}" using nolog by force
    have "dirty s2 = dirty s - fst ` set (?A @ [(hdkey s, ?H)])" using w unfolding wrote_def by blast
    then have dirty2: "dirty s2 = dirty s" unfolding Diff_triv [OF disj] .
    have eq: "map (\<lambda>i. (hkey s2 i, bview s2 (lkey s2 i))) [0..<n] = ?C" using v by (simp add: g)
    have "ok (install_trans_loop [0..<n] s2)
       (\<lambda>_ s3. wrote (map (\<lambda>i. (hkey s2 i, bview s2 (lkey s2 i))) [0..<n]) s2 s3 \<and> bio_frame s2 s3)"
    proof (rule install_trans_loop_ok [where n = n])
      show "bio_inv s2" "busy s2 = {}" using w by (simp_all add: wrote_def)
      show "(\<forall>i\<in>set [0..<n]. hkey s2 i \<in> dirty s2) \<or> card (dirty s2) + 1 < NBUF"
        unfolding dirty2 g(4) a(5) by simp
    qed (use a small in \<open>auto simp: g dirty2\<close>)
    then have "ok (install_trans s2) (\<lambda>_ s3. wrote ?C s2 s3 \<and> bio_frame s2 s3)"
      unfolding eq install_trans_def g(12) n(2) sn(1) .
    then show ?thesis
    proof (rule ok_mono, elim conjE)
      fix u s3 assume "wrote ?C s2 s3" "bio_frame s2 s3"
      then show "wrote (?A @ [(hdkey s, ?H)] @ ?C) s s3 \<and> bio_frame s s3"
        using wrote_trans [OF w, of ?C s3] bio_frame_trans [OF f] by simp
    qed
  qed
  have 4: "ok (write_head (s3\<lparr>lh_n := 0\<rparr>)) (\<lambda>_ s4. wrote (commit_writes s n) s s4 \<and> bio_frame (s\<lparr>lh_n := 0\<rparr>) s4)"
    if w: "wrote (?A @ [(hdkey s, ?H)] @ ?C) s s3" and f: "bio_frame s s3" for s3
  proof -
    let ?t = "s3\<lparr>lh_n := 0\<rparr>"
    note g = log_frame_geom [OF f] log_frame [OF f] hdkey_frame [OF f] head_of_frame [OF f]
    have "fupds ((fupds (bview s) ?A)(hdkey s := ?H)) ?C (hdkey s) = ?H"
      using fupds_other [OF hdC] by simp
    then have v: "bview s3 (hdkey s) = ?H" using w by (simp add: wrote_def)
    have "card (dirty ?t) < NBUF"
      using w small by (auto simp: wrote_def intro: le_less_trans [OF card_mono])
    then have "ok (write_head ?t) (\<lambda>_ s4. wrote [(hdkey ?t, head_of 0 ?t (bview ?t (hdkey ?t)))] ?t s4 \<and> bio_frame ?t s4)"
      using w a(3) by (intro write_head_ok) (auto simp: wrote_def g)
    then have "ok (write_head ?t) (\<lambda>_ s4. wrote [(hdkey s, head_of 0 s ?H)] s3 s4 \<and> bio_frame ?t s4)"
      by (simp add: g v)
    then show ?thesis
      using wrote_trans [OF w] bio_frame_trans [OF bio_frame_lh_n [OF f]]
      by (elim ok_mono) (auto simp: commit_writes_def Let_def)
  qed
  show ?thesis
    unfolding commit_def n(2) if_P [OF sn(2)] ok_bindk
    by (rule ok_mono [OF 1], elim conjE, rule ok_mono [OF 2], assumption+, elim conjE,
        rule ok_mono [OF 3], assumption+, elim conjE, rule 4, assumption+)
qed

section \<open>Recovery\<close>

lemma bview_quiet: "bio_inv s \<Longrightarrow> busy s = {} \<Longrightarrow> dirty s = {} \<Longrightarrow> bview s = dsk s"
  using clean_sync [of s] by (auto simp: fun_eq_iff)

text \<open>
  What the log region of a disk means. \<open>D\<close> gives the content of the blocks. A header with \<open>N\<close> entries
  says that the first \<open>N\<close> data blocks of the log replace the home blocks it names;
  \<open>log_abs\<close> is the content of the home blocks under that reading.
\<close>

definition hcount :: "uchar list \<Rightarrow> nat" where
  "hcount hb = unat (head_n hb)"

definition hblocks :: "uchar list \<Rightarrow> uint list" where
  "hblocks hb = map (head_block hb) [0..<hcount hb]"

definition log_wf :: "'a log_state_scheme \<Rightarrow> (bkey \<Rightarrow> uchar list) \<Rightarrow> bool" where
  "log_wf s D \<longleftrightarrow> home_ok s (hblocks (D (hdkey s)))"

definition log_abs :: "'a log_state_scheme \<Rightarrow> (bkey \<Rightarrow> uchar list) \<Rightarrow> uint \<Rightarrow> uchar list" where
  "log_abs s D b =
     (case first_index (\<lambda>x. x = b) (hblocks (D (hdkey s))) of
        Some i \<Rightarrow> D (lkey s i)
      | None \<Rightarrow> D (log_dev s, b))"

lemma length_hblocks [simp]: "length (hblocks hb) = hcount hb"
  by (simp add: hblocks_def)

lemma read_head_ok:
  assumes "bio_inv s" "busy s = {}" "dirty s = {}" "log_geom s" "hcount (dsk s (hdkey s)) \<le> LOGSIZE"
    and "length (lh_block s) = LOGSIZE"
  defines "hb \<equiv> dsk s (hdkey s)"
  shows "ok (read_head s) (\<lambda>_ s'. wrote [] s s' \<and> lh_n s' = head_n hb \<and> length (lh_block s') = LOGSIZE \<and>
     take (hcount hb) (lh_block s') = hblocks hb \<and>
     bio_frame (s\<lparr>lh_n := lh_n s', lh_block := lh_block s'\<rparr>) s')"
proof -
  have "bavail s (hdkey s)" using assms by (intro bavailI) (auto simp: NBUF_def)
  then have "ok (bread (log_dev s) (log_start s) s) (bread_post (hdkey s) s)"
    using assms hdkey_accept [OF assms(4)] by (unfold hdkey_def) (intro bread_ok, auto)
  then show ?thesis
    unfolding read_head_def ok_bindk
  proof (rule ok_mono)
    fix b s1 assume r: "bread_post (hdkey s) s b s1"
    then have r1: "bio_inv s1" "held s1 b (hdkey s)" "busy s1 = {b}" "dirty s1 = {}" "bio_frame s s1"
      "bdata s1 b = hb" "bview s1 = bview s" "disk s1 = disk s" "disk_log s1 = disk_log s"
      using assms(2,3) bview_quiet [OF assms(1-3)] by (auto simp: bread_post_def hb_def)
    note f = log_frame [OF r1(5)]
    have n: "nat (sint (head_n hb)) = hcount hb"
      using assms(5) sint_of_nat_small [of "unat (head_n hb)"] by (simp add: hcount_def hb_def LOGSIZE_def)
    let ?bs = "map (\<lambda>i. if i < hcount hb then head_block hb i else lh_block s1 ! i) [0..<LOGSIZE]"
    let ?s1 = "s1\<lparr>lh_n := head_n hb, lh_block := ?bs\<rparr>"
    have dsk1: "dsk ?s1 = dsk s" using dsk_cong [OF r1(8)] by simp
    have "bdata ?s1 b = dsk ?s1 (hdkey s)" using r1(6) dsk1 by (simp add: hb_def)
    then have rel: "ok (brelse b ?s1) (\<lambda>_ s'. bio_inv s' \<and> bview s' = bview ?s1 \<and> disk s' = disk ?s1 \<and>
        disk_log s' = disk_log ?s1 \<and> busy s' = busy ?s1 - {b} \<and> dirty s' = dirty ?s1 \<and>
        (\<forall>j. j \<noteq> b \<longrightarrow> bufs s' ! j = bufs ?s1 ! j) \<and> bio_frame ?s1 s')"
      using r1(1,2) by (intro brelse_ok) auto
    have frame: "bio_frame (s\<lparr>lh_n := head_n hb, lh_block := ?bs\<rparr>) ?s1"
      using r1(5) by (cases s; cases s1; simp add: bio_frame_def)
    have bs: "take (hcount hb) ?bs = hblocks hb"
      using assms(5) by (auto simp: hblocks_def hb_def take_map intro!: nth_equalityI)
    have "ok (brelse b ?s1) (\<lambda>_ s'. wrote [] s s' \<and> lh_n s' = head_n hb \<and> length (lh_block s') = LOGSIZE \<and>
     take (hcount hb) (lh_block s') = hblocks hb \<and>
     bio_frame (s\<lparr>lh_n := lh_n s', lh_block := lh_block s'\<rparr>) s')"
    proof (rule ok_mono [OF rel], elim conjE)
      fix u s'
      assume v: "bio_inv s'" "bview s' = bview ?s1" "disk s' = disk ?s1" "disk_log s' = disk_log ?s1"
        "busy s' = busy ?s1 - {b}" "dirty s' = dirty ?s1" "bio_frame ?s1 s'"
      note g = log_frame [OF v(7)]
      have "wrote [] s s'"
        using v r1 assms(3) dsk1 dsk_cong [OF v(3)] by (simp add: wrote_def)
      moreover have "bio_frame (s\<lparr>lh_n := lh_n s', lh_block := lh_block s'\<rparr>) s'"
        using bio_frame_trans [OF frame v(7)] by (simp add: g)
      ultimately show "wrote [] s s' \<and> lh_n s' = head_n hb \<and> length (lh_block s') = LOGSIZE \<and>
         take (hcount hb) (lh_block s') = hblocks hb \<and>
         bio_frame (s\<lparr>lh_n := lh_n s', lh_block := lh_block s'\<rparr>) s'"
        using bs by (simp add: g)
    qed
    then show "ok (let d = bdata s1 b; n = nat (sint (head_n d))
       in if LOGSIZE < n then undef
          else brelse b (s1\<lparr>lh_n := head_n d,
                 lh_block := map (\<lambda>i. if i < n then head_block d i else lh_block s1 ! i) [0..<LOGSIZE]\<rparr>))
      (\<lambda>_ s'. wrote [] s s' \<and> lh_n s' = head_n hb \<and> length (lh_block s') = LOGSIZE \<and>
     take (hcount hb) (lh_block s') = hblocks hb \<and>
     bio_frame (s\<lparr>lh_n := lh_n s', lh_block := lh_block s'\<rparr>) s')"
      using assms(5) by (simp add: r1(6) n Let_def hb_def [symmetric])
  qed
qed

definition recover_writes :: "'a log_state_scheme \<Rightarrow> (bkey \<Rightarrow> uchar list) \<Rightarrow> (bkey \<times> uchar list) list" where
  "recover_writes s D =
     (let hb = D (hdkey s)
      in map (\<lambda>i. ((log_dev s, hblocks hb ! i), D (lkey s i))) [0..<hcount hb] @ [(hdkey s, put32 0 0 hb)])"

text \<open>The machine after a boot: an empty cache, the log located but not yet read.\<close>

definition booted :: "'a log_state_scheme \<Rightarrow> bool" where
  "booted s \<longleftrightarrow> bio_inv s \<and> busy s = {} \<and> dirty s = {} \<and> log_geom s \<and> length (lh_block s) = LOGSIZE"

lemma geom_log_block [simp]:
  "log_geom (s\<lparr>lh_block := bs\<rparr>) = log_geom s" "lkey (s\<lparr>lh_block := bs\<rparr>) = lkey s"
  "hdkey (s\<lparr>lh_block := bs\<rparr>) = hdkey s" "home_ok (s\<lparr>lh_block := bs\<rparr>) = home_ok s"
  "home_ok (s\<lparr>lh_n := x\<rparr>) = home_ok s" "in_log (s\<lparr>lh_block := bs\<rparr>) = in_log s" "in_log (s\<lparr>lh_n := x\<rparr>) = in_log s"
  by (simp_all add: log_geom_def lkey_def hdkey_def home_ok_def in_log_def fun_eq_iff)

lemma recover_ok:
  assumes "booted s" "log_wf s (dsk s)"
  shows "ok (recover_from_log s) (\<lambda>_ s'. wrote (recover_writes s (dsk s)) s s' \<and>
     bio_frame (s\<lparr>lh_n := 0, lh_block := lh_block s'\<rparr>) s' \<and> length (lh_block s') = LOGSIZE)"
proof -
  have a: "bio_inv s" "busy s = {}" "dirty s = {}" "log_geom s" "length (lh_block s) = LOGSIZE"
    using assms(1) by (auto simp: booted_def)
  let ?hb = "dsk s (hdkey s)"
  let ?n = "hcount ?hb"
  have n: "?n < LOGSIZE" "home_ok s (hblocks ?hb)" using assms(2) by (auto simp: log_wf_def home_ok_def)
  have quiet: "bview s = dsk s" using a by (intro bview_quiet) auto
  let ?C = "map (\<lambda>i. ((log_dev s, hblocks ?hb ! i), dsk s (lkey s i))) [0..<?n]"
  have 1: "ok (read_head s) (\<lambda>_ s'. wrote [] s s' \<and> lh_n s' = head_n ?hb \<and> length (lh_block s') = LOGSIZE \<and>
     take ?n (lh_block s') = hblocks ?hb \<and> bio_frame (s\<lparr>lh_n := lh_n s', lh_block := lh_block s'\<rparr>) s')"
    using a n(1) by (intro read_head_ok) auto
  have 2: "ok (install_trans s1) (\<lambda>_ s2. wrote ?C s s2 \<and> length (lh_block s2) = LOGSIZE \<and>
      bio_frame (s\<lparr>lh_n := lh_n s2, lh_block := lh_block s2\<rparr>) s2)"
    if w: "wrote [] s s1" "lh_n s1 = head_n ?hb" "length (lh_block s1) = LOGSIZE" "take ?n (lh_block s1) = hblocks ?hb"
      and f: "bio_frame (s\<lparr>lh_n := lh_n s1, lh_block := lh_block s1\<rparr>) s1" for s1
  proof -
    note g = log_frame_geom [OF f] log_frame(1,5) [OF f] hdkey_frame [OF f]
    have hdr: "hdr_ok s1 ?n" using w n g by (simp add: hdr_ok_def hcount_def)
    have nth: "lh_block s1 ! i = hblocks ?hb ! i" if "i < ?n" for i using w(4) that by (metis nth_take)
    have eq: "map (\<lambda>i. (hkey s1 i, bview s1 (lkey s1 i))) [0..<?n] = ?C"
      using nth w(1) quiet by (simp add: g hkey_def wrote_def)
    have "nat (sint (lh_n s1)) = ?n"
      using w(2) sint_of_nat_small [of ?n] n(1) by (simp add: hcount_def LOGSIZE_def)
    moreover have "ok (install_trans_loop [0..<?n] s1) (\<lambda>_ s2. wrote ?C s1 s2 \<and> bio_frame s1 s2)"
      unfolding eq [symmetric] using w(1) a hdr
      by (intro install_trans_loop_ok [where n = ?n]) (auto simp: wrote_def g NBUF_def)
    ultimately have "ok (install_trans s1) (\<lambda>_ s2. wrote ?C s1 s2 \<and> bio_frame s1 s2)"
      by (simp add: install_trans_def)
    then show ?thesis
    proof (rule ok_mono, elim conjE)
      fix u s2 assume v: "wrote ?C s1 s2" "bio_frame s1 s2"
      note h = log_frame [OF v(2)]
      show "wrote ?C s s2 \<and> length (lh_block s2) = LOGSIZE \<and>
          bio_frame (s\<lparr>lh_n := lh_n s2, lh_block := lh_block s2\<rparr>) s2"
        using wrote_trans [OF w(1) v(1)] bio_frame_trans [OF f v(2)] w(3) by (simp add: h)
    qed
  qed
  have 3: "ok (write_head (s2\<lparr>lh_n := 0\<rparr>)) (\<lambda>_ s'. wrote (recover_writes s (dsk s)) s s' \<and>
     bio_frame (s\<lparr>lh_n := 0, lh_block := lh_block s'\<rparr>) s' \<and> length (lh_block s') = LOGSIZE)"
    if w: "wrote ?C s s2" "length (lh_block s2) = LOGSIZE"
      and f: "bio_frame (s\<lparr>lh_n := lh_n s2, lh_block := lh_block s2\<rparr>) s2" for s2
  proof -
    let ?t = "s2\<lparr>lh_n := 0\<rparr>"
    note g = log_frame_geom [OF f] log_frame(1,5) [OF f] hdkey_frame [OF f]
    have "\<not> in_log s (hblocks ?hb ! i)" if "i < ?n" for i
      using n(2) that by (auto simp: home_ok_def dest: nth_mem)
    then have "hdkey s \<notin> fst ` set ?C" by (fastforce simp: hdkey_def in_log_def LOGSIZE_def)
    then have v: "bview s2 (hdkey s) = ?hb" using w(1) fupds_other [of "hdkey s" ?C] quiet by (simp add: wrote_def)
    have "ok (write_head ?t) (\<lambda>_ s4. wrote [(hdkey ?t, head_of 0 ?t (bview ?t (hdkey ?t)))] ?t s4 \<and> bio_frame ?t s4)"
      using w a by (intro write_head_ok) (auto simp: wrote_def g NBUF_def)
    then have "ok (write_head ?t) (\<lambda>_ s4. wrote [(hdkey s, put32 0 0 ?hb)] s2 s4 \<and> bio_frame ?t s4)"
      by (simp add: g v head_of_def)
    then show ?thesis
    proof (rule ok_mono, elim conjE)
      fix u s4 assume x: "wrote [(hdkey s, put32 0 0 ?hb)] s2 s4" "bio_frame ?t s4"
      note h = log_frame [OF x(2)]
      have "bio_frame (s\<lparr>lh_n := 0, lh_block := lh_block s2\<rparr>) ?t"
        using bio_frame_lh_n [OF f, of 0] by (cases s; simp)
      from bio_frame_trans [OF this x(2)] show "wrote (recover_writes s (dsk s)) s s4 \<and>
         bio_frame (s\<lparr>lh_n := 0, lh_block := lh_block s4\<rparr>) s4 \<and> length (lh_block s4) = LOGSIZE"
        using wrote_trans [OF w(1) x(1)] w(2) by (simp add: h recover_writes_def Let_def)
    qed
  qed
  show ?thesis
    unfolding recover_from_log_def ok_bindk
    by (rule ok_mono [OF 1], elim conjE, rule ok_mono [OF 2], assumption+, elim conjE, rule 3, assumption+)
qed

section \<open>Every crash point\<close>

lemma hcount_clear: "length d = BSIZE \<Longrightarrow> hcount (put32 0 0 d) = 0"
  by (simp add: hcount_def head_n_def BSIZE_def)

lemma log_abs_empty: "hcount (D (hdkey s)) = 0 \<Longrightarrow> log_wf s D \<and> log_abs s D b = D (log_dev s, b)"
  by (simp add: log_wf_def log_abs_def home_ok_def hblocks_def LOGSIZE_def)

lemma log_abs_nth:
  assumes "log_wf s D" "i < hcount (D (hdkey s))"
  shows "log_abs s D (hblocks (D (hdkey s)) ! i) = D (lkey s i)"
proof -
  have "first_index (\<lambda>x. x = hblocks (D (hdkey s)) ! i) (hblocks (D (hdkey s))) = Some i"
    using assms by (intro first_index_eq) (auto simp: log_wf_def home_ok_def nth_eq_iff_index_eq)
  then show ?thesis by (simp add: log_abs_def)
qed

lemma log_abs_other: "b \<notin> set (hblocks (D (hdkey s))) \<Longrightarrow> log_abs s D b = D (log_dev s, b)"
  by (auto simp: log_abs_def dest!: first_index_Some split: option.split)

lemma log_abs_cong:
  assumes "D' (hdkey s) = D (hdkey s)" "\<And>i. i < hcount (D (hdkey s)) \<Longrightarrow> D' (lkey s i) = D (lkey s i)"
    and "b \<notin> set (hblocks (D (hdkey s))) \<Longrightarrow> D' (log_dev s, b) = D (log_dev s, b)"
  shows "log_abs s D' b = log_abs s D b"
proof (cases "first_index (\<lambda>x. x = b) (hblocks (D (hdkey s)))")
  case None
  then have "b \<notin> set (hblocks (D (hdkey s)))" by (auto simp: first_index_None)
  with None assms show ?thesis by (simp add: log_abs_def)
next
  case (Some i)
  then have "i < hcount (D (hdkey s))" using first_index_Some by fastforce
  with Some assms show ?thesis by (simp add: log_abs_def)
qed

lemma log_wf_cong: "D' (hdkey s) = D (hdkey s) \<Longrightarrow> log_wf s D' = log_wf s D"
  by (simp add: log_wf_def)

text \<open>The log keys are outside the home blocks.\<close>

lemma home_key_ne:
  assumes "log_geom s" "\<not> in_log s b"
  shows "(log_dev s, b) \<noteq> hdkey s" "Suc i < LOGSIZE \<Longrightarrow> (log_dev s, b) \<noteq> lkey s i"
  using assms lkey_in_log [OF assms(1), of i] by (auto simp: hdkey_def in_log_def LOGSIZE_def lkey_def)

lemma recovery_prefix:
  fixes k :: nat
  assumes geom: "log_geom s" and wf: "log_wf s D" and len: "length (D (hdkey s)) = BSIZE"
    and home: "\<not> in_log s b"
  defines "D' \<equiv> fupds D (take k (recover_writes s D))"
  shows "log_wf s D'" "log_abs s D' b = log_abs s D b"
    "length (recover_writes s D) \<le> k \<Longrightarrow> hcount (D' (hdkey s)) = 0"
proof -
  let ?hb = "D (hdkey s)"
  let ?n = "hcount ?hb"
  let ?C = "map (\<lambda>i. ((log_dev s, hblocks ?hb ! i), D (lkey s i))) [0..<?n]"
  have n: "?n < LOGSIZE" and dist: "distinct (hblocks ?hb)"
    and out: "\<And>i. i < ?n \<Longrightarrow> \<not> in_log s (hblocks ?hb ! i)"
    using wf by (auto simp: log_wf_def home_ok_def dest: nth_mem)
  have mem: "\<exists>i<?n. x = (log_dev s, hblocks ?hb ! i)" if "x \<in> fst ` set (take k ?C)" for x k
    using that by (auto dest!: in_set_takeD) blast
  have C: "hdkey s \<notin> fst ` set (take k ?C)" for k
    using home_key_ne(1) [OF geom out] mem [of "hdkey s" k] by metis
  have C2: "lkey s j \<notin> fst ` set (take k ?C)" if "j < ?n" for j k
  proof
    assume "lkey s j \<in> fst ` set (take k ?C)"
    then obtain i where "i < ?n" "lkey s j = (log_dev s, hblocks ?hb ! i)" using mem by blast
    with home_key_ne(2) [OF geom out, of i j] that n show False by simp
  qed
  have C': "(log_dev s, c) \<notin> fst ` set (take k ?C)" if "c \<notin> set (hblocks ?hb)" for c k
    using mem [of "(log_dev s, c)" k] that by (metis length_hblocks nth_mem prod.inject)
  have split: "take k (recover_writes s D) = (if k \<le> ?n then take k ?C else ?C @ [(hdkey s, put32 0 0 ?hb)])"
    by (simp add: recover_writes_def Let_def)
  show "length (recover_writes s D) \<le> k \<Longrightarrow> hcount (D' (hdkey s)) = 0"
    using len by (simp add: D'_def recover_writes_def Let_def hcount_clear)
  have "log_wf s D' \<and> log_abs s D' b = log_abs s D b"
  proof (cases "k \<le> ?n")
    case True
    then have D': "D' = fupds D (take k ?C)" by (simp add: D'_def split)
    have hd: "D' (hdkey s) = ?hb" using fupds_other [OF C] D' by simp
    have "log_abs s D' b = log_abs s D b"
    proof (rule log_abs_cong)
      show "D' (hdkey s) = D (hdkey s)" by (rule hd)
      show "D' (lkey s i) = D (lkey s i)" if "i < hcount (D (hdkey s))" for i
        unfolding D' by (rule fupds_other [OF C2 [OF that]])
      show "D' (log_dev s, b) = D (log_dev s, b)" if "b \<notin> set (hblocks (D (hdkey s)))"
        unfolding D' by (rule fupds_other [OF C' [OF that]])
    qed
    with hd wf show ?thesis by (simp add: log_wf_def)
  next
    case False
    then have D': "D' = (fupds D ?C)(hdkey s := put32 0 0 ?hb)" by (simp add: D'_def split)
    have e: "log_wf s D'" "log_abs s D' b = D' (log_dev s, b)"
      using log_abs_empty [of D' s b] len by (simp_all add: D' hcount_clear)
    have "D' (log_dev s, b) = fupds D ?C (log_dev s, b)" using home_key_ne(1) [OF geom home] by (simp add: D')
    also have "\<dots> = log_abs s D b"
    proof (cases "b \<in> set (hblocks ?hb)")
      case True
      then obtain i where i: "i < ?n" "b = hblocks ?hb ! i" by (auto simp: in_set_conv_nth)
      have "distinct (map (\<lambda>i. (log_dev s, hblocks ?hb ! i)) [0..<?n])"
        using dist by (auto simp: distinct_map inj_on_def nth_eq_iff_index_eq)
      from fupds_map [OF this, of i] i show ?thesis using log_abs_nth [OF wf i(1)] by simp
    next
      case False
      then show ?thesis using fupds_other [OF C' [of b "length ?C"]] log_abs_other [of b D s] by simp
    qed
    finally show ?thesis using e by simp
  qed
  then show "log_wf s D'" "log_abs s D' b = log_abs s D b" by simp_all
qed

lemma hblocks_head_of:
  assumes "n < LOGSIZE" "length d = BSIZE" "length (lh_block s) = LOGSIZE"
  shows "hcount (head_of n s d) = n" "hblocks (head_of n s d) = take n (lh_block s)"
proof -
  show c: "hcount (head_of n s d) = n"
    using assms head_put_head_blocks(1) [of n d] by (simp add: head_of_def hcount_def unat_of_nat LOGSIZE_def)
  have "head_block (head_of n s d) i = lh_block s ! i" if "i < n" for i
    unfolding head_of_def using assms that by (intro head_put_head_blocks(2)) (auto simp: BSIZE_def)
  then show "hblocks (head_of n s d) = take n (lh_block s)"
    using assms c by (intro nth_equalityI) (auto simp: hblocks_def)
qed

lemma commit_prefix:
  fixes k :: nat
  assumes txn: "txn_ok s n" and clean: "hcount (dsk s (hdkey s)) = 0" and home: "\<not> in_log s b"
  defines "D' \<equiv> fupds (dsk s) (take k (commit_writes s n))"
  shows "log_wf s D'" "log_abs s D' b = (if k \<le> n then dsk s (log_dev s, b) else bview s (log_dev s, b))"
proof -
  have a: "bio_inv s" "busy s = {}" "log_geom s" "hdr_ok s n" "dirty s = hkey s ` {..<n}"
    using txn by (auto simp: txn_ok_def)
  have n: "n < LOGSIZE" "length (lh_block s) = LOGSIZE" and ho: "home_ok s (take n (lh_block s))"
    using a(4) by (auto simp: hdr_ok_def)
  let ?A = "map (\<lambda>i. (lkey s i, bview s (hkey s i))) [0..<n]"
  let ?H = "head_of n s (bview s (hdkey s))"
  let ?C = "map (\<lambda>i. (hkey s i, bview s (hkey s i))) [0..<n]"
  let ?b = "(log_dev s, b)"
  have ws: "commit_writes s n = ?A @ [(hdkey s, ?H)] @ ?C @ [(hdkey s, head_of 0 s ?H)]"
    by (simp add: commit_writes_def Let_def)
  have lenH: "length (bview s (hdkey s)) = BSIZE"
    using length_bview [OF a(1)] a(3) by (auto simp: hdkey_def log_geom_def)
  note H = hblocks_head_of [OF n(1) lenH n(2)]
  have H0: "hcount (head_of 0 s ?H) = 0"
    using length_head_of [OF less_imp_le [OF n(1)] lenH, of s] by (simp add: head_of_def hcount_clear)
  have memA: "\<exists>i<n. x = lkey s i" if "x \<in> fst ` set (take j ?A)" for x j
    using that by (auto dest!: in_set_takeD) blast
  have memC: "\<exists>i<n. x = hkey s i" if "x \<in> fst ` set (take j ?C)" for x j
    using that by (auto dest!: in_set_takeD) blast
  have bA: "?b \<notin> fst ` set (take j ?A)" for j
  proof
    assume "?b \<in> fst ` set (take j ?A)"
    then obtain i where "i < n" "?b = lkey s i" using memA by blast
    with home_key_ne(2) [OF a(3) home, of i] n(1) show False by simp
  qed
  have hdA: "hdkey s \<notin> fst ` set (take j ?A)" for j
  proof
    assume "hdkey s \<in> fst ` set (take j ?A)"
    then obtain i where "i < n" "hdkey s = lkey s i" using memA by blast
    with hdkey_ne_lkey [OF a(3), of i] n(1) show False by simp
  qed
  have hdC: "hdkey s \<notin> fst ` set (take j ?C)" for j
  proof
    assume "hdkey s \<in> fst ` set (take j ?C)"
    then obtain i where "i < n" "hdkey s = hkey s i" using memC by blast
    with hdkey_ne_hkey [OF a(3,4), of i] show False by simp
  qed
  have lC: "lkey s i \<notin> fst ` set (take j ?C)" if "i < n" for i j
  proof
    assume "lkey s i \<in> fst ` set (take j ?C)"
    then obtain l where "l < n" "lkey s i = hkey s l" using memC by blast
    with hkey_ne_lkey [OF a(3,4) _ that, of l] show False by simp
  qed
  have dA: "distinct (map (lkey s) [0..<n])"
    using lkey_inj [OF a(3)] n(1) by (auto simp: distinct_map inj_on_def)
  have dC: "distinct (map (hkey s) [0..<n])"
    using hkey_inj [OF a(4)] by (auto simp: distinct_map inj_on_def)
  have same: "bview s ?b = dsk s ?b" if "b \<notin> set (take n (lh_block s))"
  proof -
    have "hkey s i \<noteq> ?b" if "i < n" for i
      using \<open>b \<notin> _\<close> that n by (auto simp: hkey_def in_set_conv_nth)
    then have "?b \<notin> dirty s" unfolding a(5) by (metis imageE lessThan_iff)
    with clean_sync [OF a(1,2)] show ?thesis by blast
  qed
  consider "k \<le> n" | "n < k" "k \<le> 2 * n + 1" | "2 * n + 1 < k" by linarith
  then have "log_wf s D' \<and> log_abs s D' b = (if k \<le> n then dsk s ?b else bview s ?b)"
  proof cases
    case 1
    then have D': "D' = fupds (dsk s) (take k ?A)" by (simp add: D'_def ws)
    have "D' (hdkey s) = dsk s (hdkey s)" "D' ?b = dsk s ?b"
      unfolding D' by (rule fupds_other [OF hdA], rule fupds_other [OF bA])
    with 1 clean log_abs_empty [of D' s b] show ?thesis by simp
  next
    case 2
    then have "take k (commit_writes s n) = ?A @ [(hdkey s, ?H)] @ take (k - n - 1) ?C"
      by (simp add: ws take_Cons')
    then have D': "D' = fupds ((fupds (dsk s) ?A)(hdkey s := ?H)) (take (k - n - 1) ?C)" by (simp add: D'_def)
    have hd: "D' (hdkey s) = ?H" unfolding D' fupds_other [OF hdC] by simp
    have lk: "D' (lkey s i) = bview s (hkey s i)" if "i < n" for i
      unfolding D' fupds_other [OF lC [OF that]]
      using hdkey_ne_lkey [OF a(3), of i] that n(1) fupds_map [OF dA, of i] by simp
    have wf: "log_wf s D'" using ho by (simp add: log_wf_def hd H)
    have "log_abs s D' b = bview s ?b"
    proof (cases "b \<in> set (take n (lh_block s))")
      case True
      then obtain i where i: "i < n" "b = lh_block s ! i" using n by (auto simp: in_set_conv_nth)
      with log_abs_nth [OF wf, of i] lk show ?thesis by (simp add: hd H hkey_def)
    next
      case False
      then have "?b \<notin> fst ` set (take (k - n - 1) ?C)"
        using memC [of ?b "k - n - 1"] n by (fastforce simp: hkey_def in_set_conv_nth)
      then have "D' ?b = dsk s ?b"
        unfolding D' using fupds_other fupds_other [OF bA [of n]] home_key_ne(1) [OF a(3) home] by (simp add: fupds_other)
      then show ?thesis using log_abs_other [of b D' s] False same by (simp add: hd H)
    qed
    with wf 2 show ?thesis by simp
  next
    case 3
    then have "take k (commit_writes s n) = commit_writes s n" by (simp add: ws)
    then have D': "D' = (fupds ((fupds (dsk s) ?A)(hdkey s := ?H)) ?C)(hdkey s := head_of 0 s ?H)"
      by (simp add: D'_def ws)
    have e: "log_wf s D'" "log_abs s D' b = D' ?b" using log_abs_empty [of D' s b] H0 by (simp_all add: D')
    have "D' ?b = bview s ?b"
    proof (cases "b \<in> set (take n (lh_block s))")
      case True
      then obtain i where i: "i < n" "b = lh_block s ! i" using n by (auto simp: in_set_conv_nth)
      with fupds_map [OF dC, of i] home_key_ne(1) [OF a(3) home] show ?thesis by (simp add: D' hkey_def)
    next
      case False
      then have "?b \<notin> fst ` set (take n ?C)"
        using memC [of ?b n] n by (fastforce simp: hkey_def in_set_conv_nth)
      then have "?b \<notin> fst ` set ?C" by simp
      then show ?thesis
        unfolding D' using fupds_other [OF bA [of n]] home_key_ne(1) [OF a(3) home] same [OF False] by (simp add: fupds_other)
    qed
    with e 3 show ?thesis by simp
  qed
  then show "log_wf s D'" "log_abs s D' b = (if k \<le> n then dsk s ?b else bview s ?b)" by simp_all
qed

end
