(* ===== verification/Txn.thy ===== *)
theory Txn
  imports Log
begin

text \<open>
  Transactions as their users see them: \<open>begin_op\<close>, any number of \<open>bread\<close>, change, \<open>log_write\<close>,
  \<open>brelse\<close>, then \<open>end_op\<close>. \<open>txn_open\<close> is the invariant that holds in between: the blocks in the log
  header are exactly the dirty blocks of the cache, each named once. \<open>log_run\<close> is such a sequence of changes; it shows where the log is full.
\<close>

type_synonym drives = "bool \<Rightarrow> uint \<Rightarrow> uchar list"

section \<open>Frame of an operation inside a transaction\<close>

definition lframe :: "'a log_state_scheme \<Rightarrow> 'a log_state_scheme \<Rightarrow> bool" where
  "lframe s s' \<longleftrightarrow> kmem_mem s' = kmem_mem s \<and> kmem_freelist s' = kmem_freelist s \<and>
     kmem_use_lock s' = kmem_use_lock s \<and> kend s' = kend s \<and> nextpid s' = nextpid s \<and>
     initproc s' = initproc s \<and> cur s' = cur s \<and> forkret_addr s' = forkret_addr s \<and>
     trapret_addr s' = trapret_addr s \<and> havedisk1 s' = havedisk1 s \<and> ide_status s' = ide_status s \<and>
     procs_woken (procs s) (procs s') \<and> log_start s' = log_start s \<and> log_size s' = log_size s \<and>
     log_dev s' = log_dev s \<and> log_outstanding s' = log_outstanding s \<and> log_committing s' = log_committing s \<and>
     log_state.more s' = log_state.more s"

lemma lframe_refl [simp]: "lframe s s"
  by (simp add: lframe_def)

lemma lframe_trans: "lframe s t \<Longrightarrow> lframe t u \<Longrightarrow> lframe s u"
  by (auto simp: lframe_def elim: procs_woken_trans)

lemma bio_frame_lframe: "bio_frame s s' \<Longrightarrow> lframe s s'"
  using log_frame [of s s'] by (simp add: lframe_def bio_frame_def)

lemma lframe_geom:
  assumes "lframe s s'"
  shows "log_geom s' = log_geom s" "in_log s' = in_log s" "hdkey s' = hdkey s" "lkey s' = lkey s"
    "baccept s' = baccept s" "home_ok s' = home_ok s"
  using assms by (simp_all add: lframe_def log_geom_def in_log_def hdkey_def lkey_def baccept_def home_ok_def fun_eq_iff)

section \<open>Open transactions\<close>

definition txn_open :: "'a log_state_scheme \<Rightarrow> nat \<Rightarrow> bool" where
  "txn_open s n \<longleftrightarrow> bio_inv s \<and> log_geom s \<and> hdr_ok s n \<and> dirty s = hkey s ` {..<n}"

lemma txn_ok_open: "txn_ok s n \<longleftrightarrow> txn_open s n \<and> busy s = {}"
  by (auto simp: txn_ok_def txn_open_def)

lemma txn_open_card: "txn_open s n \<Longrightarrow> card (dirty s) = n"
  by (simp add: txn_open_def card_hkeys)

lemma txn_open_frame:
  assumes "txn_open s n" "bio_frame s s'" "bio_inv s'" "dirty s' = dirty s" shows "txn_open s' n"
  using assms log_frame_geom [OF assms(2)] by (simp add: txn_open_def)

lemma hkey_mem_dirty:
  assumes "txn_open s n" "k \<in> dirty s" shows "fst k = log_dev s" "\<not> in_log s (snd k)"
  using assms hkey_facts(2) [of s n] by (auto simp: txn_open_def)

text \<open>The position \<open>log_write\<close> chooses for a block.\<close>

lemma log_slot:
  assumes opn: "txn_open s n" and k: "fst k = log_dev s"
  shows "(k \<in> dirty s \<longrightarrow> (\<exists>i<n. first_index (\<lambda>x. x = snd k) (take n (lh_block s)) = Some i \<and> lh_block s ! i = snd k)) \<and>
         (k \<notin> dirty s \<longrightarrow> first_index (\<lambda>x. x = snd k) (take n (lh_block s)) = None)"
proof -
  have len: "n < LOGSIZE" "length (lh_block s) = LOGSIZE" using opn by (auto simp: txn_open_def hdr_ok_def)
  have iff: "k \<in> dirty s \<longleftrightarrow> (\<exists>i<n. lh_block s ! i = snd k)"
    using opn k by (auto simp: txn_open_def hkey_def prod_eq_iff image_iff) (metis lessThan_iff)
  show ?thesis
  proof (intro conjI impI)
    assume "k \<in> dirty s"
    then obtain j where "j < n" "lh_block s ! j = snd k" using iff by blast
    then obtain i where "first_index (\<lambda>x. x = snd k) (take n (lh_block s)) = Some i"
      using first_index_exists [of j "take n (lh_block s)" "\<lambda>x. x = snd k"] len by auto
    then show "\<exists>i<n. first_index (\<lambda>x. x = snd k) (take n (lh_block s)) = Some i \<and> lh_block s ! i = snd k"
      using first_index_Some [of "\<lambda>x. x = snd k" "take n (lh_block s)" i] len by auto
  next
    assume "k \<notin> dirty s"
    then show "first_index (\<lambda>x. x = snd k) (take n (lh_block s)) = None"
      using iff len by (auto simp: first_index_None in_set_conv_nth)
  qed
qed

definition log_write_post :: "nat \<Rightarrow> bkey \<Rightarrow> nat \<Rightarrow> 'a log_state_scheme \<Rightarrow> 'a log_state_scheme \<Rightarrow> bool" where
  "log_write_post i k n s s' \<longleftrightarrow> txn_open s' (if k \<in> dirty s then n else Suc n) \<and> held s' i k \<and>
     bdata s' i = bdata s i \<and> bview s' = bview s \<and> busy s' = busy s \<and> dirty s' = insert k (dirty s) \<and>
     disk s' = disk s \<and> disk_log s' = disk_log s \<and> (\<forall>j. j \<noteq> i \<longrightarrow> bufs s' ! j = bufs s ! j) \<and> lframe s s'"

lemma log_write_ok:
  assumes opn: "txn_open s n" and h: "held s i k" and k: "fst k = log_dev s" "\<not> in_log s (snd k)"
    and room: "int n + 1 < sint (log_size s)" "sint (log_size s) \<le> int LOGSIZE" and out: "1 \<le> sint (log_outstanding s)"
  shows "ok (log_write i s) (\<lambda>_. log_write_post i k n s)"
proof -
  have inv: "bio_inv s" "log_geom s" "hdr_ok s n" "dirty s = hkey s ` {..<n}" using opn by (auto simp: txn_open_def)
  have len: "n < LOGSIZE" "length (lh_block s) = LOGSIZE" "lh_n s = of_nat n" using inv(3) by (auto simp: hdr_ok_def)
  have n1: "Suc n < LOGSIZE" using room by linarith
  have sn: "sint (of_nat n :: 32 word) = int n" using len(1) by (intro sint_of_nat_small) (simp add: LOGSIZE_def)
  have bno: "b_blockno (bufs s ! i) = snd k" using h by (auto simp: held_def bkey_def)
  have acc: "unat (snd k) < 4000"
    using buf_okD(3,4) [OF inv(1), of i] h by (auto simp: held_def baccept_def word_less_nat_alt)
  have guards: "\<not> (int LOGSIZE \<le> sint (lh_n s) \<or> sint (log_size s) - 1 \<le> sint (lh_n s))" "\<not> sint (log_outstanding s) < 1"
    using room out n1 by (auto simp: len(3) sn)
  note md = mark_dirty_ok [OF inv(1) h]
  let ?m = "\<lambda>s. upd_buf i (\<lambda>f. f\<lparr>b_dirty := True\<rparr>) s"
  show ?thesis
  proof (cases "k \<in> dirty s")
    case True
    then obtain j where j: "j < n" "first_index (\<lambda>x. x = snd k) (take n (lh_block s)) = Some j" "lh_block s ! j = snd k"
      using log_slot [OF opn k(1)] by blast
    have same: "(lh_block s)[j := snd k] = lh_block s" using j(3) by (metis list_update_id)
    have e: "log_write i s = Ok () (?m s)"
      using guards j len sn by (simp add: log_write_def bno Let_def same)
    have "dirty (?m s) = dirty s" using md(6) True by (simp add: insert_absorb)
    moreover from this have "txn_open (?m s) n" using txn_open_frame [OF opn md(7) md(1)] by simp
    ultimately show ?thesis
      using e md True bio_frame_lframe [OF md(7)] by (simp add: log_write_post_def insert_absorb)
  next
    case False
    then have none: "first_index (\<lambda>x. x = snd k) (take n (lh_block s)) = None"
      using log_slot [OF opn k(1)] by blast
    let ?s1 = "s\<lparr>lh_block := (lh_block s)[n := snd k], lh_n := of_nat n + 1\<rparr>"
    have e: "log_write i s = Ok () (?m ?s1)"
      using guards none len sn by (simp add: log_write_def bno Let_def)
    have h1: "held ?s1 i k" "bio_inv ?s1" using h inv(1) by simp_all
    note md1 = mark_dirty_ok [OF h1(2,1)]
    have same: "lh_block (?m ?s1) = (lh_block s)[n := snd k]" "lh_n (?m ?s1) = of_nat (Suc n)" "log_dev (?m ?s1) = log_dev s"
      "log_start (?m ?s1) = log_start s"
      by (simp_all add: upd_buf_def len(3))
    have lf: "lframe s (?m ?s1)" by (simp add: lframe_def upd_buf_def)
    note g = lframe_geom [OF lf]
    have tk: "take (Suc n) ((lh_block s)[n := snd k]) = take n (lh_block s) @ [snd k]"
      using len by (simp add: take_Suc_conv_app_nth)
    have "snd k \<notin> set (take n (lh_block s))" using none by (auto simp: first_index_None)
    then have "home_ok s (take n (lh_block s) @ [snd k])"
      using inv(3) acc k(2) n1 len by (auto simp: hdr_ok_def home_ok_def)
    then have hdr: "hdr_ok (?m ?s1) (Suc n)" unfolding hdr_ok_def same g tk using n1 len(2) by simp
    have hk: "hkey (?m ?s1) j = (if j = n then k else hkey s j)" if "j < Suc n" for j
      using that k(1) len(1,2) by (auto simp: hkey_def same nth_list_update prod_eq_iff)
    have "dirty (?m ?s1) = insert k (dirty s)" using md1(6) by simp
    also have "\<dots> = hkey (?m ?s1) ` {..<Suc n}"
      unfolding inv(4) using hk by (auto simp: lessThan_Suc image_iff) 
    finally have "txn_open (?m ?s1) (Suc n)" using md1(1) hdr inv(2) by (simp add: txn_open_def g)
    moreover have "disk (?m ?s1) = disk s" "disk_log (?m ?s1) = disk_log s" by simp_all
    moreover have "\<forall>j. j \<noteq> i \<longrightarrow> bufs (?m ?s1) ! j = bufs s ! j" using md1(8) by simp
    ultimately show ?thesis
      using e md1(2-6) False lf by (simp add: log_write_post_def)
  qed
qed

section \<open>One change inside a transaction\<close>

text \<open>The block may be logged: it is on the log's device and not part of the log.\<close>

definition loggable :: "'a log_state_scheme \<Rightarrow> bkey \<Rightarrow> bool" where
  "loggable s k \<longleftrightarrow> fst k = log_dev s \<and> \<not> in_log s (snd k) \<and> baccept s k"

lemma lframe_loggable: "lframe s t \<Longrightarrow> loggable t = loggable s"
  using lframe_geom [of s t] by (simp add: lframe_def loggable_def fun_eq_iff)

text \<open>There is room for \<open>m\<close> more blocks in the log and a call of \<open>begin_op\<close> is outstanding.\<close>

definition log_room :: "'a log_state_scheme \<Rightarrow> nat \<Rightarrow> nat \<Rightarrow> bool" where
  "log_room s n m \<longleftrightarrow> int n + int m < sint (log_size s) \<and> sint (log_size s) \<le> int LOGSIZE \<and>
     1 \<le> sint (log_outstanding s)"

lemma txn_bread:
  assumes "txn_open s n" "baccept s (dev, b)" "unlocked s (dev, b)" "(dev, b) \<in> dirty s \<or> card (busy s) + n < NBUF"
  shows "ok (bread dev b s) (\<lambda>i s'. bread_post (dev, b) s i s' \<and> txn_open s' n \<and> lframe s s')"
proof -
  have inv: "bio_inv s" using assms(1) by (simp add: txn_open_def)
  have "bavail s (dev, b)"
    using assms(4) txn_open_card [OF assms(1)] bavailI [OF inv] bavail_dirty by auto
  from bread_ok [OF inv assms(2,3) this] show ?thesis
    by (rule ok_mono) (use assms(1) in \<open>auto simp: bread_post_def intro: txn_open_frame bio_frame_lframe\<close>)
qed

definition modified :: "bkey \<Rightarrow> uchar list \<Rightarrow> nat \<Rightarrow> 'a log_state_scheme \<Rightarrow> 'a log_state_scheme \<Rightarrow> bool" where
  "modified k d n s s' \<longleftrightarrow> txn_open s' (if k \<in> dirty s then n else Suc n) \<and> bview s' = (bview s)(k := d) \<and>
     dirty s' = insert k (dirty s) \<and> disk s' = disk s \<and> disk_log s' = disk_log s \<and> lframe s s'"

lemma txn_modify:
  assumes opn: "txn_open s n" and h: "held s i k" and k: "loggable s k" and room: "log_room s n 1"
    and d: "length d = BSIZE"
  shows "ok (log_write i (bstore i d s)) (\<lambda>_ s'. modified k d n s s' \<and> held s' i k \<and> busy s' = busy s \<and>
     bdata s' i = d \<and> (\<forall>j. j \<noteq> i \<longrightarrow> bufs s' ! j = bufs s ! j))"
proof -
  have inv: "bio_inv s" using opn by (simp add: txn_open_def)
  note st = bstore_ok [OF inv h d]
  have opn1: "txn_open (bstore i d s) n" by (rule txn_open_frame [OF opn st(7,1,6)])
  note lf = log_frame [OF st(7)]
  have "ok (log_write i (bstore i d s)) (\<lambda>_. log_write_post i k n (bstore i d s))"
    using k room log_frame_geom(5) [OF st(7)]
    by (intro log_write_ok [OF opn1 st(2)]) (auto simp: loggable_def log_room_def lf)
  then show ?thesis
    by (rule ok_mono)
      (use st bio_frame_lframe [OF st(7)] in \<open>auto simp: log_write_post_def modified_def elim: lframe_trans\<close>)
qed

lemma txn_brelse:
  assumes opn: "txn_open s n" and h: "held s i k" and sync: "k \<in> dirty s \<or> bdata s i = dsk s k"
  shows "ok (brelse i s) (\<lambda>_ s'. txn_open s' n \<and> bview s' = bview s \<and> busy s' = busy s - {i} \<and> dirty s' = dirty s \<and>
     disk s' = disk s \<and> disk_log s' = disk_log s \<and> (\<forall>j. j \<noteq> i \<longrightarrow> bufs s' ! j = bufs s ! j) \<and> lframe s s')"
proof -
  have inv: "bio_inv s" using opn by (simp add: txn_open_def)
  show ?thesis
    by (rule ok_mono [OF brelse_ok [OF inv h sync]])
      (use opn in \<open>auto intro: txn_open_frame bio_frame_lframe\<close>)
qed

text \<open>Reading a block without changing it.\<close>

lemma txn_read:
  assumes opn: "txn_open s n" and b: "baccept s (dev, b)" "unlocked s (dev, b)" "(dev, b) \<in> dirty s \<or> card (busy s) + n < NBUF"
  shows "ok (bread dev b s) (\<lambda>i s1. bdata s1 i = bview s (dev, b) \<and> lframe s s1 \<and> ok (brelse i s1) (\<lambda>_ s'.
     txn_open s' n \<and> bview s' = bview s \<and> busy s' = busy s \<and> dirty s' = dirty s \<and> disk s' = disk s \<and>
     disk_log s' = disk_log s \<and> (\<forall>j\<in>busy s. bufs s' ! j = bufs s ! j) \<and> lframe s s'))"
proof (rule ok_mono [OF txn_bread [OF opn b]], elim conjE)
  fix i s1 assume r: "bread_post (dev, b) s i s1" and o1: "txn_open s1 n" and l1: "lframe s s1"
  have r1: "held s1 i (dev, b)" "bdata s1 i = bview s (dev, b)" "bview s1 = bview s" "disk s1 = disk s"
    "disk_log s1 = disk_log s" "i \<notin> busy s" "busy s1 = insert i (busy s)" "dirty s1 = dirty s"
    "\<forall>j\<in>busy s. bufs s1 ! j = bufs s ! j"
    using r by (auto simp: bread_post_def)
  have inv: "bio_inv s" using opn by (simp add: txn_open_def)
  have "(dev, b) \<in> dirty s \<or> bview s (dev, b) = dsk s (dev, b)"
    using bview_clean [OF inv, of "(dev, b)"] b(2) by (auto simp: dirty_iff unlocked_def busy_def)
  then have sync: "(dev, b) \<in> dirty s1 \<or> bdata s1 i = dsk s1 (dev, b)"
    using r1(2,8) dsk_cong [OF r1(4)] by simp
  have "ok (brelse i s1) (\<lambda>_ s'. txn_open s' n \<and> bview s' = bview s \<and> busy s' = busy s \<and> dirty s' = dirty s \<and>
     disk s' = disk s \<and> disk_log s' = disk_log s \<and> (\<forall>j\<in>busy s. bufs s' ! j = bufs s ! j) \<and> lframe s s')"
  proof (rule ok_mono [OF txn_brelse [OF o1 r1(1) sync]], elim conjE, intro conjI)
    fix u s2 assume v: "\<forall>j. j \<noteq> i \<longrightarrow> bufs s2 ! j = bufs s1 ! j" "lframe s1 s2" "busy s2 = busy s1 - {i}"
    show "\<forall>j\<in>busy s. bufs s2 ! j = bufs s ! j" using v(1) r1(6,9) by metis
    show "lframe s s2" using l1 v(2) by (rule lframe_trans)
    show "busy s2 = busy s" using v(3) r1(6,7) by auto
  qed (use r1 in simp_all)
  with r1(2) l1 show "bdata s1 i = bview s (dev, b) \<and> lframe s s1 \<and> ok (brelse i s1) (\<lambda>_ s'. txn_open s' n \<and>
     bview s' = bview s \<and> busy s' = busy s \<and> dirty s' = dirty s \<and> disk s' = disk s \<and>
     disk_log s' = disk_log s \<and> (\<forall>j\<in>busy s. bufs s' ! j = bufs s ! j) \<and> lframe s s')" by simp
qed

text \<open>Reading a block and logging a change of it.\<close>

lemma txn_update:
  assumes opn: "txn_open s n" and k: "loggable s (dev, b)" "unlocked s (dev, b)" "(dev, b) \<in> dirty s \<or> card (busy s) + n < NBUF"
    and room: "log_room s n 1" and f: "length (f (bview s (dev, b))) = BSIZE"
  shows "ok (bread dev b s) (\<lambda>i s1. bdata s1 i = bview s (dev, b) \<and> lframe s s1 \<and>
     ok (log_write i (bstore i (f (bdata s1 i)) s1)) (\<lambda>_ s2. ok (brelse i s2) (\<lambda>_ s'.
       modified (dev, b) (f (bview s (dev, b))) n s s' \<and> busy s' = busy s \<and> (\<forall>j\<in>busy s. bufs s' ! j = bufs s ! j))))"
proof -
  have acc: "baccept s (dev, b)" using k(1) unfolding loggable_def by blast
  show ?thesis
  proof (rule ok_mono [OF txn_bread [OF opn acc k(2,3)]], elim conjE)
    fix i s1 assume r: "bread_post (dev, b) s i s1" and o1: "txn_open s1 n" and l1: "lframe s s1"
    have r1: "held s1 i (dev, b)" "bdata s1 i = bview s (dev, b)" "bview s1 = bview s" "disk s1 = disk s"
      "disk_log s1 = disk_log s" "i \<notin> busy s" "busy s1 = insert i (busy s)" "dirty s1 = dirty s"
      "\<forall>j\<in>busy s. bufs s1 ! j = bufs s ! j"
      using r by (auto simp: bread_post_def)
    have k1: "loggable s1 (dev, b)" "log_room s1 n 1"
      using k(1) room l1 lframe_geom [OF l1] by (auto simp: loggable_def log_room_def lframe_def)
    have "ok (log_write i (bstore i (f (bdata s1 i)) s1)) (\<lambda>_ s2. ok (brelse i s2) (\<lambda>_ s'.
       modified (dev, b) (f (bview s (dev, b))) n s s' \<and> busy s' = busy s \<and> (\<forall>j\<in>busy s. bufs s' ! j = bufs s ! j)))"
      unfolding r1(2)
    proof (rule ok_mono [OF txn_modify [OF o1 r1(1) k1 f]], elim conjE)
      fix u s2
      assume m: "modified (dev, b) (f (bview s (dev, b))) n s1 s2" "held s2 i (dev, b)" "busy s2 = busy s1"
        "\<forall>j. j \<noteq> i \<longrightarrow> bufs s2 ! j = bufs s1 ! j"
      have o2: "txn_open s2 (if (dev, b) \<in> dirty s1 then n else Suc n)" "(dev, b) \<in> dirty s2" "lframe s1 s2"
        using m(1) by (auto simp: modified_def)
      show "ok (brelse i s2) (\<lambda>_ s'. modified (dev, b) (f (bview s (dev, b))) n s s' \<and> busy s' = busy s \<and>
         (\<forall>j\<in>busy s. bufs s' ! j = bufs s ! j))"
      proof (rule ok_mono [OF txn_brelse [OF o2(1) m(2) disjI1 [OF o2(2)]]], elim conjE, intro conjI)
        fix u s3 assume v: "\<forall>j. j \<noteq> i \<longrightarrow> bufs s3 ! j = bufs s2 ! j" "lframe s2 s3" "busy s3 = busy s2 - {i}"
          "txn_open s3 (if (dev, b) \<in> dirty s1 then n else Suc n)" "bview s3 = bview s2" "dirty s3 = dirty s2"
          "disk s3 = disk s2" "disk_log s3 = disk_log s2"
        show "busy s3 = busy s" using v(3) m(3) r1(6,7) by auto
        show "\<forall>j\<in>busy s. bufs s3 ! j = bufs s ! j" using v(1) m(4) r1(6,9) by metis
        have "lframe s s3" using l1 o2(3) v(2) by (blast intro: lframe_trans)
        then show "modified (dev, b) (f (bview s (dev, b))) n s s3"
          using v(4-8) m(1) r1 by (simp add: modified_def)
      qed
    qed
    with r1(2) l1 show "bdata s1 i = bview s (dev, b) \<and> lframe s s1 \<and>
     ok (log_write i (bstore i (f (bdata s1 i)) s1)) (\<lambda>_ s2. ok (brelse i s2) (\<lambda>_ s'.
       modified (dev, b) (f (bview s (dev, b))) n s s' \<and> busy s' = busy s \<and> (\<forall>j\<in>busy s. bufs s' ! j = bufs s ! j)))" by simp
  qed
qed

section \<open>Beginning and ending a transaction\<close>

lemma begin_op_ok:
  assumes "\<not> log_committing s" "lh_n s = of_nat n" "log_outstanding s = of_nat m"
    and "n + (m + 1) * 10 \<le> LOGSIZE"
  shows "begin_op s = Ok () (s\<lparr>log_outstanding := of_nat (m + 1)\<rparr>)"
proof -
  have "lh_n s + (log_outstanding s + 1) * of_int MAXOPBLOCKS = of_nat (n + (m + 1) * 10)"
    by (simp add: assms MAXOPBLOCKS_def algebra_simps)
  moreover have "sint (of_nat (n + (m + 1) * 10) :: 32 word) = int (n + (m + 1) * 10)"
    using assms(4) by (intro sint_of_nat_small) (simp add: LOGSIZE_def)
  ultimately have "sint (lh_n s + (log_outstanding s + 1) * of_int MAXOPBLOCKS) = int (n + (m + 1) * 10)" by metis
  with assms show ?thesis by (simp add: begin_op_def add.commute)
qed

text \<open>A call that finds the log full, or being committed, goes to sleep and has reserved nothing.\<close>

lemma begin_op_full:
  assumes "log_committing s \<or> (lh_n s = of_nat n \<and> log_outstanding s = of_nat m \<and> LOGSIZE < n + (m + 1) * 10 \<and>
      n \<le> LOGSIZE \<and> m \<le> LOGSIZE)" "cur s = Some p"
  shows "begin_op s = sleep ChLog s"
proof (cases "log_committing s")
  case False
  with assms have a: "lh_n s = of_nat n" "log_outstanding s = of_nat m" "LOGSIZE < n + (m + 1) * 10" "n \<le> LOGSIZE" "m \<le> LOGSIZE"
    by auto
  have "lh_n s + (log_outstanding s + 1) * of_int MAXOPBLOCKS = of_nat (n + (m + 1) * 10)"
    by (simp add: a MAXOPBLOCKS_def algebra_simps)
  moreover have "sint (of_nat (n + (m + 1) * 10) :: 32 word) = int (n + (m + 1) * 10)"
    using a(4,5) by (intro sint_of_nat_small) (simp add: LOGSIZE_def)
  ultimately have "sint (lh_n s + (log_outstanding s + 1) * of_int MAXOPBLOCKS) = int (n + (m + 1) * 10)" by metis
  with False a(3) show ?thesis by (simp add: begin_op_def)
qed (simp add: begin_op_def)

text \<open>Changing the counters of the log changes nothing else.\<close>

lemma counters_irrelevant [simp]:
  "txn_ok (s\<lparr>log_outstanding := x\<rparr>) n = txn_ok s n" "txn_ok (s\<lparr>log_committing := c\<rparr>) n = txn_ok s n"
  "hdkey (s\<lparr>log_outstanding := x\<rparr>) = hdkey s" "hdkey (s\<lparr>log_committing := c\<rparr>) = hdkey s"
  "commit_writes (s\<lparr>log_outstanding := x\<rparr>) n = commit_writes s n"
  "commit_writes (s\<lparr>log_committing := c\<rparr>) n = commit_writes s n"
  by (simp_all add: txn_ok_def log_geom_def hdr_ok_def home_ok_def in_log_def hkey_def lkey_def hdkey_def
      commit_writes_def head_of_def)

lemma procs_irrelevant: "txn_ok (s\<lparr>procs := ps\<rparr>) n = txn_ok s n"
  by (simp add: txn_ok_def log_geom_def hdr_ok_def home_ok_def in_log_def hkey_def busy_def dirty_def bio_inv_def buf_ok_def
      baccept_def dsk_def ide_ready_def)

lemma wakeup_irrelevant [simp]:
  "wrote kvs s (wakeup c s') = wrote kvs s s'" "log_outstanding (wakeup c s) = log_outstanding (s :: 'a log_state_scheme)"
  "disk_log (wakeup c s) = disk_log (s :: 'a log_state_scheme)" "disk (wakeup c s) = disk (s :: 'a log_state_scheme)"
  "lh_n (wakeup c s) = lh_n (s :: 'a log_state_scheme)" "log_committing (wakeup c s) = log_committing (s :: 'a log_state_scheme)"
  by (simp_all add: wrote_def busy_def dirty_def dsk_def wakeup_def wakeup1_def fun_eq_iff
      bio_inv_irrelevant [unfolded wakeup_def wakeup1_def] bview_irrelevant [unfolded wakeup_def wakeup1_def])

text \<open>The last \<open>end_op\<close> commits.\<close>

lemma end_op_commits:
  assumes "txn_ok s n" "log_outstanding s = 1" "\<not> log_committing s"
  shows "\<exists>s'. end_op s = Ok () s' \<and> wrote (if n = 0 then [] else commit_writes s n) s s' \<and>
     lh_n s' = 0 \<and> log_outstanding s' = 0 \<and> \<not> log_committing s' \<and> procs_woken (procs s) (procs s')"
proof -
  let ?s = "s\<lparr>log_outstanding := 0, log_committing := True\<rparr>"
  have e: "end_op s = bindk (commit ?s) (\<lambda>_ s. Ok () (wakeup ChLog (s\<lparr>log_committing := False\<rparr>)))"
    using assms(2,3) by (simp add: end_op_def Let_def)
  show ?thesis
  proof (cases "n = 0")
    case True
    then have z: "lh_n s = 0" using assms(1) by (simp add: txn_ok_def hdr_ok_def)
    then have "end_op s = Ok () (wakeup ChLog (s\<lparr>log_outstanding := 0, log_committing := False\<rparr>))"
      by (simp add: e commit_def)
    moreover have "wrote [] s (s\<lparr>log_outstanding := 0, log_committing := False\<rparr>)"
      using assms(1) by (simp add: wrote_def txn_ok_def)
    moreover have "procs_woken (procs s) (procs (wakeup ChLog (s\<lparr>log_outstanding := 0, log_committing := False\<rparr>)))"
      using procs_woken_wakeup [of "s\<lparr>log_outstanding := 0, log_committing := False\<rparr>" ChLog] by simp
    ultimately show ?thesis using True z by simp
  next
    case False
    have "txn_ok ?s n" using assms(1) by simp
    from commit_ok [OF this] False obtain s' where s': "commit ?s = Ok () s'" "wrote (commit_writes ?s n) ?s s'"
      "bio_frame (?s\<lparr>lh_n := 0\<rparr>) s'" by (auto elim!: okE)
    have w: "wrote (commit_writes s n) s s'" using s'(2) by (simp add: wrote_def)
    moreover have "wrote kvs s (s'\<lparr>log_committing := False\<rparr>) = wrote kvs s s'" for kvs by (simp add: wrote_def)
    moreover have "procs_woken (procs s) (procs (wakeup ChLog (s'\<lparr>log_committing := False\<rparr>)))"
      using procs_woken_wakeup [of "s'\<lparr>log_committing := False\<rparr>" ChLog] s'(3)
      by (auto simp: bio_frame_def elim: procs_woken_trans)
    ultimately show ?thesis using False e s'(1) log_frame [OF s'(3)] by simp
  qed
qed

section \<open>A log on a fresh disk\<close>

definition log_zero :: "drives \<Rightarrow> log_state" where
  "log_zero d = bio_state.extend (binit (bio_zero d))
     (log_state.fields 2 30 0 False 0 0 (replicate LOGSIZE 0))"

lemma extend_simps:
  "bufs (bio_state.extend r m) = bufs r" "lru (bio_state.extend r m) = lru r"
  "idequeue (bio_state.extend r m) = idequeue r" "disk (bio_state.extend r m) = disk r"
  "disk_log (bio_state.extend r m) = disk_log r" "ide_status (bio_state.extend r m) = ide_status r"
  "havedisk1 (bio_state.extend r m) = havedisk1 r" "bio_state.more (bio_state.extend r m) = m"
  "cur (bio_state.extend r m) = cur r"
  by (simp_all add: bio_state.defs)

lemma extend_bio:
  "bio_inv (bio_state.extend r m) = bio_inv r" "busy (bio_state.extend r m) = busy r"
  "dirty (bio_state.extend r m) = dirty r" "bview (bio_state.extend r m) = bview r" "dsk (bio_state.extend r m) = dsk r"
  by (simp_all add: bio_inv_def buf_ok_def baccept_def dsk_def ide_ready_def extend_simps busy_def dirty_def bview_def
      fun_eq_iff split: option.split)

lemma log_zero_fields [simp]:
  "log_start (log_zero d) = 2" "log_size (log_zero d) = 30" "log_outstanding (log_zero d) = 0"
  "log_committing (log_zero d) = False" "log_dev (log_zero d) = 0" "lh_n (log_zero d) = 0"
  "lh_block (log_zero d) = replicate LOGSIZE 0"
  by (simp_all add: log_zero_def bio_state.defs log_state.defs)

lemma log_zero_txn:
  assumes "\<And>a n. length (d a n) = BSIZE"
  shows "txn_ok (log_zero d) 0" "dsk (log_zero d) = dsk (bio_zero d)" "bview (log_zero d) = dsk (bio_zero d)"
    "busy (log_zero d) = {}" "dirty (log_zero d) = {}"
proof -
  note z = binit_bio_zero [of d, OF assms]
  show bd: "bview (log_zero d) = dsk (bio_zero d)" "busy (log_zero d) = {}" "dirty (log_zero d) = {}"
    using z by (simp_all add: log_zero_def extend_bio)
  show "dsk (log_zero d) = dsk (bio_zero d)"
    using z(5) by (simp add: log_zero_def extend_bio) (simp add: dsk_def fun_eq_iff bio_zero_def)
  have "bio_inv (log_zero d)" using z(1) by (simp add: log_zero_def extend_bio)
  then show "txn_ok (log_zero d) 0"
    using bd by (simp add: txn_ok_def log_geom_def hdr_ok_def home_ok_def LOGSIZE_def)
qed

text \<open>A transaction with one changed block, from a fresh disk.\<close>

lemma one_block_txn:
  assumes d: "\<And>a n. length (d a n) = BSIZE" and x: "length x = BSIZE"
  shows "ok (begin_op (log_zero d)) (\<lambda>_ s1. ok (bread 0 50 s1) (\<lambda>i s2. ok (log_write i (bstore i x s2)) (\<lambda>_ s3.
     ok (brelse i s3) (\<lambda>_ s. txn_ok s 1 \<and> log_outstanding s = 1 \<and> \<not> log_committing s \<and> log_dev s = 0 \<and>
       log_start s = 2 \<and> dsk s = dsk (bio_zero d) \<and> bview s = (dsk (bio_zero d))((0, 50) := x)))))"
proof -
  let ?s1 = "(log_zero d)\<lparr>log_outstanding := 1\<rparr>"
  note z = log_zero_txn [of d, OF d]
  have b: "begin_op (log_zero d) = Ok () ?s1"
    using begin_op_ok [of "log_zero d" 0 0] by (simp add: LOGSIZE_def)
  have o1: "txn_open ?s1 0" "busy ?s1 = {}" using z(1) txn_ok_open [of ?s1 0] by simp_all
  have k: "loggable ?s1 (0, 50)" "unlocked ?s1 (0, 50)" "log_room ?s1 0 1"
    using o1(2) by (simp_all add: loggable_def in_log_def LOGSIZE_def baccept_def log_room_def)
  have c: "card (busy ?s1) + 0 < NBUF" using o1(2) by (simp add: NBUF_def)
  have u: "ok (bread 0 50 ?s1) (\<lambda>i s1. bdata s1 i = bview ?s1 (0, 50) \<and> lframe ?s1 s1 \<and>
     ok (log_write i (bstore i x s1)) (\<lambda>_ s2. ok (brelse i s2) (\<lambda>_ s'.
       modified (0, 50) x 0 ?s1 s' \<and> busy s' = busy ?s1 \<and> (\<forall>j\<in>busy ?s1. bufs s' ! j = bufs ?s1 ! j))))"
    by (rule txn_update [where f = "\<lambda>_. x", OF o1(1) k(1,2) disjI2 [OF c] k(3) x])
  have fin: "txn_ok s 1 \<and> log_outstanding s = 1 \<and> \<not> log_committing s \<and> log_dev s = 0 \<and> log_start s = 2 \<and>
      dsk s = dsk (bio_zero d) \<and> bview s = (dsk (bio_zero d))((0, 50) := x)"
    if m: "modified (0, 50) x 0 ?s1 s" "busy s = busy ?s1" for s
  proof -
    have "dirty ?s1 = {}" using z(5) by simp
    moreover have "dsk s = dsk (bio_zero d)" using dsk_cong [of s ?s1] m(1) z(2) by (simp add: modified_def)
    ultimately show ?thesis using m z o1(2) by (simp add: modified_def txn_ok_open lframe_def)
  qed
  show ?thesis
    unfolding b ok_Ok
    by (rule ok_mono [OF u], elim conjE, erule ok_mono, erule ok_mono, elim conjE, rule fin)
qed

section \<open>Filling the log\<close>

text \<open>A run of changes to the blocks of a list, each as the file system makes it: read, change, log, release.\<close>

primrec log_run :: "(uint \<times> uchar list) list \<Rightarrow> 'a log_state_scheme \<Rightarrow> ('a log_state_scheme, unit) outcome" where
  "log_run [] s = Ok () s"
| "log_run (w # ws) s = bindk (bread (log_dev s) (fst w) s) (\<lambda>i s.
     bindk (log_write i (bstore i (snd w) s)) (\<lambda>_ s. bindk (brelse i s) (\<lambda>_ s. log_run ws s)))"

lemma log_run_append: "log_run (vs @ ws) s = bindk (log_run vs s) (\<lambda>_. log_run ws)"
  by (induction vs arbitrary: s) (simp_all add: bindk_assoc)

lemma log_run_ok:
  assumes "txn_ok s n" "log_room s n (length ws)" "n + length ws \<le> NBUF" "distinct (map fst ws)"
    and "\<forall>(b, x)\<in>set ws. loggable s (log_dev s, b) \<and> (log_dev s, b) \<notin> dirty s \<and> length x = BSIZE"
  shows "ok (log_run ws s) (\<lambda>_ t. txn_ok t (n + length ws) \<and> lframe s t)"
  using assms
proof (induction ws arbitrary: s n)
  case (Cons w ws)
  obtain b x where w: "w = (b, x)" by (cases w)
  let ?k = "(log_dev s, b)"
  have k: "loggable s ?k" "?k \<notin> dirty s" "length x = BSIZE" using Cons.prems(5) w by auto
  have o: "txn_open s n" "busy s = {}" using Cons.prems(1) by (simp_all add: txn_ok_open)
  have u: "unlocked s ?k" "?k \<in> dirty s \<or> card (busy s) + n < NBUF" "log_room s n 1"
    using o(2) Cons.prems(2,3) by (simp_all add: unlocked_def log_room_def)
  have rest: "ok (log_run ws t) (\<lambda>_ t. txn_ok t (n + length (w # ws)) \<and> lframe s t)"
    if m: "modified ?k x n s t" "busy t = busy s" for t
  proof -
    have t: "txn_ok t (Suc n)" "dirty t = insert ?k (dirty s)" "lframe s t"
      using m k(2) o(2) by (auto simp: modified_def txn_ok_open)
    have g: "log_dev t = log_dev s" "loggable t = loggable s" "log_room t (Suc n) (length ws)"
      using t(3) lframe_loggable [OF t(3)] Cons.prems(2) by (simp_all add: lframe_def log_room_def)
    have "ok (log_run ws t) (\<lambda>_ v. txn_ok v (Suc n + length ws) \<and> lframe t v)"
      using t(1,2) g Cons.prems(3-5) w by (intro Cons.IH) (auto simp: image_iff)
    then show ?thesis by (rule ok_mono) (use t(3) in \<open>auto elim: lframe_trans\<close>)
  qed
  note up = txn_update [where f = "\<lambda>_. x", OF o(1) k(1) u k(3)]
  show ?case
    unfolding w log_run.simps fst_conv snd_conv ok_bindk
    by (rule ok_mono [OF up], elim conjE, erule ok_mono, erule ok_mono, elim conjE, rule rest [unfolded w])
qed simp

text \<open>With 29 blocks in a log of 30 the next one is refused, after it has been read.\<close>

lemma log_run_full:
  assumes "txn_ok s 29" "loggable s (log_dev s, fst w)" "log_size s = 30"
  shows "log_run [w] s = Panic ''too big a transaction''"
proof -
  have o: "txn_open s 29" "busy s = {}" "baccept s (log_dev s, fst w)" "unlocked s (log_dev s, fst w)"
    using assms by (simp_all add: txn_ok_open loggable_def unlocked_def)
  have "(log_dev s, fst w) \<in> dirty s \<or> card (busy s) + 29 < NBUF" using o(2) by (simp add: NBUF_def)
  from txn_bread [OF o(1,3,4) this] obtain i t where t: "bread (log_dev s) (fst w) s = Ok i t" "txn_open t 29" "lframe s t"
    by (auto simp: ok_iff)
  have "lh_n (bstore i (snd w) t) = 29" "log_size (bstore i (snd w) t) = 30"
    using t(2,3) assms(3) by (simp_all add: txn_open_def hdr_ok_def lframe_def bstore_def upd_buf_def)
  with t(1) show ?thesis by (simp add: log_write_def)
qed

section \<open>Properties\<close>

text \<open>
  C14: \<open>log_write\<close> on a locked buffer, with room in the log and inside a transaction, returns and keeps the
  transaction well formed: the header names exactly the dirty blocks, each once. A block that is
  already in the transaction is absorbed and takes no new slot; any other takes the next one. No block
  content and nothing on disk changes, so that no uncommitted change can reach its home location.
\<close>

theorem log_write_keeps_transaction:
  assumes "txn_open s n" "held s i k" "fst k = log_dev s" "\<not> in_log s (snd k)"
    and "int n + 1 < sint (log_size s)" "sint (log_size s) \<le> int LOGSIZE" "1 \<le> sint (log_outstanding s)"
  shows "ok (log_write i s) (\<lambda>_ s'. lh_n s' = (if k \<in> dirty s then lh_n s else lh_n s + 1) \<and>
     distinct (take (unat (lh_n s')) (lh_block s')) \<and>
     dirty s' = (\<lambda>b. (log_dev s, b)) ` set (take (unat (lh_n s')) (lh_block s')) \<and>
     dirty s' = insert k (dirty s) \<and> bio_inv s' \<and> bview s' = bview s \<and> disk s' = disk s \<and> disk_log s' = disk_log s)"
proof -
  have n: "lh_n s = of_nat n" using assms(1) by (simp add: txn_open_def hdr_ok_def)
  have fin: "lh_n s' = of_nat m \<and> distinct (take (unat (lh_n s')) (lh_block s')) \<and>
     dirty s' = (\<lambda>b. (log_dev s', b)) ` set (take (unat (lh_n s')) (lh_block s')) \<and> bio_inv s'"
    if o: "txn_open s' m" for s' :: "'a log_state_scheme" and m
  proof -
    have h: "lh_n s' = of_nat m" "m < LOGSIZE" "length (lh_block s') = LOGSIZE" "distinct (take m (lh_block s'))"
      "dirty s' = hkey s' ` {..<m}"
      using o by (auto simp: txn_open_def hdr_ok_def home_ok_def)
    have u: "unat (lh_n s') = m" using h(1,2) by (simp add: unat_of_nat LOGSIZE_def)
    have "set (take m (lh_block s')) = (!) (lh_block s') ` {..<m}"
      using h(2,3) by (auto simp: set_conv_nth image_iff) (metis nth_take)
    then have "hkey s' ` {..<m} = (\<lambda>b. (log_dev s', b)) ` set (take m (lh_block s'))"
      by (simp add: hkey_def image_image)
    with h u o show ?thesis by (simp add: txn_open_def)
  qed
  show ?thesis
  proof (rule ok_mono [OF log_write_ok [OF assms]])
    fix u s' assume p: "log_write_post i k n s s'"
    then have o: "txn_open s' (if k \<in> dirty s then n else Suc n)" and dev: "log_dev s' = log_dev s"
      by (simp_all add: log_write_post_def lframe_def)
    note f = fin [OF o]
    have "lh_n s' = (if k \<in> dirty s then lh_n s else lh_n s + 1)" using f n by simp
    moreover have "distinct (take (unat (lh_n s')) (lh_block s'))" "bio_inv s'"
      "dirty s' = (\<lambda>b. (log_dev s, b)) ` set (take (unat (lh_n s')) (lh_block s'))"
      using f unfolding dev by blast+
    moreover have "dirty s' = insert k (dirty s)" "bview s' = bview s" "disk s' = disk s" "disk_log s' = disk_log s"
      using p by (simp_all add: log_write_post_def)
    ultimately show "lh_n s' = (if k \<in> dirty s then lh_n s else lh_n s + 1) \<and>
       distinct (take (unat (lh_n s')) (lh_block s')) \<and>
       dirty s' = (\<lambda>b. (log_dev s, b)) ` set (take (unat (lh_n s')) (lh_block s')) \<and>
       dirty s' = insert k (dirty s) \<and> bio_inv s' \<and> bview s' = bview s \<and> disk s' = disk s \<and> disk_log s' = disk_log s"
      by blast
  qed
qed

theorem log_write_keeps_transaction_witness:
  "let s1 = (log_zero (\<lambda>_ _. replicate BSIZE 0))\<lparr>log_outstanding := 1\<rparr>
   in ok (bread 0 50 s1) (\<lambda>i s2. ok (log_write i s2) (\<lambda>_ s3. lh_n s3 = 1 \<and> dirty s3 = {(0, 50)} \<and> disk_log s3 = disk_log s2))"
proof -
  let ?s = "(log_zero (\<lambda>_ _. replicate BSIZE 0))\<lparr>log_outstanding := 1\<rparr>"
  note z = log_zero_txn [of "\<lambda>_ _. replicate BSIZE 0", simplified]
  have o1: "txn_open ?s 0" "busy ?s = {}" "dirty ?s = {}" using z txn_ok_open [of ?s 0] by simp_all
  have c: "(0, 50) \<in> dirty ?s \<or> card (busy ?s) + 0 < NBUF" using o1(2) by (simp add: NBUF_def)
  have "ok (bread 0 50 ?s) (\<lambda>i s'. bread_post (0, 50) ?s i s' \<and> txn_open s' 0 \<and> lframe ?s s')"
    using o1 by (intro txn_bread c) (simp_all add: baccept_def)
  then show ?thesis
    unfolding Let_def
  proof (rule ok_mono, elim conjE)
    fix i s2 assume r: "bread_post (0, 50) ?s i s2" and o2: "txn_open s2 0" and l: "lframe ?s s2"
    have f: "log_dev s2 = 0" "log_start s2 = 2" "log_size s2 = 30" "log_outstanding s2 = 1" "lh_n s2 = 0"
      using l o2 by (simp_all add: lframe_def txn_open_def hdr_ok_def)
    have g: "held s2 i (0, 50)" "dirty s2 = {}" "\<not> in_log s2 50"
      using r o1(3) f by (simp_all add: bread_post_def in_log_def LOGSIZE_def)
    show "ok (log_write i s2) (\<lambda>_ s3. lh_n s3 = 1 \<and> dirty s3 = {(0, 50)} \<and> disk_log s3 = disk_log s2)"
      by (rule ok_mono [OF log_write_keeps_transaction [OF o2 g(1)]]) (use f g in \<open>auto simp: LOGSIZE_def\<close>)
  qed
qed

text \<open>
  C15: Ending the last operation of a transaction lets the waiting ones go on: \<open>end_op\<close> returns with no
  operation and no commit in progress and an empty log, every process that slept on the log is runnable and
  none is left asleep on it, and a \<open>begin_op\<close> issued then succeeds at once.
\<close>

theorem end_op_unblocks:
  assumes "txn_ok s n" "log_outstanding s = 1" "\<not> log_committing s"
  shows "\<exists>s'. end_op s = Ok () s' \<and> lh_n s' = 0 \<and> log_outstanding s' = 0 \<and> \<not> log_committing s' \<and>
     length (procs s') = length (procs s) \<and>
     (\<forall>i<length (procs s). p_state (procs s ! i) = SLEEPING \<and> p_chan (procs s ! i) = Some ChLog \<longrightarrow>
        p_state (procs s' ! i) = RUNNABLE) \<and>
     (\<forall>p\<in>set (procs s'). \<not> (p_state p = SLEEPING \<and> p_chan p = Some ChLog)) \<and>
     begin_op s' = Ok () (s'\<lparr>log_outstanding := 1\<rparr>)"
proof -
  obtain s' where s': "end_op s = Ok () s'" "lh_n s' = 0" "log_outstanding s' = 0" "\<not> log_committing s'"
    and w: "procs_woken (procs s) (procs s')"
    using end_op_commits [OF assms] by blast
  have "\<exists>t. s' = wakeup ChLog t"
    using s'(1) assms(2,3) by (auto simp: end_op_def Let_def bindk_Ok_iff)
  then have n: "\<forall>p\<in>set (procs s'). \<not> (p_state p = SLEEPING \<and> p_chan p = Some ChLog)"
    by (auto simp: wakeup_def wakeup1_def wake_def)
  have len: "length (procs s') = length (procs s)" using w by (rule procs_woken_length)
  have "p_state (procs s' ! i) = RUNNABLE"
    if i: "i < length (procs s)" "p_state (procs s ! i) = SLEEPING \<and> p_chan (procs s ! i) = Some ChLog" for i
  proof -
    have "procs s' ! i \<noteq> procs s ! i" using n i len nth_mem [of i "procs s'"] by metis
    with procs_woken_nth [OF w i(1)] show ?thesis by (auto simp: woken_def)
  qed
  moreover have "begin_op s' = Ok () (s'\<lparr>log_outstanding := 1\<rparr>)"
    using begin_op_ok [of s' 0 0] s' by (simp add: LOGSIZE_def)
  ultimately show ?thesis using s' n len by blast
qed

text \<open>One block is changed in a transaction while process 0 sleeps on the log.\<close>

theorem end_op_unblocks_witness:
  "ok (begin_op (log_zero (\<lambda>_ _. replicate BSIZE 0))) (\<lambda>_ s. ok (bread 0 50 s) (\<lambda>i s.
     ok (log_write i (bstore i (replicate BSIZE 7) s)) (\<lambda>_ s. ok (brelse i s) (\<lambda>_ s.
     let s = s\<lparr>procs := [proc0\<lparr>p_state := SLEEPING, p_chan := Some ChLog\<rparr>]\<rparr>
     in lh_n s = 1 \<and> (\<exists>s'. end_op s = Ok () s' \<and> lh_n s' = 0 \<and> p_state (procs s' ! 0) = RUNNABLE \<and>
          begin_op s' = Ok () (s'\<lparr>log_outstanding := 1\<rparr>))))))"
proof (rule ok_mono [OF one_block_txn [of "\<lambda>_ _. replicate BSIZE 0" "replicate BSIZE 7", OF length_replicate length_replicate]],
    erule ok_mono, erule ok_mono, erule ok_mono, elim conjE)
  fix s :: log_state assume s: "txn_ok s 1" "log_outstanding s = 1" "\<not> log_committing s"
  let ?s = "s\<lparr>procs := [proc0\<lparr>p_state := SLEEPING, p_chan := Some ChLog\<rparr>]\<rparr>"
  have "lh_n ?s = 1" using s(1) by (simp add: txn_ok_def hdr_ok_def)
  moreover have "\<exists>s'. end_op ?s = Ok () s' \<and> lh_n s' = 0 \<and> p_state (procs s' ! 0) = RUNNABLE \<and>
          begin_op s' = Ok () (s'\<lparr>log_outstanding := 1\<rparr>)"
    using end_op_unblocks [of ?s 1] s by (auto simp: procs_irrelevant)
  ultimately show "let s = ?s in lh_n s = 1 \<and> (\<exists>s'. end_op s = Ok () s' \<and> lh_n s' = 0 \<and>
       p_state (procs s' ! 0) = RUNNABLE \<and> begin_op s' = Ok () (s'\<lparr>log_outstanding := 1\<rparr>))" unfolding Let_def by blast
qed

text \<open>
  C16: The space \<open>begin_op\<close> hands out is one block more than the log has. With the log of 30 blocks that mkfs
  makes, three operations are admitted to an empty log, each entitled to \<open>MAXOPBLOCKS\<close> blocks, 30 in
  all; but one of the 30 blocks is the header. When the three operations use what they were promised and read,
  change and log 30 different blocks outside
  the log, with no buffer locked in between, the first 29 succeed and the \<open>log_write\<close> of the last one panics.
\<close>

theorem log_reservation_one_too_many:
  assumes "txn_ok s 0" "log_outstanding s = 0" "\<not> log_committing s" "log_size s = 30"
    and "length ws = 30" "distinct (map fst ws)" "\<forall>(b, x)\<in>set ws. loggable s (log_dev s, b) \<and> length x = BSIZE"
  shows "\<exists>s'. bindk (begin_op s) (\<lambda>_ s. bindk (begin_op s) (\<lambda>_ s. begin_op s)) = Ok () s' \<and>
     int (length ws) = sint (log_outstanding s') * MAXOPBLOCKS \<and>
     ok (log_run (take 29 ws) s') (\<lambda>_ t. lh_n t = 29 \<and> txn_ok t 29) \<and>
     log_run ws s' = Panic ''too big a transaction''"
proof -
  let ?s = "s\<lparr>log_outstanding := 3\<rparr>"
  have z: "lh_n s = 0" "dirty s = {}" using assms(1) by (auto simp: txn_ok_def hdr_ok_def)
  have "begin_op s = Ok () (s\<lparr>log_outstanding := 1\<rparr>)"
    using begin_op_ok [of s 0 0] assms z by (simp add: LOGSIZE_def)
  moreover have "begin_op (s\<lparr>log_outstanding := 1\<rparr>) = Ok () (s\<lparr>log_outstanding := 2\<rparr>)"
    using begin_op_ok [of "s\<lparr>log_outstanding := 1\<rparr>" 0 1] assms z by (simp add: LOGSIZE_def)
  moreover have "begin_op (s\<lparr>log_outstanding := 2\<rparr>) = Ok () ?s"
    using begin_op_ok [of "s\<lparr>log_outstanding := 2\<rparr>" 0 2] assms z by (simp add: LOGSIZE_def)
  ultimately have b: "bindk (begin_op s) (\<lambda>_ s. bindk (begin_op s) (\<lambda>_ s. begin_op s)) = Ok () ?s" by simp
  have w: "ws = take 29 ws @ [ws ! 29]" using assms(5) by (simp flip: take_Suc_conv_app_nth add: Cons_nth_drop_Suc)
  have lg: "loggable ?s = loggable s" by (simp add: loggable_def fun_eq_iff in_log_def baccept_def)
  have "ok (log_run (take 29 ws) ?s) (\<lambda>_ t. txn_ok t 29 \<and> lframe ?s t)"
  proof (rule ok_mono [OF log_run_ok [of ?s 0]])
    show "log_room ?s 0 (length (take 29 ws))" using assms(4,5) by (simp add: log_room_def LOGSIZE_def)
    show "distinct (map fst (take 29 ws))" using assms(6) by (simp flip: take_map)
    show "\<forall>(b, x)\<in>set (take 29 ws). loggable ?s (log_dev ?s, b) \<and> (log_dev ?s, b) \<notin> dirty ?s \<and> length x = BSIZE"
      using assms(7) z(2) lg by (auto dest: in_set_takeD)
  qed (use assms(1,5) in \<open>auto simp: NBUF_def\<close>)
  then obtain t where t: "log_run (take 29 ws) ?s = Ok () t" "txn_ok t 29" "lframe ?s t" by (auto simp: ok_iff)
  have n: "lh_n t = 29" using t(2) by (simp add: txn_ok_def hdr_ok_def)
  have "log_run [ws ! 29] t = Panic ''too big a transaction''"
  proof (rule log_run_full [OF t(2)])
    have "ws ! 29 \<in> set ws" "log_dev t = log_dev s" using assms(5) t(3) by (simp_all add: lframe_def)
    with assms(7) show "loggable t (log_dev t, fst (ws ! 29))" unfolding lframe_loggable [OF t(3)] lg by auto
    show "log_size t = 30" using t(3) assms(4) by (simp add: lframe_def)
  qed
  then have "log_run ws ?s = Panic ''too big a transaction''" using t(1) by (subst w) (simp add: log_run_append)
  with b t(1,2) n assms(5) show ?thesis by (simp add: MAXOPBLOCKS_def)
qed

theorem log_reservation_one_too_many_witness:
  "\<exists>s'. bindk (begin_op (log_zero (\<lambda>_ _. replicate BSIZE 0))) (\<lambda>_ s. bindk (begin_op s) (\<lambda>_ s. begin_op s)) = Ok () s' \<and>
     log_run (map (\<lambda>i. (of_nat i, replicate BSIZE 7)) [100..<130]) s' = Panic ''too big a transaction''"
proof -
  let ?z = "log_zero (\<lambda>_ _. replicate BSIZE 0)" and ?w = "map (\<lambda>i. (of_nat i :: uint, replicate BSIZE (7 :: uchar))) [100..<130]"
  have d: "distinct (map fst ?w)" by (simp add: upt_rec)
  have l: "\<forall>(b, x)\<in>set ?w. loggable ?z (log_dev ?z, b) \<and> length x = BSIZE"
    by (simp add: upt_rec loggable_def in_log_def baccept_def LOGSIZE_def)
  show ?thesis
    using log_reservation_one_too_many [OF log_zero_txn(1) [of "\<lambda>_ _. replicate BSIZE 0"] _ _ _ _ d l] by auto
qed

end
