(* ===== verification/Crash.thy ===== *)
theory Crash
  imports Txn
begin

text \<open>
  Crash safety of the log. A crash can happen between any two sector writes: the disk then holds a
  prefix of the writes the drives had been sent (\<open>disk_log\<close>), and everything in memory is lost.
  The machine boots, finds an empty buffer cache and runs \<open>recover_from_log\<close>, which may itself be
  interrupted by a crash, any number of times.
\<close>

definition replay :: "(bool \<times> uint \<times> uchar list) list \<Rightarrow> drives \<Rightarrow> drives" where
  "replay ws d = fold (\<lambda>(drv, sec, x) d. d(drv := (d drv)(sec := x))) ws d"

definition dskd :: "drives \<Rightarrow> bkey \<Rightarrow> uchar list" where
  "dskd d k = (if fst k = 0 then d False (snd k) else if fst k = 1 then d True (snd k) else [])"

lemma dsk_dskd: "dsk s = dskd (disk s)"
  by (simp add: dsk_def dskd_def fun_eq_iff)

lemma replay_simps [simp]:
  "replay [] d = d" "replay ((drv, sec, x) # ws) d = replay ws (d(drv := (d drv)(sec := x)))"
  by (simp_all add: replay_def)

lemma dskd_upd:
  "fst k = 0 \<or> fst k = 1 \<Longrightarrow>
   dskd (d(bit (fst k) 0 := (d (bit (fst k) 0))(snd k := x))) = (dskd d)(k := x)"
  by (auto simp: dskd_def fun_eq_iff prod_eq_iff)

lemma dskd_replay:
  "\<forall>kx\<in>set kvs. fst (fst kx) = 0 \<or> fst (fst kx) = 1 \<Longrightarrow>
   dskd (replay (map wr kvs) d) = fupds (dskd d) kvs"
  by (induction kvs arbitrary: d) (auto simp: wr_def dskd_upd)

lemma dskd_inj: assumes "dskd d = dskd d'" shows "d = d'"
proof (intro ext)
  fix drv sec
  have "dskd d (if drv then 1 else 0, sec) = dskd d' (if drv then 1 else 0, sec)" using assms by simp
  then show "d drv sec = d' drv sec" by (cases drv) (simp_all add: dskd_def)
qed

lemma replay_take:
  assumes "\<forall>kx\<in>set kvs. fst (fst kx) = 0 \<or> fst (fst kx) = 1"
  shows "dskd (replay (take k (map wr kvs)) d) = fupds (dskd d) (take k kvs)"
  using dskd_replay [of "take k kvs" d] assms by (auto simp: take_map dest: in_set_takeD)

lemma wrote_replay:
  assumes "wrote kvs s s'" "\<forall>kx\<in>set kvs. fst (fst kx) = 0 \<or> fst (fst kx) = 1"
  shows "disk s' = replay (map wr kvs) (disk s)"
  using assms dskd_replay [OF assms(2)] by (intro dskd_inj) (simp add: wrote_def dsk_dskd)

section \<open>The log's place on disk\<close>

text \<open>The meaning of the log region depends only on where the log is.\<close>

lemma log_place:
  fixes s :: "'a log_state_scheme" and t :: "'b log_state_scheme"
  assumes "log_dev t = log_dev s" "log_start t = log_start s"
  shows "log_wf t = log_wf s" "log_abs t = log_abs s" "hdkey t = hdkey s" "in_log t = in_log s"
proof -
  show h: "hdkey t = hdkey s" "in_log t = in_log s" using assms by (simp_all add: hdkey_def in_log_def fun_eq_iff)
  have "home_ok t = home_ok s" "lkey t = lkey s"
    using h assms by (simp_all add: home_ok_def lkey_def fun_eq_iff)
  then show "log_wf t = log_wf s" "log_abs t = log_abs s"
    using h assms by (simp_all add: log_wf_def log_abs_def fun_eq_iff split: option.split)
qed

lemma recover_keys:
  assumes "booted s" shows "\<forall>kx\<in>set (recover_writes s D). fst (fst kx) = 0 \<or> fst (fst kx) = 1"
  using assms by (auto simp: recover_writes_def Let_def hdkey_def booted_def log_geom_def)

lemma commit_keys:
  assumes "log_geom s" shows "\<forall>kx\<in>set (commit_writes s n). fst (fst kx) = 0 \<or> fst (fst kx) = 1"
  using assms by (auto simp: commit_writes_def Let_def hdkey_def hkey_def lkey_def log_geom_def)

section \<open>Interrupted recoveries\<close>

text \<open>
  \<open>reboots dev start d d'\<close>: from disk content \<open>d\<close>, a number of boots, each of which loses power after
  some of the writes of its recovery, lead to disk content \<open>d'\<close>.
\<close>

inductive reboots :: "cint \<Rightarrow> cint \<Rightarrow> drives \<Rightarrow> drives \<Rightarrow> bool" for dev start where
  none: "reboots dev start d d"
| again: "\<lbrakk>reboots dev start d (disk t); booted (t :: log_state); log_dev t = dev; log_start t = start;
     recover_from_log t = Ok () t'; disk_log t' = disk_log t @ ws\<rbrakk> \<Longrightarrow>
     reboots dev start d (replay (take j ws) (disk t))"

lemma booted_hd_length: "booted s \<Longrightarrow> length (dsk s (hdkey s)) = BSIZE"
  using bio_invD(7) [of s] by (auto simp: booted_def dsk_def hdkey_def log_geom_def)

lemma reboots_abs:
  fixes s :: "'a log_state_scheme"
  assumes "reboots (log_dev s) (log_start s) d d'" "log_wf s (dskd d)" "\<not> in_log s b"
  shows "log_wf s (dskd d') \<and> log_abs s (dskd d') b = log_abs s (dskd d) b"
  using assms
proof (induction rule: reboots.induct)
  case (again d t t' ws j)
  note pl = log_place [OF again.hyps(3,4)]
  have wf: "log_wf t (dsk t)" and ab: "log_abs s (dskd (disk t)) b = log_abs s (dskd d) b"
    using again.IH again.prems by (simp_all add: pl dsk_dskd)
  have "wrote (recover_writes t (dsk t)) t t'"
    using recover_ok [OF again.hyps(2) wf] again.hyps(5) by simp
  then have ws: "ws = map wr (recover_writes t (dsk t))" using again.hyps(6) by (simp add: wrote_def)
  have eq: "dskd (replay (take j ws) (disk t)) = fupds (dsk t) (take j (recover_writes t (dsk t)))"
    unfolding ws dsk_dskd by (rule replay_take) (rule recover_keys [OF again.hyps(2)])
  have geom: "log_geom t" using again.hyps(2) by (simp add: booted_def)
  have "\<not> in_log t b" using again.prems(2) by (simp add: pl)
  from recovery_prefix [OF geom wf booted_hd_length [OF again.hyps(2)] this, of j] show ?case
    unfolding eq pl using ab by (simp add: dsk_dskd)
qed simp

lemma recover_abs:
  assumes "booted t" "log_wf t (dsk t)"
  shows "ok (recover_from_log t) (\<lambda>_ t'. hcount (dsk t' (hdkey t)) = 0 \<and> bio_inv t' \<and> lh_n t' = 0 \<and>
     (\<forall>b. \<not> in_log t b \<longrightarrow> dsk t' (log_dev t, b) = log_abs t (dsk t) b))"
proof (rule ok_mono [OF recover_ok [OF assms]], elim conjE)
  fix u t'
  assume w: "wrote (recover_writes t (dsk t)) t t'" and f: "bio_frame (t\<lparr>lh_n := 0, lh_block := lh_block t'\<rparr>) t'"
  have geom: "log_geom t" using assms(1) by (simp add: booted_def)
  let ?k = "length (recover_writes t (dsk t))"
  have D: "dsk t' = fupds (dsk t) (take ?k (recover_writes t (dsk t)))" using w by (simp add: wrote_def)
  have "lh_n t' = 0" using log_frame(6) [OF f] by simp
  moreover have "hcount (dsk t' (hdkey t)) = 0 \<and> dsk t' (log_dev t, b) = log_abs t (dsk t) b" if "\<not> in_log t b" for b
  proof -
    note r = recovery_prefix [OF geom assms(2) booted_hd_length [OF assms(1)] that, of ?k]
    have h: "hcount (dsk t' (hdkey t)) = 0" using r(3) D by simp
    then show ?thesis using r(2) log_abs_empty [of "dsk t'" t b] D by simp
  qed
  moreover have "\<exists>b. \<not> in_log t b" using geom by (intro exI [of _ 4000]) (simp add: in_log_def log_geom_def)
  ultimately show "hcount (dsk t' (hdkey t)) = 0 \<and> bio_inv t' \<and> lh_n t' = 0 \<and>
     (\<forall>b. \<not> in_log t b \<longrightarrow> dsk t' (log_dev t, b) = log_abs t (dsk t) b)"
    using w by (auto simp: wrote_def)
qed

section \<open>Crash safety\<close>

text \<open>
  C1: The file system's transactions are atomic with respect to crashes. When the last operation of
  a transaction ends, \<open>end_op\<close> returns and the blocks it has changed are on disk. If instead the machine loses
  power after any number \<open>k\<close> of the sector writes that \<open>end_op\<close> issues, and loses power again during any number
  of recoveries, then the next recovery that is allowed to complete does complete, leaves an empty log, and
  every block outside the log has the content it had before the transaction (if the crash came before the
  header was written) or the content the transaction gave it (otherwise): never a mixture.
\<close>

theorem end_op_crash_atomic:
  assumes txn: "txn_ok s n" and clean: "hcount (dsk s (hdkey s)) = 0"
    and last: "log_outstanding s = 1" "\<not> log_committing s"
  shows "\<exists>s' ws. end_op s = Ok () s' \<and> disk_log s' = disk_log s @ ws \<and> disk s' = replay ws (disk s) \<and>
     (\<forall>b. \<not> in_log s b \<longrightarrow> dsk s' (log_dev s, b) = bview s (log_dev s, b)) \<and>
     (\<forall>k (t :: log_state). reboots (log_dev s) (log_start s) (replay (take k ws) (disk s)) (disk t) \<and>
        booted t \<and> log_dev t = log_dev s \<and> log_start t = log_start s \<longrightarrow>
        ok (recover_from_log t) (\<lambda>_ t'. hcount (dsk t' (hdkey s)) = 0 \<and>
          (\<forall>b. \<not> in_log s b \<longrightarrow> dsk t' (log_dev s, b) =
             (if k \<le> n then dsk s (log_dev s, b) else bview s (log_dev s, b)))))"
proof -
  let ?kvs = "if n = 0 then [] else commit_writes s n"
  obtain s' where s': "end_op s = Ok () s'" "wrote ?kvs s s'"
    using end_op_commits [OF txn last] by blast
  have geom: "log_geom s" using txn by (simp add: txn_ok_def)
  have keys: "\<forall>kx\<in>set ?kvs. fst (fst kx) = 0 \<or> fst (fst kx) = 1" using commit_keys [OF geom] by simp
  have len: "length ?kvs = (if n = 0 then 0 else 2 * n + 2)" by (simp add: commit_writes_def Let_def)
  have pre: "log_wf s (fupds (dsk s) (take k ?kvs)) \<and>
      log_abs s (fupds (dsk s) (take k ?kvs)) b = (if k \<le> n then dsk s (log_dev s, b) else bview s (log_dev s, b))"
    if "\<not> in_log s b" for k b
  proof (cases "n = 0")
    case True
    then have "dirty s = {}" "bio_inv s" "busy s = {}" using txn by (auto simp: txn_ok_def)
    then have "bview s = dsk s" by (intro bview_quiet)
    with True log_abs_empty [of "dsk s" s b] clean show ?thesis by simp
  next
    case False
    with commit_prefix [OF txn clean that, of k] show ?thesis by simp
  qed
  have fin: "dsk s' (log_dev s, b) = bview s (log_dev s, b)" if "\<not> in_log s b" for b
  proof -
    have D: "dsk s' = fupds (dsk s) (take (2 * n + 2) ?kvs)" using s'(2) len by (simp add: wrote_def)
    have "hcount (dsk s' (hdkey s)) = 0"
    proof (cases "n = 0")
      case False
      then have "dsk s' (hdkey s) = head_of 0 s (head_of n s (bview s (hdkey s)))"
        using s'(2) by (simp add: wrote_def commit_writes_def Let_def)
      moreover have "length (bview s (hdkey s)) = BSIZE"
        using length_bview [of s "hdkey s"] txn by (auto simp: txn_ok_def log_geom_def hdkey_def)
      moreover have "n \<le> LOGSIZE" using txn by (simp add: txn_ok_def hdr_ok_def)
      ultimately show ?thesis by (simp add: head_of_def [of 0] hcount_clear length_head_of)
    qed (use s'(2) clean in \<open>simp add: wrote_def\<close>)
    then show ?thesis using pre [OF that, of "2 * n + 2"] log_abs_empty [of "dsk s'" s b] D by simp
  qed
  have rec: "ok (recover_from_log t) (\<lambda>_ t'. hcount (dsk t' (hdkey s)) = 0 \<and>
      (\<forall>b. \<not> in_log s b \<longrightarrow> dsk t' (log_dev s, b) =
         (if k \<le> n then dsk s (log_dev s, b) else bview s (log_dev s, b))))"
    if r: "reboots (log_dev s) (log_start s) (replay (take k (map wr ?kvs)) (disk s)) (disk t)"
      and t: "booted t" "log_dev t = log_dev s" "log_start t = log_start s" for k and t :: log_state
  proof -
    note pl = log_place [OF t(2,3)]
    have eq: "dskd (replay (take k (map wr ?kvs)) (disk s)) = fupds (dsk s) (take k ?kvs)"
      unfolding dsk_dskd by (rule replay_take [OF keys])
    obtain c where c: "\<not> in_log s c" using geom by (auto simp: in_log_def log_geom_def intro: that [of 4000])
    have wf0: "log_wf s (dskd (replay (take k (map wr ?kvs)) (disk s)))" using pre [OF c] eq by simp
    have wf: "log_wf t (dsk t)" using reboots_abs [OF r wf0 c] by (simp add: pl dsk_dskd)
    have ab: "log_abs t (dsk t) b = (if k \<le> n then dsk s (log_dev s, b) else bview s (log_dev s, b))"
      if "\<not> in_log s b" for b
      using reboots_abs [OF r wf0 that] pre [OF that, of k] by (simp add: pl dsk_dskd [of t] eq)
    show ?thesis
      by (rule ok_mono [OF recover_abs [OF t(1) wf]]) (use ab in \<open>auto simp: pl t\<close>)
  qed
  show ?thesis
    using s' fin rec wrote_replay [OF s'(2) keys]
    by (intro exI [of _ s'] exI [of _ "map wr ?kvs"]) (auto simp: wrote_def)
qed

text \<open>A machine that boots from a given disk content.\<close>

lemma log_zero_booted: "(\<And>a n. length (d a n) = BSIZE) \<Longrightarrow> booted (log_zero d)"
  using log_zero_txn [of d] by (simp add: booted_def txn_ok_def)

theorem end_op_crash_atomic_witness:
  "let d = (\<lambda>_ _. replicate BSIZE 0); x = replicate BSIZE 7
   in ok (begin_op (log_zero d)) (\<lambda>_ s1. ok (bread 0 50 s1) (\<lambda>i s2. ok (log_write i (bstore i x s2)) (\<lambda>_ s3.
     ok (brelse i s3) (\<lambda>_ s. \<exists>s' ws. end_op s = Ok () s' \<and> disk s' = replay ws (disk s) \<and>
       dsk s' (0, 50) = x \<and>
       (\<forall>k (t :: log_state). reboots 0 2 (replay (take k ws) (disk s)) (disk t) \<and> booted t \<and> log_dev t = 0 \<and> log_start t = 2 \<longrightarrow>
         ok (recover_from_log t) (\<lambda>_ t'. dsk t' (0, 50) = (if k \<le> 1 then replicate BSIZE 0 else x)))))))"
proof -
  let ?d = "\<lambda>_ _. replicate BSIZE 0 :: uchar list"
  let ?x = "replicate BSIZE 7 :: uchar list"
  have z: "dsk (bio_zero ?d) (0, b) = replicate BSIZE 0" for b by (simp add: dsk_def bio_zero_def)
  have h: "hcount (replicate BSIZE 0) = 0"
    by (simp add: hcount_def head_n_def get32_def slice_def dec32_def BSIZE_def)
  have fin: "\<exists>s' ws. end_op s = Ok () s' \<and> disk s' = replay ws (disk s) \<and> dsk s' (0, 50) = ?x \<and>
       (\<forall>k (t :: log_state). reboots 0 2 (replay (take k ws) (disk s)) (disk t) \<and> booted t \<and> log_dev t = 0 \<and> log_start t = 2 \<longrightarrow>
         ok (recover_from_log t) (\<lambda>_ t'. dsk t' (0, 50) = (if k \<le> 1 then replicate BSIZE 0 else ?x)))"
    if s: "txn_ok s 1 \<and> log_outstanding s = 1 \<and> \<not> log_committing s \<and> log_dev s = 0 \<and> log_start s = 2 \<and>
       dsk s = dsk (bio_zero ?d) \<and> bview s = (dsk (bio_zero ?d))((0, 50) := ?x)" for s :: log_state
  proof -
    have hd: "hcount (dsk s (hdkey s)) = 0" using s z h by (simp add: hdkey_def)
    have nl: "\<not> in_log s 50" using s by (simp add: in_log_def LOGSIZE_def)
    have s1: "txn_ok s 1" "log_outstanding s = 1" "\<not> log_committing s" using s by simp_all
    obtain s' ws where e: "end_op s = Ok () s'" "disk s' = replay ws (disk s)"
      and new: "\<forall>b. \<not> in_log s b \<longrightarrow> dsk s' (log_dev s, b) = bview s (log_dev s, b)"
      and rec: "\<forall>k (t :: log_state). reboots (log_dev s) (log_start s) (replay (take k ws) (disk s)) (disk t) \<and>
        booted t \<and> log_dev t = log_dev s \<and> log_start t = log_start s \<longrightarrow>
        ok (recover_from_log t) (\<lambda>_ t'. hcount (dsk t' (hdkey s)) = 0 \<and>
          (\<forall>b. \<not> in_log s b \<longrightarrow> dsk t' (log_dev s, b) =
             (if k \<le> 1 then dsk s (log_dev s, b) else bview s (log_dev s, b))))"
      using end_op_crash_atomic [OF s1(1) hd s1(2,3)] by blast
    have "ok (recover_from_log t) (\<lambda>_ t'. dsk t' (0, 50) = (if k \<le> 1 then replicate BSIZE 0 else ?x))"
      if t: "reboots 0 2 (replay (take k ws) (disk s)) (disk t) \<and> booted t \<and> log_dev t = 0 \<and> log_start t = 2"
      for k and t :: log_state
    proof -
      have "ok (recover_from_log t) (\<lambda>_ t'. hcount (dsk t' (hdkey s)) = 0 \<and>
          (\<forall>b. \<not> in_log s b \<longrightarrow> dsk t' (log_dev s, b) =
             (if k \<le> 1 then dsk s (log_dev s, b) else bview s (log_dev s, b))))"
        using rec s t by simp
      then show ?thesis by (rule ok_mono) (use nl s z in auto)
    qed
    then show ?thesis using e new nl s by (intro exI [of _ s'] exI [of _ ws]) auto
  qed
  have "length (?d a n) = BSIZE" "length ?x = BSIZE" for a n by simp_all
  from one_block_txn [of ?d ?x, OF this] show ?thesis
    unfolding Let_def
    by (elim ok_mono) (rule fin)
qed

end
