(* ===== verification/Fs_Block.thy ===== *)
theory Fs_Block
  imports Txn
begin

text \<open>
  The lowest layer of fs.c: partitions (mbr.h), the super block, the block allocator and the
  initialisation of the log.

  On-disk structures are byte strings at the offsets of their C layout. A pointer to an element of
  \<open>partitions\<close> is its index, the null pointer is \<open>None\<close>; dereferencing a null or out-of-range pointer is
  \<open>undef\<close>. The fields of \<open>fs_state\<close> are the global variables of fs.c; \<open>icache\<close> and \<open>mount_pnts\<close> are used
  from \<open>Inode\<close> and \<open>Dir\<close> on.
\<close>

section \<open>Data (fs.h, mbr.h, file.h)\<close>

record superblock =
  sb_size :: uint
  sb_nblocks :: uint
  sb_ninodes :: uint
  sb_nlog :: uint
  sb_logstart :: uint
  sb_inodestart :: uint
  sb_bmapstart :: uint

record dpartition =
  dp_flags :: uint
  dp_type :: uint
  dp_offset :: uint
  dp_size :: uint

record mbr =
  mbr_bootstrap :: "uchar list"
  mbr_partitions :: "dpartition list"
  mbr_magic :: "uchar list"

record partition =
  pt_dev :: uint
  pt_prt :: dpartition

text \<open>The in-memory inode: \<open>flags\<close> as two booleans; the unused \<open>mnt_info\<close> keeps only what the code writes.\<close>

record inode =
  i_inum :: uint
  i_ref :: cint
  i_busy :: bool
  i_valid :: bool
  i_prt :: "nat option"
  i_is_mnt :: cint
  i_type :: ushort
  i_major :: ushort
  i_minor :: ushort
  i_nlink :: ushort
  i_size :: uint
  i_addrs :: "uint list"

record mount_point =
  mp_is_taken :: cint
  mp_path :: "uchar list"
  mp_prt :: "nat option"
  mp_old_i :: cint
  mp_old_prt :: "nat option"

record fs_state = log_state +
  fs_sb :: superblock
  partitions :: "partition list"
  boot_part :: "nat option"
  fs_mbr :: mbr
  cur_part :: cint
  icache :: "inode list"
  mount_pnts :: "mount_point list"

definition NPARTITIONS :: nat where "NPARTITIONS = 4"
definition PART_BOOTABLE :: uchar where "PART_BOOTABLE = 2"
definition BPB :: nat where "BPB = 4096"
definition IPB :: uint where "IPB = 8"
definition NDIRECT :: nat where "NDIRECT = 12"
definition NINDIRECT :: nat where "NINDIRECT = 128"
definition MAXFILE :: nat where "MAXFILE = NDIRECT + NINDIRECT"

definition BBLOCK :: "uint \<Rightarrow> superblock \<Rightarrow> uint" where
  "BBLOCK b sb = b div of_nat BPB + sb_bmapstart sb"

definition IBLOCK :: "uint \<Rightarrow> superblock \<Rightarrow> uint" where
  "IBLOCK i sb = i div IPB + sb_inodestart sb"

definition dec_superblock :: "uchar list \<Rightarrow> superblock" where
  "dec_superblock d = \<lparr>sb_size = get32 0 d, sb_nblocks = get32 4 d, sb_ninodes = get32 8 d, sb_nlog = get32 12 d,
     sb_logstart = get32 16 d, sb_inodestart = get32 20 d, sb_bmapstart = get32 24 d\<rparr>"

definition dec_dpartition :: "nat \<Rightarrow> uchar list \<Rightarrow> dpartition" where
  "dec_dpartition off d = \<lparr>dp_flags = get32 off d, dp_type = get32 (off + 4) d, dp_offset = get32 (off + 8) d,
     dp_size = get32 (off + 12) d\<rparr>"

definition dec_mbr :: "uchar list \<Rightarrow> mbr" where
  "dec_mbr d = \<lparr>mbr_bootstrap = slice 0 446 d,
     mbr_partitions = map (\<lambda>i. dec_dpartition (446 + 16 * i) d) [0..<NPARTITIONS], mbr_magic = slice 510 2 d\<rparr>"

section \<open>Super block and partitions\<close>

definition part_at :: "nat option \<Rightarrow> 'a fs_state_scheme \<Rightarrow> partition option" where
  "part_at p s =
     (case p of None \<Rightarrow> None | Some i \<Rightarrow> if i < length (partitions s) then Some (partitions s ! i) else None)"

definition rebase_sb :: "uint \<Rightarrow> superblock \<Rightarrow> superblock" where
  "rebase_sb off sb = sb\<lparr>sb_logstart := sb_logstart sb + off, sb_inodestart := sb_inodestart sb + off,
     sb_bmapstart := sb_bmapstart sb + off\<rparr>"

definition readsb :: "nat option \<Rightarrow> 'a fs_state_scheme \<Rightarrow> ('a fs_state_scheme, superblock) outcome" where
  "readsb p s =
     (case part_at p s of
        None \<Rightarrow> undef
      | Some part \<Rightarrow>
          let offset = dp_offset (pt_prt part)
          in bindk (bread (pt_dev part) offset s) (\<lambda>bp s.
               let sb = rebase_sb offset (dec_superblock (bdata s bp))
               in bindk (brelse bp s) (\<lambda>_ s. Ok sb s)))"

fun readmbr_loop :: "nat list \<Rightarrow> uint \<Rightarrow> 'a fs_state_scheme \<Rightarrow> ('a fs_state_scheme, unit) outcome" where
  "readmbr_loop [] dev s = Ok () s"
| "readmbr_loop (i # is) dev s =
     (let s = s\<lparr>partitions := (partitions s)[i := \<lparr>pt_dev = dev, pt_prt = mbr_partitions (fs_mbr s) ! i\<rparr>]\<rparr>
      in bindk (readsb (Some i) s) (\<lambda>_ s. readmbr_loop is dev s))"

definition set_part :: "cint \<Rightarrow> 'a fs_state_scheme \<Rightarrow> 'a fs_state_scheme" where
  "set_part p s = s\<lparr>cur_part := p\<rparr>"

definition get_part :: "'a fs_state_scheme \<Rightarrow> cint" where
  "get_part s = cur_part s"

definition get_boot_block :: "'a fs_state_scheme \<Rightarrow> nat option" where
  "get_boot_block s = boot_part s"

definition readmbr :: "uint \<Rightarrow> 'a fs_state_scheme \<Rightarrow> ('a fs_state_scheme, unit) outcome" where
  "readmbr dev s =
     bindk (bread dev 0 s) (\<lambda>bp s.
     bindk (brelse bp (s\<lparr>fs_mbr := dec_mbr (bdata s bp)\<rparr>)) (\<lambda>_ s.
     bindk (readmbr_loop [0..<NPARTITIONS] dev s) (\<lambda>_ s.
       case first_index (\<lambda>p. ucast (dp_flags p) = PART_BOOTABLE) (mbr_partitions (fs_mbr s)) of
         None \<Rightarrow> Panic ''no bootable partition found''
       | Some i \<Rightarrow> Ok () ((set_part (of_nat i) s)\<lparr>boot_part := Some i\<rparr>))))"

definition initlog :: "nat option \<Rightarrow> 'a fs_state_scheme \<Rightarrow> ('a fs_state_scheme, unit) outcome" where
  "initlog p s =
     bindk (readsb p s) (\<lambda>sb s.
       case part_at p s of
         None \<Rightarrow> undef
       | Some part \<Rightarrow>
           recover_from_log (s\<lparr>log_start := sb_logstart sb, log_size := sb_nlog sb, log_dev := pt_dev part\<rparr>))"

section \<open>Blocks\<close>

definition bzero :: "uint \<Rightarrow> uint \<Rightarrow> 'a fs_state_scheme \<Rightarrow> ('a fs_state_scheme, unit) outcome" where
  "bzero dev bno s =
     bindk (bread dev bno s) (\<lambda>bp s.
     bindk (log_write bp (bstore bp (replicate BSIZE 0) s)) (\<lambda>_ s.
       brelse bp s))"

text \<open>Bit \<open>bi\<close> of a bitmap block.\<close>

definition bit_mask :: "nat \<Rightarrow> uchar" where
  "bit_mask bi = push_bit (bi mod 8) 1"

definition bit_free :: "uchar list \<Rightarrow> nat \<Rightarrow> bool" where
  "bit_free d bi \<longleftrightarrow> d ! (bi div 8) AND bit_mask bi = 0"

definition set_bit_in :: "nat \<Rightarrow> uchar list \<Rightarrow> uchar list" where
  "set_bit_in bi d = d[bi div 8 := d ! (bi div 8) OR bit_mask bi]"

definition clear_bit_in :: "nat \<Rightarrow> uchar list \<Rightarrow> uchar list" where
  "clear_bit_in bi d = d[bi div 8 := d ! (bi div 8) AND NOT (bit_mask bi)]"

text \<open>The bitmap blocks are visited at \<open>b = 0, BPB, 2 * BPB, ...\<close> below the size of the partition.\<close>

fun balloc_loop :: "nat list \<Rightarrow> superblock \<Rightarrow> uint \<Rightarrow> 'a fs_state_scheme \<Rightarrow> ('a fs_state_scheme, uint) outcome" where
  "balloc_loop [] sb dev s = Panic ''balloc: out of blocks''"
| "balloc_loop (b # bs) sb dev s =
     bindk (bread dev (BBLOCK (of_nat b) sb) s) (\<lambda>bp s.
       case find (\<lambda>bi. bit_free (bdata s bp) bi) [0..<min BPB (unat (sb_size sb) - b)] of
         Some bi \<Rightarrow>
           bindk (log_write bp (bstore bp (set_bit_in bi (bdata s bp)) s)) (\<lambda>_ s.
           bindk (brelse bp s) (\<lambda>_ s.
             let r = sb_bmapstart sb + 1 + of_nat (b + bi)
             in bindk (bzero dev r s) (\<lambda>_ s. Ok r s)))
       | None \<Rightarrow> bindk (brelse bp s) (\<lambda>_ s. balloc_loop bs sb dev s))"

definition balloc :: "nat option \<Rightarrow> 'a fs_state_scheme \<Rightarrow> ('a fs_state_scheme, uint) outcome" where
  "balloc p s =
     (case part_at p s of
        None \<Rightarrow> undef
      | Some part \<Rightarrow>
          bindk (readsb p s) (\<lambda>sb s.
            balloc_loop (map (\<lambda>j. j * BPB) [0..<(unat (sb_size sb) + BPB - 1) div BPB]) sb (pt_dev part) s))"

definition bfree :: "nat option \<Rightarrow> uint \<Rightarrow> 'a fs_state_scheme \<Rightarrow> ('a fs_state_scheme, unit) outcome" where
  "bfree p b s =
     bindk (readsb p s) (\<lambda>sb s.
       case part_at p s of
         None \<Rightarrow> undef
       | Some part \<Rightarrow>
           let b = b - (sb_bmapstart sb + 1)
           in bindk (bread (pt_dev part) (BBLOCK b sb) s) (\<lambda>bp s.
                let bi = unat (b mod of_nat BPB)
                in if bit_free (bdata s bp) bi then Panic ''freeing free block''
                   else bindk (log_write bp (bstore bp (clear_bit_in bi (bdata s bp)) s)) (\<lambda>_ s. brelse bp s)))"

section \<open>A concrete state\<close>

text \<open>Four equal partitions at block 1 of drive 0, an empty inode cache and mount table, on the drives \<open>d\<close>.\<close>

definition superblock0 :: superblock where
  "superblock0 = \<lparr>sb_size = 0, sb_nblocks = 0, sb_ninodes = 0, sb_nlog = 0, sb_logstart = 0, sb_inodestart = 0,
     sb_bmapstart = 0\<rparr>"

definition partition1 :: partition where
  "partition1 = \<lparr>pt_dev = 0, pt_prt = \<lparr>dp_flags = 2, dp_type = 0, dp_offset = 1, dp_size = 99\<rparr>\<rparr>"

definition inode0 :: inode where
  "inode0 = \<lparr>i_inum = 0, i_ref = 0, i_busy = False, i_valid = False, i_prt = None, i_is_mnt = 0, i_type = 0, i_major = 0,
     i_minor = 0, i_nlink = 0, i_size = 0, i_addrs = replicate (NDIRECT + 1) 0\<rparr>"

definition mount_point0 :: mount_point where
  "mount_point0 = \<lparr>mp_is_taken = 0, mp_path = replicate 14 0, mp_prt = None, mp_old_i = 0, mp_old_prt = None\<rparr>"

definition fs_zero :: "drives \<Rightarrow> fs_state" where
  "fs_zero d = log_state.extend (log_zero d)
     (fs_state.fields superblock0 (replicate NPARTITIONS partition1) (Some 0)
       \<lparr>mbr_bootstrap = [], mbr_partitions = [], mbr_magic = []\<rparr> 0 (replicate 50 inode0) (replicate 200 mount_point0))"

lemma fs_zero_fields [simp]:
  "partitions (fs_zero d) = replicate NPARTITIONS partition1" "boot_part (fs_zero d) = Some 0"
  "icache (fs_zero d) = replicate 50 inode0" "mount_pnts (fs_zero d) = replicate 200 mount_point0"
  by (simp_all add: fs_zero_def log_state.defs fs_state.defs)

end
