(* ===== verification/Inode.thy ===== *)
theory Inode
  imports Fs_Block
begin

text \<open>
  Inodes (fs.c): the inode cache (\<open>iget\<close>, \<open>idup\<close>, \<open>ilock\<close>, \<open>iunlock\<close>, \<open>iput\<close>), the inodes on disk
  (\<open>ialloc\<close>, \<open>iupdate\<close>), the block map of a file (\<open>bmap\<close>, \<open>itrunc\<close>).

  A pointer to an inode is its index in \<open>icache.inode\<close>, \<open>None\<close> the null pointer. The critical
  sections of \<open>icache.lock\<close> are atomic.
\<close>

definition NINODE :: nat where "NINODE = 50"
definition ROOTINO :: uint where "ROOTINO = 1"
definition ROOTDEV :: uint where "ROOTDEV = 0"
definition T_DIR :: ushort where "T_DIR = 1"
definition T_FILE :: ushort where "T_FILE = 2"
definition T_DEV :: ushort where "T_DEV = 3"

definition upd_inode :: "nat \<Rightarrow> (inode \<Rightarrow> inode) \<Rightarrow> 'a fs_state_scheme \<Rightarrow> 'a fs_state_scheme" where
  "upd_inode i f s = s\<lparr>icache := (icache s)[i := f (icache s ! i)]\<rparr>"

abbreviation ino :: "'a fs_state_scheme \<Rightarrow> nat \<Rightarrow> inode" where
  "ino s i \<equiv> icache s ! i"

section \<open>The inode on disk (struct dinode)\<close>

text \<open>Offset of inode \<open>inum\<close> in its block; a dinode has 64 bytes.\<close>

definition dinode_off :: "uint \<Rightarrow> nat" where
  "dinode_off inum = 64 * unat (inum mod IPB)"

definition load_dinode :: "nat \<Rightarrow> uchar list \<Rightarrow> inode \<Rightarrow> inode" where
  "load_dinode o1 d ip = ip\<lparr>i_type := get16 o1 d, i_major := get16 (o1 + 2) d, i_minor := get16 (o1 + 4) d,
     i_nlink := get16 (o1 + 6) d, i_size := get32 (o1 + 8) d,
     i_addrs := map (\<lambda>j. get32 (o1 + 12 + 4 * j) d) [0..<NDIRECT + 1]\<rparr>"

fun put_addrs :: "nat \<Rightarrow> uint list \<Rightarrow> uchar list \<Rightarrow> uchar list" where
  "put_addrs off [] d = d"
| "put_addrs off (a # as) d = put_addrs (off + 4) as (put32 off a d)"

definition store_dinode :: "nat \<Rightarrow> inode \<Rightarrow> uchar list \<Rightarrow> uchar list" where
  "store_dinode o1 ip d =
     put_addrs (o1 + 12) (i_addrs ip)
       (put32 (o1 + 8) (i_size ip) (put16 (o1 + 6) (i_nlink ip) (put16 (o1 + 4) (i_minor ip)
         (put16 (o1 + 2) (i_major ip) (put16 o1 (i_type ip) d)))))"

section \<open>The inode cache\<close>

definition iget :: "nat option \<Rightarrow> uint \<Rightarrow> 'a fs_state_scheme \<Rightarrow> ('a fs_state_scheme, nat) outcome" where
  "iget p inum s =
     (case first_index (\<lambda>ip. 0 < sint (i_ref ip) \<and> i_prt ip = p \<and> i_inum ip = inum) (icache s) of
        Some i \<Rightarrow> Ok i (upd_inode i (\<lambda>ip. ip\<lparr>i_ref := i_ref ip + 1\<rparr>) s)
      | None \<Rightarrow>
          (case first_index (\<lambda>ip. i_ref ip = 0) (icache s) of
             None \<Rightarrow> Panic ''iget: no inodes''
           | Some i \<Rightarrow> Ok i (upd_inode i (\<lambda>ip. ip\<lparr>i_prt := p, i_inum := inum, i_ref := 1,
                         i_busy := False, i_valid := False, i_is_mnt := 0\<rparr>) s)))"

definition idup :: "nat \<Rightarrow> 'a fs_state_scheme \<Rightarrow> 'a fs_state_scheme" where
  "idup i s = upd_inode i (\<lambda>ip. ip\<lparr>i_ref := i_ref ip + 1\<rparr>) s"

definition ilock :: "nat option \<Rightarrow> 'a fs_state_scheme \<Rightarrow> ('a fs_state_scheme, unit) outcome" where
  "ilock ip s =
     (case ip of
        None \<Rightarrow> Panic ''ilock''
      | Some i \<Rightarrow>
          if sint (i_ref (ino s i)) < 1 then Panic ''ilock''
          else if i_prt (ino s i) = None then Panic ''ilock no partition''
          else if i_busy (ino s i) then sleep (ChInode i) s
          else let s = upd_inode i (\<lambda>ip. ip\<lparr>i_busy := True\<rparr>) s
               in bindk (readsb (i_prt (ino s i)) s) (\<lambda>sb s.
                    if i_valid (ino s i) then Ok () s
                    else case part_at (i_prt (ino s i)) s of
                           None \<Rightarrow> undef
                         | Some part \<Rightarrow>
                             bindk (bread (pt_dev part) (IBLOCK (i_inum (ino s i)) sb) s) (\<lambda>bp s.
                               let s = upd_inode i (load_dinode (dinode_off (i_inum (ino s i))) (bdata s bp)) s
                               in bindk (brelse bp s) (\<lambda>_ s.
                                    let s = upd_inode i (\<lambda>ip. ip\<lparr>i_valid := True\<rparr>) s
                                    in if i_type (ino s i) = 0 then Panic ''ilock: no type'' else Ok () s))))"

definition iunlock :: "nat option \<Rightarrow> 'a fs_state_scheme \<Rightarrow> ('a fs_state_scheme, unit) outcome" where
  "iunlock ip s =
     (case ip of
        None \<Rightarrow> Panic ''iunlock''
      | Some i \<Rightarrow>
          if \<not> i_busy (ino s i) \<or> sint (i_ref (ino s i)) < 1 then Panic ''iunlock''
          else Ok () (wakeup (ChInode i) (upd_inode i (\<lambda>ip. ip\<lparr>i_busy := False\<rparr>) s)))"

definition iinit :: "uint \<Rightarrow> 'a fs_state_scheme \<Rightarrow> ('a fs_state_scheme, unit) outcome" where
  "iinit dev s =
     bindk (readmbr dev s) (\<lambda>_ s.
     bindk (readsb (boot_part s) s) (\<lambda>sb s.
     bindk (iget (boot_part s) ROOTINO (s\<lparr>fs_sb := sb\<rparr>)) (\<lambda>ip s.
       case cur s of
         None \<Rightarrow> undef
       | Some p \<Rightarrow> Ok () (upd_proc p (\<lambda>q. q\<lparr>p_cwd := Some ip\<rparr>) s))))"

section \<open>Inodes on disk\<close>

fun ialloc_loop :: "nat list \<Rightarrow> nat option \<Rightarrow> ushort \<Rightarrow> superblock \<Rightarrow> uint \<Rightarrow> 'a fs_state_scheme \<Rightarrow>
    ('a fs_state_scheme, nat) outcome" where
  "ialloc_loop [] p type sb dev s = Panic ''ialloc: no inodes''"
| "ialloc_loop (inum # is) p type sb dev s =
     bindk (bread dev (IBLOCK (of_nat inum) sb) s) (\<lambda>bp s.
       let o1 = dinode_off (of_nat inum)
       in if get16 o1 (bdata s bp) = 0
          then bindk (log_write bp (bstore bp (put16 o1 type (splice o1 (replicate 64 0) (bdata s bp))) s)) (\<lambda>_ s.
               bindk (brelse bp s) (\<lambda>_ s. iget p (of_nat inum) s))
          else bindk (brelse bp s) (\<lambda>_ s. ialloc_loop is p type sb dev s))"

definition ialloc :: "nat option \<Rightarrow> ushort \<Rightarrow> 'a fs_state_scheme \<Rightarrow> ('a fs_state_scheme, nat) outcome" where
  "ialloc p type s =
     (case part_at p s of
        None \<Rightarrow> undef
      | Some part \<Rightarrow>
          bindk (readsb p s) (\<lambda>sb s. ialloc_loop [1..<unat (sb_ninodes sb)] p type sb (pt_dev part) s))"

definition iupdate :: "nat \<Rightarrow> 'a fs_state_scheme \<Rightarrow> ('a fs_state_scheme, unit) outcome" where
  "iupdate i s =
     bindk (readsb (i_prt (ino s i)) s) (\<lambda>sb s.
       case part_at (i_prt (ino s i)) s of
         None \<Rightarrow> undef
       | Some part \<Rightarrow>
           bindk (bread (pt_dev part) (IBLOCK (i_inum (ino s i)) sb) s) (\<lambda>bp s.
           bindk (log_write bp
                    (bstore bp (store_dinode (dinode_off (i_inum (ino s i))) (ino s i) (bdata s bp)) s)) (\<lambda>_ s.
             brelse bp s)))"

section \<open>Block map\<close>

definition bmap :: "nat \<Rightarrow> uint \<Rightarrow> 'a fs_state_scheme \<Rightarrow> ('a fs_state_scheme, uint) outcome" where
  "bmap i bn s =
     (if bn < of_nat NDIRECT
      then let addr = i_addrs (ino s i) ! unat bn
           in if addr = 0
              then bindk (balloc (i_prt (ino s i)) s) (\<lambda>addr s.
                     Ok addr (upd_inode i (\<lambda>ip. ip\<lparr>i_addrs := (i_addrs ip)[unat bn := addr]\<rparr>) s))
              else Ok addr s
      else let bn = bn - of_nat NDIRECT
           in if bn < of_nat NINDIRECT
              then bindk (if i_addrs (ino s i) ! NDIRECT = 0
                          then bindk (balloc (i_prt (ino s i)) s) (\<lambda>addr s.
                                 Ok addr (upd_inode i (\<lambda>ip. ip\<lparr>i_addrs := (i_addrs ip)[NDIRECT := addr]\<rparr>) s))
                          else Ok (i_addrs (ino s i) ! NDIRECT) s) (\<lambda>addr s.
                   case part_at (i_prt (ino s i)) s of
                     None \<Rightarrow> undef
                   | Some part \<Rightarrow>
                       bindk (bread (pt_dev part) addr s) (\<lambda>bp s.
                         let addr = get32 (4 * unat bn) (bdata s bp)
                         in if addr = 0
                            then bindk (balloc (i_prt (ino s i)) s) (\<lambda>addr s.
                                 bindk (log_write bp (bstore bp (put32 (4 * unat bn) addr (bdata s bp)) s)) (\<lambda>_ s.
                                 bindk (brelse bp s) (\<lambda>_ s. Ok addr s)))
                            else bindk (brelse bp s) (\<lambda>_ s. Ok addr s)))
              else Panic ''bmap: out of range'')"

fun itrunc_direct :: "nat list \<Rightarrow> nat \<Rightarrow> 'a fs_state_scheme \<Rightarrow> ('a fs_state_scheme, unit) outcome" where
  "itrunc_direct [] i s = Ok () s"
| "itrunc_direct (j # js) i s =
     (if i_addrs (ino s i) ! j \<noteq> 0
      then bindk (bfree (i_prt (ino s i)) (i_addrs (ino s i) ! j) s) (\<lambda>_ s.
             itrunc_direct js i (upd_inode i (\<lambda>ip. ip\<lparr>i_addrs := (i_addrs ip)[j := 0]\<rparr>) s))
      else itrunc_direct js i s)"

text \<open>The loop over the indirect block held in buffer \<open>bp\<close>.\<close>

fun itrunc_indirect :: "nat list \<Rightarrow> nat \<Rightarrow> nat \<Rightarrow> 'a fs_state_scheme \<Rightarrow> ('a fs_state_scheme, unit) outcome" where
  "itrunc_indirect [] i bp s = Ok () s"
| "itrunc_indirect (j # js) i bp s =
     (let a = get32 (4 * j) (bdata s bp)
      in if a \<noteq> 0 then bindk (bfree (i_prt (ino s i)) a s) (\<lambda>_ s. itrunc_indirect js i bp s)
         else itrunc_indirect js i bp s)"

definition itrunc :: "nat \<Rightarrow> 'a fs_state_scheme \<Rightarrow> ('a fs_state_scheme, unit) outcome" where
  "itrunc i s =
     bindk (itrunc_direct [0..<NDIRECT] i s) (\<lambda>_ s.
     bindk (if i_addrs (ino s i) ! NDIRECT \<noteq> 0
            then case part_at (i_prt (ino s i)) s of
                   None \<Rightarrow> undef
                 | Some part \<Rightarrow>
                     bindk (bread (pt_dev part) (i_addrs (ino s i) ! NDIRECT) s) (\<lambda>bp s.
                     bindk (itrunc_indirect [0..<NINDIRECT] i bp s) (\<lambda>_ s.
                     bindk (brelse bp s) (\<lambda>_ s.
                     bindk (bfree (i_prt (ino s i)) (i_addrs (ino s i) ! NDIRECT) s) (\<lambda>_ s.
                       Ok () (upd_inode i (\<lambda>ip. ip\<lparr>i_addrs := (i_addrs ip)[NDIRECT := 0]\<rparr>) s)))))
            else Ok () s) (\<lambda>_ s.
       iupdate i (upd_inode i (\<lambda>ip. ip\<lparr>i_size := 0\<rparr>) s)))"

section \<open>Dropping references\<close>

definition iput :: "nat \<Rightarrow> 'a fs_state_scheme \<Rightarrow> ('a fs_state_scheme, unit) outcome" where
  "iput i s =
     bindk (if i_ref (ino s i) = 1 \<and> i_valid (ino s i) \<and> i_nlink (ino s i) = 0
            then if i_busy (ino s i) then Panic ''iput busy''
                 else bindk (itrunc i (upd_inode i (\<lambda>ip. ip\<lparr>i_busy := True\<rparr>) s)) (\<lambda>_ s.
                      bindk (iupdate i (upd_inode i (\<lambda>ip. ip\<lparr>i_type := 0\<rparr>) s)) (\<lambda>_ s.
                        Ok () (wakeup (ChInode i)
                          (upd_inode i (\<lambda>ip. ip\<lparr>i_busy := False, i_valid := False\<rparr>) s))))
            else Ok () s) (\<lambda>_ s.
       Ok () (upd_inode i (\<lambda>ip. ip\<lparr>i_ref := i_ref ip - 1\<rparr>) s))"

definition iunlockput :: "nat \<Rightarrow> 'a fs_state_scheme \<Rightarrow> ('a fs_state_scheme, unit) outcome" where
  "iunlockput i s = bindk (iunlock (Some i) s) (\<lambda>_ s. iput i s)"

end
