(* ===== verification/Cstring.thy ===== *)
theory Cstring
  imports Sched
begin

text \<open>
  The memory and string routines of string.c (kernel) and ulib.c (user programs).

  The routines that take pointers work on byte memory. Loops that count down are structural
  recursion on the counter; \<open>strlen\<close> and \<open>strcpy\<close>, which stop only at a terminating zero, are partial
  functions. The second half gives the same routines on C strings taken as values: a byte list
  without its terminating zero.
\<close>

section \<open>string.c\<close>

text \<open>\<open>rep stosb\<close> and \<open>rep stosl\<close> (x86.h).\<close>

fun stosb :: "memory \<Rightarrow> uint \<Rightarrow> uchar \<Rightarrow> nat \<Rightarrow> memory" where
  "stosb m addr c 0 = m"
| "stosb m addr c (Suc n) = stosb (m(addr := c)) (addr + 1) c n"

fun stosl :: "memory \<Rightarrow> uint \<Rightarrow> uint \<Rightarrow> nat \<Rightarrow> memory" where
  "stosl m addr w 0 = m"
| "stosl m addr w (Suc n) = stosl (store32 m addr w) (addr + 4) w n"

definition memset :: "memory \<Rightarrow> uint \<Rightarrow> cint \<Rightarrow> uint \<Rightarrow> memory" where
  "memset m dst c n =
     (if dst mod 4 = 0 \<and> n mod 4 = 0
      then let c = c AND 0xFF
           in stosl m dst (push_bit 24 c OR push_bit 16 c OR push_bit 8 c OR c) (unat (n div 4))
      else stosb m dst (ucast c) (unat n))"

fun memcmp :: "memory \<Rightarrow> uint \<Rightarrow> uint \<Rightarrow> nat \<Rightarrow> cint" where
  "memcmp m s1 s2 0 = 0"
| "memcmp m s1 s2 (Suc n) =
     (if m s1 \<noteq> m s2 then ucast (m s1) - ucast (m s2) else memcmp m (s1 + 1) (s2 + 1) n)"

fun copy_up :: "memory \<Rightarrow> uint \<Rightarrow> uint \<Rightarrow> nat \<Rightarrow> memory" where
  "copy_up m d s 0 = m"
| "copy_up m d s (Suc n) = copy_up (m(d := m s)) (d + 1) (s + 1) n"

fun copy_down :: "memory \<Rightarrow> uint \<Rightarrow> uint \<Rightarrow> nat \<Rightarrow> memory" where
  "copy_down m d s 0 = m"
| "copy_down m d s (Suc n) = copy_down (m(d - 1 := m (s - 1))) (d - 1) (s - 1) n"

definition memmove :: "memory \<Rightarrow> uint \<Rightarrow> uint \<Rightarrow> uint \<Rightarrow> memory" where
  "memmove m d s n =
     (if s < d \<and> d < s + n then copy_down m (d + n) (s + n) (unat n) else copy_up m d s (unat n))"

definition memcpy :: "memory \<Rightarrow> uint \<Rightarrow> uint \<Rightarrow> uint \<Rightarrow> memory" where
  "memcpy m d s n = memmove m d s n"

fun strncmp :: "memory \<Rightarrow> uint \<Rightarrow> uint \<Rightarrow> nat \<Rightarrow> cint" where
  "strncmp m p q 0 = 0"
| "strncmp m p q (Suc n) =
     (if m p \<noteq> 0 \<and> m p = m q then strncmp m (p + 1) (q + 1) n else ucast (m p) - ucast (m q))"

text \<open>\<open>strncpy\<close>: the first loop stops after copying a zero, the second fills what is left.\<close>

fun strncpy_loop :: "memory \<Rightarrow> uint \<Rightarrow> uint \<Rightarrow> nat \<Rightarrow> memory" where
  "strncpy_loop m s t 0 = m"
| "strncpy_loop m s t (Suc n) =
     (let m' = m(s := m t) in if m t = 0 then stosb m' (s + 1) 0 n else strncpy_loop m' (s + 1) (t + 1) n)"

definition strncpy :: "memory \<Rightarrow> uint \<Rightarrow> uint \<Rightarrow> cint \<Rightarrow> memory" where
  "strncpy m s t n = strncpy_loop m s t (nat (sint n))"

fun safestrcpy_loop :: "memory \<Rightarrow> uint \<Rightarrow> uint \<Rightarrow> nat \<Rightarrow> memory" where
  "safestrcpy_loop m s t 0 = m(s := 0)"
| "safestrcpy_loop m s t (Suc n) =
     (let m' = m(s := m t) in if m t = 0 then m'(s + 1 := 0) else safestrcpy_loop m' (s + 1) (t + 1) n)"

definition safestrcpy :: "memory \<Rightarrow> uint \<Rightarrow> uint \<Rightarrow> cint \<Rightarrow> memory" where
  "safestrcpy m s t n = (if sint n \<le> 0 then m else safestrcpy_loop m s t (nat (sint n) - 1))"

partial_function (option) strlen_from :: "memory \<Rightarrow> uint \<Rightarrow> cint \<Rightarrow> cint option" where
  "strlen_from m s n = (if m (s + n) = 0 then Some n else strlen_from m s (n + 1))"

definition strlen :: "memory \<Rightarrow> uint \<Rightarrow> cint option" where
  "strlen m s = strlen_from m s 0"

section \<open>ulib.c\<close>

partial_function (option) strcpy :: "memory \<Rightarrow> uint \<Rightarrow> uint \<Rightarrow> memory option" where
  "strcpy m s t = (let m' = m(s := m t) in if m t = 0 then Some m' else strcpy m' (s + 1) (t + 1))"

partial_function (option) strcmp :: "memory \<Rightarrow> uint \<Rightarrow> uint \<Rightarrow> cint option" where
  "strcmp m p q =
     (if m p \<noteq> 0 \<and> m p = m q then strcmp m (p + 1) (q + 1) else Some (ucast (m p) - ucast (m q)))"

definition ulib_memset :: "memory \<Rightarrow> uint \<Rightarrow> cint \<Rightarrow> uint \<Rightarrow> memory" where
  "ulib_memset m dst c n = stosb m dst (ucast c) (unat n)"

definition ulib_memmove :: "memory \<Rightarrow> uint \<Rightarrow> uint \<Rightarrow> cint \<Rightarrow> memory" where
  "ulib_memmove m d s n = copy_up m d s (nat (sint n))"

partial_function (option) strchr :: "memory \<Rightarrow> uint \<Rightarrow> uchar \<Rightarrow> uint option" where
  "strchr m s c = (if m s = 0 then Some 0 else if m s = c then Some s else strchr m (s + 1) c)"

section \<open>C strings as values\<close>

text \<open>\<open>cstr m p xs\<close>: at address \<open>p\<close> stands the zero-terminated string \<open>xs\<close>.\<close>

primrec cstr :: "memory \<Rightarrow> uint \<Rightarrow> uchar list \<Rightarrow> bool" where
  "cstr m p [] \<longleftrightarrow> m p = 0"
| "cstr m p (x # xs) \<longleftrightarrow> m p = x \<and> x \<noteq> 0 \<and> cstr m (p + 1) xs"

text \<open>\<open>strncmp\<close> on values: reading at the end of a string gives the terminating zero.\<close>

fun strncmp_str :: "uchar list \<Rightarrow> uchar list \<Rightarrow> nat \<Rightarrow> cint" where
  "strncmp_str ps qs 0 = 0"
| "strncmp_str [] [] (Suc n) = 0"
| "strncmp_str (p # ps) [] (Suc n) = ucast p"
| "strncmp_str [] (q # qs) (Suc n) = - ucast q"
| "strncmp_str (p # ps) (q # qs) (Suc n) =
     (if p = q \<and> p \<noteq> 0 then strncmp_str ps qs n else ucast p - ucast q)"

text \<open>\<open>strncpy (dst, s, n)\<close> as the \<open>n\<close> bytes it leaves in the destination.\<close>

definition strncpy_str :: "uchar list \<Rightarrow> nat \<Rightarrow> uchar list" where
  "strncpy_str t n = take n t @ replicate (n - length t) 0"

text \<open>\<open>safestrcpy\<close> of the string \<open>t\<close> into an array of \<open>n > 0\<close> bytes that holds \<open>d\<close>.\<close>

definition safestrcpy_str :: "uchar list \<Rightarrow> uchar list \<Rightarrow> nat \<Rightarrow> uchar list" where
  "safestrcpy_str d t n = splice 0 (if length t < n - 1 then t @ [0, 0] else take (n - 1) t @ [0]) d"

text \<open>The string in an array of bytes, up to the first zero or the end of the array.\<close>

definition cstring :: "uchar list \<Rightarrow> uchar list" where
  "cstring d = takeWhile (\<lambda>c. c \<noteq> 0) d"

fun atoi_loop :: "uchar list \<Rightarrow> cint \<Rightarrow> cint" where
  "atoi_loop [] n = n"
| "atoi_loop (c # cs) n = (if 48 \<le> c \<and> c \<le> 57 then atoi_loop cs (n * 10 + ucast c - 48) else n)"

definition atoi :: "uchar list \<Rightarrow> cint" where
  "atoi s = atoi_loop s 0"

section \<open>Filling and copying\<close>

lemma unat_word_minus_one:
  fixes x :: uint
  assumes "x \<noteq> 0"
  shows "unat (x - 1) = unat x - 1"
  using assms by (rule unat_minus_one)

text \<open>The distance of an address from the start of a block decides whether it is in the block.\<close>

lemma unat_step:
  fixes a d :: uint
  assumes "n < 2 ^ 32"
  shows "unat (a - (d + 1)) < n \<longleftrightarrow> a \<noteq> d \<and> unat (a - d) < Suc n"
proof (cases "a = d")
  case True
  then have "a - (d + 1) = - 1" by simp
  moreover have "unat (- 1 :: uint) = 2 ^ 32 - 1"
    by (simp add: unsigned_minus_1_eq_mask mask_eq_exp_minus_1)
  ultimately show ?thesis
    using assms True by simp
next
  case False
  then have "a - d \<noteq> 0" by simp
  then have "unat (a - d - 1) = unat (a - d) - 1" and "0 < unat (a - d)"
    by (simp_all add: unat_word_minus_one unat_gt_0)
  moreover have "a - (d + 1) = a - d - 1" by simp
  ultimately show ?thesis
    using False by (simp only:) auto
qed

lemma stosb_at:
  "n \<le> 2 ^ 32 \<Longrightarrow> stosb m d c n a = (if unat (a - d) < n then c else m a)"
  by (induction n arbitrary: m d) (auto simp: unat_step)

lemma copy_up_at:
  "n \<le> 2 ^ 32 \<Longrightarrow> n \<le> unat (d - s) \<or> d = s \<Longrightarrow>
     copy_up m d s n a = (if unat (a - d) < n then m (s + (a - d)) else m a)"
proof (induction n arbitrary: m d s)
  case (Suc n)
  have IH: "copy_up (m(d := m s)) (d + 1) (s + 1) n a =
      (if unat (a - (d + 1)) < n then (m(d := m s)) (s + 1 + (a - (d + 1))) else (m(d := m s)) a)"
    using Suc.prems by (intro Suc.IH) auto
  have ne: "s + (a - d) \<noteq> d" if "a \<noteq> d" "unat (a - d) < Suc n"
  proof
    assume "s + (a - d) = d"
    then have "d - s = a - d" by (simp add: algebra_simps)
    then show False
      using that Suc.prems(2) by auto
  qed
  have "s + 1 + (a - (d + 1)) = s + (a - d)" by simp
  then show ?case
    using IH ne Suc.prems(1) by (auto simp: unat_step)
qed simp

lemma copy_down_at:
  "n \<le> 2 ^ 32 \<Longrightarrow> n \<le> unat (s - d) \<or> d = s \<Longrightarrow>
     copy_down m (d + of_nat n) (s + of_nat n) n a = (if unat (a - d) < n then m (s + (a - d)) else m a)"
proof (induction n arbitrary: m)
  case (Suc n)
  let ?d = "d + of_nat n" and ?s = "s + of_nat n"
  have IH: "copy_down (m(?d := m ?s)) ?d ?s n a =
      (if unat (a - d) < n then (m(?d := m ?s)) (s + (a - d)) else (m(?d := m ?s)) a)"
    using Suc.prems by (intro Suc.IH) auto
  have n: "unat (of_nat n :: uint) = n"
    using Suc.prems(1) by (simp add: unat_of_nat take_bit_nat_eq_self)
  have last: "unat (a - d) = n \<longleftrightarrow> a = ?d"
    using n by (auto simp: word_unat_eq_iff [of "a - d" "of_nat n"] simp flip: diff_eq_eq add.commute)
  have ne: "s + (a - d) \<noteq> ?d" if "unat (a - d) < n"
  proof
    assume "s + (a - d) = ?d"
    then have "s - d = of_nat n - (a - d)" by (simp add: algebra_simps)
    moreover have "unat (of_nat n - (a - d)) = n - unat (a - d)"
      using that n by (subst unat_sub) (auto simp: word_le_nat_alt)
    ultimately have "unat (s - d) \<le> n" by (metis diff_le_self)
    with Suc.prems(2) have "d = s" by auto
    with \<open>s + (a - d) = ?d\<close> have "a = ?d" by simp
    then show False using that last by simp
  qed
  have "copy_down m (d + of_nat (Suc n)) (s + of_nat (Suc n)) (Suc n) a =
      copy_down (m(?d := m ?s)) ?d ?s n a"
    by (simp add: algebra_simps)
  then show ?case
    using IH ne last by (auto simp: less_Suc_eq)
qed simp

lemma enc32_same:
  fixes c :: uint
  assumes "c = d AND 0xFF"
  shows "enc32 (push_bit 24 c OR push_bit 16 c OR push_bit 8 c OR c) = replicate 4 (ucast d)"
proof -
  have m: "(0xFF :: uint) = mask 8"
    by (simp add: mask_eq_exp_minus_1)
  have c: "bit c n \<longleftrightarrow> bit d n \<and> n < 8" for n
    by (auto simp: assms m bit_simps)
  have "ucast (drop_bit k (push_bit 24 c OR push_bit 16 c OR push_bit 8 c OR c)) = (ucast d :: uchar)"
    if "k \<in> {0, 8, 16, 24}" for k
    by (rule bit_word_eqI) (use that in \<open>auto simp: bit_simps c\<close>)
  from this [of 0] this [of 8] this [of 16] this [of 24] show ?thesis
    by (simp add: enc32_def numeral_eq_Suc)
qed

lemma store32_at:
  "enc32 w = replicate 4 c \<Longrightarrow> store32 m d w a = (if unat (a - d) < 4 then c else m a)"
proof -
  assume w: "enc32 w = replicate 4 c"
  have "unat x < 4 \<longleftrightarrow> x = 0 \<or> x = 1 \<or> x = 2 \<or> x = 3" for x :: uint
    unfolding word_unat_eq_iff by simp arith
  from this [of "a - d"]
  have "unat (a - d) < 4 \<longleftrightarrow> a = d \<or> a = d + 1 \<or> a = d + 2 \<or> a = d + 3"
    by (auto simp: diff_eq_eq add.commute)
  then show ?thesis
    using w by (auto simp: store32_def Let_def numeral_eq_Suc)
qed

lemma add_mod_once:
  fixes u k N :: nat
  assumes "u < N" "k \<le> N"
  shows "(u + k) mod N = (if u + k < N then u + k else u + k - N)"
  using assms by (simp add: le_mod_geq)

lemma stosl_at:
  assumes "enc32 w = replicate 4 c"
  shows "4 * n \<le> 2 ^ 32 \<Longrightarrow> stosl m d w n a = (if unat (a - d) < 4 * n then c else m a)"
proof (induction n arbitrary: m d)
  case (Suc n)
  have "a - d = (a - (d + 4)) + 4" by simp
  then have "unat (a - d) = (unat (a - (d + 4)) + 4) mod 2 ^ 32"
    by (simp only: unat_word_ariths) simp
  moreover have "unat (a - (d + 4)) < 2 ^ 32" "unat (a - d) < 2 ^ 32"
    using unsigned_less [of "a - (d + 4)", where ?'a = nat] unsigned_less [of "a - d", where ?'a = nat] by simp_all
  ultimately have "unat (a - d) < 4 * Suc n \<longleftrightarrow> unat (a - d) < 4 \<or> unat (a - (d + 4)) < 4 * n"
    using Suc.prems add_mod_once [of "unat (a - (d + 4))" "2 ^ 32" 4] by (auto split: if_splits)
  then show ?case
    using Suc by (simp add: store32_at [OF assms])
qed simp

text \<open>The two ways \<open>memset\<close> fills, by bytes and by words, both leave the block filled.\<close>

lemma memset_fill: "memset m d c n = fill m d (ucast c) n"
proof (rule ext)
  fix a
  show "memset m d c n a = fill m d (ucast c) n a"
  proof (cases "d mod 4 = 0 \<and> n mod 4 = 0")
    case True
    then have "unat n mod 4 = 0"
      using unat_mod [of n 4] by simp
    then have n: "unat n = 4 * unat (n div 4)"
      by (simp add: unat_div minus_mod_eq_mult_div [symmetric])
    have "enc32 (push_bit 24 (c AND 0xFF) OR push_bit 16 (c AND 0xFF) OR push_bit 8 (c AND 0xFF) OR (c AND 0xFF))
        = replicate 4 (ucast c)"
      by (rule enc32_same) simp
    note stosl_at [OF this, of "unat (n div 4)" m d a]
    then show ?thesis
      using True n unsigned_less [of n, where ?'a = nat]
      by (simp add: memset_def fill_def Let_def word_less_nat_alt)
  next
    case False
    then show ?thesis
      using stosb_at [of "unat n" m d "ucast c" a] unsigned_less [of n, where ?'a = nat]
      by (auto simp: memset_def fill_def word_less_nat_alt)
  qed
qed

lemma unat_sub_wrap:
  fixes a d :: uint
  assumes "a < d"
  shows "unat (a - d) + unat d = unat a + 2 ^ 32"
  using assms unat_sub_if' [of a d] unsigned_less [of d, where ?'a = nat]
  by (simp add: word_le_nat_alt word_less_nat_alt)

lemma in_block_iff:
  fixes a d :: uint
  assumes "unat d + n \<le> 2 ^ 32"
  shows "unat (a - d) < n \<longleftrightarrow> d \<le> a \<and> unat a < unat d + n"
proof (cases "d \<le> a")
  case True
  then show ?thesis
    by (auto simp: unat_sub word_le_nat_alt)
next
  case False
  then have "unat (a - d) + unat d = unat a + 2 ^ 32"
    using unat_sub_wrap [of a d] by (simp add: not_le)
  with assms False show ?thesis
    by linarith
qed

lemma memmove_at:
  assumes "unat s + unat n < 2 ^ 32" and "unat d + unat n \<le> 2 ^ 32"
  shows "memmove m d s n a = (if unat (a - d) < unat n then m (s + (a - d)) else m a)"
proof -
  have n: "unat n \<le> 2 ^ 32"
    using unsigned_less [of n, where ?'a = nat] by simp
  have sn: "unat (s + n) = unat s + unat n"
    using assms(1) by (simp add: unat_word_ariths)
  show ?thesis
  proof (cases "s < d \<and> d < s + n")
    case True
    then have "unat (s - d) + unat d = unat s + 2 ^ 32"
      by (intro unat_sub_wrap) simp
    with assms True have "unat n \<le> unat (s - d)"
      by linarith
    then show ?thesis
      using True copy_down_at [of "unat n" s d m a] n by (simp add: memmove_def)
  next
    case False
    have "unat n \<le> unat (d - s) \<or> d = s"
    proof (cases "s < d")
      case True
      with False sn show ?thesis
        by (auto simp: unat_sub word_le_nat_alt word_less_nat_alt)
    next
      case False
      then have "d = s \<or> unat (d - s) + unat s = unat d + 2 ^ 32"
        using unat_sub_wrap [of d s] by fastforce
      with assms show ?thesis
        by auto
    qed
    then show ?thesis
      using False copy_up_at [of "unat n" d s m a] n by (auto simp: memmove_def)
  qed
qed

text \<open>
  C28: The kernel's \<open>memmove\<close> (string.c) copies correctly even when the two blocks overlap: every byte of the
  destination gets the byte the source held before the call, and no other byte changes. The blocks
  must not reach past the end of the address space.
\<close>

theorem memmove_copies:
  assumes "unat s + unat n < 2 ^ 32" and "unat d + unat n \<le> 2 ^ 32"
  shows "memmove m d s n a = (if d \<le> a \<and> unat a < unat d + unat n then m (s + (a - d)) else m a)"
  using memmove_at [OF assms, of m a] in_block_iff [OF assms(2), of a] by simp

theorem memmove_copies_witness:
  "memmove (\<lambda>a. ucast a) 102 100 4 103 = 101 \<and> memmove (\<lambda>a. ucast a) 102 100 4 106 = 106"
  using memmove_copies [of 100 4 102 "\<lambda>a. ucast a" 103] memmove_copies [of 100 4 102 "\<lambda>a. ucast a" 106]
  by simp

text \<open>The user library's \<open>memmove\<close> only copies upwards, so that a shift by one to the right repeats the first byte.\<close>

lemma ulib_memmove_smears:
  "ulib_memmove m (s + 1) s 2 (s + 2) = m s"
  by (simp add: ulib_memmove_def numeral_eq_Suc)

section \<open>Strings\<close>

lemma strncmp_cstr: "cstr m p ps \<Longrightarrow> cstr m q qs \<Longrightarrow> strncmp m p q n = strncmp_str ps qs n"
  by (induction ps qs n arbitrary: p q rule: strncmp_str.induct) auto

lemma strlen_from_cstr:
  "cstr m (s + n) xs \<Longrightarrow> strlen_from m s n = Some (n + of_nat (length xs))"
proof (induction xs arbitrary: n)
  case Nil
  then show ?case
    by (subst strlen_from.simps) simp
next
  case (Cons x xs)
  then have "strlen_from m s (n + 1) = Some (n + 1 + of_nat (length xs))"
    by (intro Cons.IH) (simp add: add.assoc)
  then show ?case
    using Cons.prems by (subst strlen_from.simps) (simp add: algebra_simps)
qed

lemma strlen_cstr: "cstr m s xs \<Longrightarrow> strlen m s = Some (of_nat (length xs))"
  using strlen_from_cstr [of m s 0 xs] by (simp add: strlen_def)

lemma cstr_cong: "(\<And>i. i \<le> length xs \<Longrightarrow> m' (p + of_nat i) = m (p + of_nat i)) \<Longrightarrow> cstr m' p xs = cstr m p xs"
proof (induction xs arbitrary: p)
  case (Cons x xs)
  have "cstr m' (p + 1) xs = cstr m (p + 1) xs"
    using Cons.prems [of "Suc i" for i] by (intro Cons.IH) (simp add: algebra_simps)
  moreover have "m' p = m p"
    using Cons.prems [of 0] by simp
  ultimately show ?case by simp
next
  case Nil
  show ?case using Nil [of 0] by simp
qed

text \<open>Two blocks of bytes that do not meet.\<close>

definition apart :: "uint \<Rightarrow> nat \<Rightarrow> uint \<Rightarrow> nat \<Rightarrow> bool" where
  "apart s k t l \<longleftrightarrow> (\<forall>i<k. \<forall>j<l. s + of_nat i \<noteq> t + of_nat j)"

lemma apart_Suc:
  assumes "apart s (Suc k) t (Suc l)"
  shows "apart (s + 1) k (t + 1) l" "j \<le> l \<Longrightarrow> s \<noteq> t + of_nat j"
proof -
  have *: "s + of_nat i \<noteq> t + of_nat j" if "i < Suc k" "j < Suc l" for i j
    using assms that unfolding apart_def by blast
  show "apart (s + 1) k (t + 1) l"
    unfolding apart_def
  proof (intro allI impI)
    fix i j assume "i < k" "j < l"
    then show "s + 1 + of_nat i \<noteq> t + 1 + of_nat j"
      using * [of "Suc i" "Suc j"] by (simp add: algebra_simps)
  qed
  show "s \<noteq> t + of_nat j" if "j \<le> l"
    using * [of 0 j] that by simp
qed

lemma safestrcpy_loop_cstr:
  assumes "cstr m t xs" and "apart s (Suc k) t (Suc (length xs))" and "k < 2 ^ 31"
  shows "cstr (safestrcpy_loop m s t k) s (take k xs) \<and>
    (\<forall>a. \<not> unat (a - s) \<le> k \<longrightarrow> safestrcpy_loop m s t k a = m a)"
  using assms
proof (induction k arbitrary: m s t xs)
  case 0
  then show ?case by (auto)
next
  case (Suc k)
  show ?case
  proof (cases xs)
    case Nil
    then show ?thesis
      using Suc.prems by (auto simp: Let_def)
  next
    case (Cons x ys)
    let ?m = "m(s := x)"
    have t: "m t = x" "x \<noteq> 0" "cstr m (t + 1) ys"
      using Suc.prems Cons by auto
    have ap: "apart s (Suc (Suc k)) t (Suc (Suc (length ys)))"
      using Suc.prems Cons by simp
    have "t + 1 + of_nat i \<noteq> s" if "i \<le> length ys" for i
      using apart_Suc(2) [OF ap, of "Suc i"] that by (auto simp: algebra_simps)
    then have "cstr ?m (t + 1) ys = cstr m (t + 1) ys"
      by (intro cstr_cong) auto
    with t have "cstr ?m (t + 1) ys" by simp
    moreover have "apart (s + 1) (Suc k) (t + 1) (Suc (length ys))"
      by (rule apart_Suc(1) [OF ap])
    moreover have "k < 2 ^ 31"
      using Suc.prems by simp
    ultimately have "cstr (safestrcpy_loop ?m (s + 1) (t + 1) k) (s + 1) (take k ys) \<and>
        (\<forall>a. \<not> unat (a - (s + 1)) \<le> k \<longrightarrow> safestrcpy_loop ?m (s + 1) (t + 1) k a = ?m a)"
      by (rule Suc.IH)
    then have IH: "cstr (safestrcpy_loop ?m (s + 1) (t + 1) k) (s + 1) (take k ys)"
      "\<And>a. \<not> unat (a - (s + 1)) \<le> k \<Longrightarrow> safestrcpy_loop ?m (s + 1) (t + 1) k a = ?m a"
      by blast+
    have "\<not> unat (s - (s + 1)) \<le> k"
      using unat_step [of "Suc k" s s] Suc.prems by (simp add: less_Suc_eq_le)
    then have s: "safestrcpy_loop ?m (s + 1) (t + 1) k s = x"
      using IH(2) by simp
    have "\<not> unat (a - (s + 1)) \<le> k" "a \<noteq> s" if "\<not> unat (a - s) \<le> Suc k" for a
      using unat_step [of "Suc k" a s] Suc.prems that by (auto simp: less_Suc_eq_le)
    then show ?thesis
      using Cons t IH s by (auto simp: Let_def)
  qed
qed

text \<open>
  C29: \<open>safestrcpy\<close> (string.c) always leaves a terminated string: for a size \<open>n > 0\<close> and a source outside the
  destination, the destination holds the first \<open>n - 1\<close> characters of the source and a terminating
  zero, and nothing outside the \<open>n\<close> bytes of the destination is written.
\<close>

theorem safestrcpy_terminates:
  assumes "cstr m t xs" and "0 < sint n" and "apart s (nat (sint n)) t (Suc (length xs))"
  shows "cstr (safestrcpy m s t n) s (take (nat (sint n) - 1) xs) \<and>
    (\<forall>a. \<not> unat (a - s) < nat (sint n) \<longrightarrow> safestrcpy m s t n a = m a)"
proof -
  define k where "k = nat (sint n) - 1"
  then have k: "nat (sint n) = Suc k" "k < 2 ^ 31"
    using assms(2) sint_lt [of n] by (simp_all add: nat_diff_distrib' nat_less_iff)
  then have "safestrcpy m s t n = safestrcpy_loop m s t k"
    using assms(2) by (simp add: safestrcpy_def)
  then show ?thesis
    using safestrcpy_loop_cstr [OF assms(1) _ k(2), of s] assms(3) k(1) by (simp add: less_Suc_eq_le)
qed

text \<open>Copying "init" from address 32 into 4 bytes at address 0 leaves "ini".\<close>

theorem safestrcpy_terminates_witness:
  "cstr (safestrcpy ((\<lambda>_. 0)(32 := 105, 33 := 110, 34 := 105, 35 := 116)) 0 32 4) 0 [105, 110, 105]"
proof -
  let ?m = "(\<lambda>_. 0 :: uchar)(32 := 105, 33 := 110, 34 := 105, 35 := 116)"
  have "apart 0 (nat (sint (4 :: cint))) 32 (Suc (length [105, 110, 105, 116 :: uchar]))"
    unfolding apart_def
  proof (intro allI impI)
    fix i j assume "i < nat (sint (4 :: cint))" "j < Suc (length [105, 110, 105, 116 :: uchar])"
    then have "unat (0 + of_nat i :: uint) = i" "unat (32 + of_nat j :: uint) = 32 + j" "i < 4"
      by (simp_all add: unat_word_ariths unat_of_nat)
    then show "0 + of_nat i \<noteq> (32 + of_nat j :: uint)"
      by (metis add_lessD1 not_add_less1 numeral_less_iff less_trans semiring_norm)
  qed
  then have "cstr (safestrcpy ?m 0 32 4) 0 (take (nat (sint (4 :: cint)) - 1) [105, 110, 105, 116])"
    using safestrcpy_terminates [of ?m 32 "[105, 110, 105, 116]" 4 0] by simp
  then show ?thesis by simp
qed

end
