(* ===== verification/Console.thy ===== *)
theory Console
  imports Inode Cstring
begin

text \<open>
  The console: console.c over the serial port (uart.c) and the CGA text screen, and the decoding
  of keyboard scan codes (kbd.c, kbd.h).

  \<open>crt\<close> is the text memory at 0xb8000 and \<open>crt_pos\<close> the cursor register of the video controller, in
  two port bytes. Bytes sent to the serial port are collected in \<open>uart_out\<close>; the wait for the port
  to drain in \<open>uartputc\<close> is bounded and changes nothing. The characters that \<open>getc\<close> yields to
  \<open>consoleintr\<close> before it returns a negative number are a list argument. \<open>procdump\<close> only prints.
  The critical sections of \<open>cons.lock\<close> are atomic.
\<close>

text \<open>The functions that the fields of \<open>struct devsw\<close> can point to; \<open>None\<close> is the null pointer.\<close>

datatype read_fn = Consoleread
datatype write_fn = Consolewrite

record devsw_entry =
  dev_read :: "read_fn option"
  dev_write :: "write_fn option"

record cons_state = fs_state +
  panicked :: bool
  cons_locking :: bool
  crt :: "nat \<Rightarrow> ushort"
  crt_pos :: ushort
  uart_on :: bool
  uart_out :: "uchar list"
  in_buf :: "uchar list"
  in_r :: uint
  in_w :: uint
  in_e :: uint
  devsw :: "devsw_entry list"

definition BACKSPACE :: cint where "BACKSPACE = 0x100"
definition INPUT_BUF :: nat where "INPUT_BUF = 128"
definition NDEV :: nat where "NDEV = 10"
definition CONSOLE :: nat where "CONSOLE = 1"

section \<open>Output\<close>

definition uartputc :: "cint \<Rightarrow> 'a cons_state_scheme \<Rightarrow> 'a cons_state_scheme" where
  "uartputc c s = (if uart_on s then s\<lparr>uart_out := uart_out s @ [ucast c]\<rparr> else s)"

text \<open>The screen memory and the position after a character, and the scrolling of a full screen.\<close>

definition cga_put :: "cint \<Rightarrow> (nat \<Rightarrow> ushort) \<Rightarrow> nat \<Rightarrow> (nat \<Rightarrow> ushort) \<times> nat" where
  "cga_put c m pos =
     (if c = 10 then (m, pos + (80 - pos mod 80))
      else if c = BACKSPACE then (m, if pos > 0 then pos - 1 else pos)
      else (m(pos := (ucast c AND 0xff) OR 0x0700), pos + 1))"

definition cga_scroll :: "(nat \<Rightarrow> ushort) \<Rightarrow> nat \<Rightarrow> (nat \<Rightarrow> ushort) \<times> nat" where
  "cga_scroll m pos =
     (if pos div 80 \<ge> 24
      then let m = (\<lambda>k. if k < 23 * 80 then m (k + 80) else m k);
               pos = pos - 80
           in (\<lambda>k. if pos \<le> k \<and> k < 24 * 80 then 0 else m k, pos)
      else (m, pos))"

definition cgaputc :: "cint \<Rightarrow> 'a cons_state_scheme \<Rightarrow> ('a cons_state_scheme, unit) outcome" where
  "cgaputc c s =
     (let (m, pos) = cga_put c (crt s) (unat (crt_pos s))
      in if pos > 25 * 80 then Panic ''pos under/overflow''
         else let (m, pos) = cga_scroll m pos
              in Ok () (s\<lparr>crt_pos := of_nat pos, crt := m(pos := 0x0720)\<rparr>))"

definition consputc :: "cint \<Rightarrow> 'a cons_state_scheme \<Rightarrow> ('a cons_state_scheme, unit) outcome" where
  "consputc c s =
     (if panicked s then Spin
      else cgaputc c (if c = BACKSPACE then uartputc 8 (uartputc 32 (uartputc 8 s)) else uartputc c s))"

fun consputs :: "cint list \<Rightarrow> 'a cons_state_scheme \<Rightarrow> ('a cons_state_scheme, unit) outcome" where
  "consputs [] s = Ok () s"
| "consputs (c # cs) s = bindk (consputc c s) (\<lambda>_ s. consputs cs s)"

subsection \<open>printint and cprintf\<close>

text \<open>
  The digits are produced from the least significant one (\<open>buf\<close>) and printed in reverse. The base is
  10 or 16 at every call.
\<close>

definition digit_char :: "uchar list \<Rightarrow> uint \<Rightarrow> uint \<Rightarrow> uchar" where
  "digit_char digits base x = digits ! unat (x mod base)"

function print_digits :: "uchar list \<Rightarrow> uint \<Rightarrow> uint \<Rightarrow> uchar list" where
  "print_digits digits base x =
     digit_char digits base x #
       (if base \<le> 1 \<or> x div base = 0 then [] else print_digits digits base (x div base))"
  by auto
termination
proof (relation "measure (\<lambda>(_, base, x). unat x)", goal_cases)
  case (2 digits base x)
  then have "1 < unat base" and "0 < unat x"
    by (auto simp: not_le word_less_nat_alt unat_gt_0)
  then show ?case
    by (simp add: unat_div)
qed simp

declare print_digits.simps [simp del]

definition lower_digits :: "uchar list" where
  "lower_digits = [48, 49, 50, 51, 52, 53, 54, 55, 56, 57, 97, 98, 99, 100, 101, 102]"

definition printint_str :: "uchar list \<Rightarrow> cint \<Rightarrow> uint \<Rightarrow> bool \<Rightarrow> uchar list" where
  "printint_str digits xx base sg =
     (let neg = sg \<and> sint xx < 0;
          x = (if neg then - xx else xx);
          buf = print_digits digits base x;
          buf = (if neg then buf @ [45] else buf)
      in rev buf)"

definition printint :: "cint \<Rightarrow> uint \<Rightarrow> bool \<Rightarrow> 'a cons_state_scheme \<Rightarrow> ('a cons_state_scheme, unit) outcome" where
  "printint xx base sg s = consputs (map ucast (printint_str lower_digits xx base sg)) s"

text \<open>An argument of \<open>cprintf\<close>: a word, or a string pointer with the string it points to.\<close>

datatype fmt_arg = ArgInt uint | ArgStr "uchar list option"

definition null_string :: "uchar list" where
  "null_string = [40, 110, 117, 108, 108, 41]"

fun cprintf_loop :: "uchar list \<Rightarrow> fmt_arg list \<Rightarrow> 'a cons_state_scheme \<Rightarrow> ('a cons_state_scheme, unit) outcome" where
  "cprintf_loop [] args s = Ok () s"
| "cprintf_loop [c] args s = (if c \<noteq> 37 then consputc (ucast c) s else Ok () s)"
| "cprintf_loop (c # d # fmt) args s =
     (if c \<noteq> 37 then bindk (consputc (ucast c) s) (\<lambda>_ s. cprintf_loop (d # fmt) args s)
      else if d = 100
      then (case args of
              ArgInt x # args \<Rightarrow> bindk (printint x 10 True s) (\<lambda>_ s. cprintf_loop fmt args s)
            | _ \<Rightarrow> undef)
      else if d = 120 \<or> d = 112
      then (case args of
              ArgInt x # args \<Rightarrow> bindk (printint x 16 False s) (\<lambda>_ s. cprintf_loop fmt args s)
            | _ \<Rightarrow> undef)
      else if d = 115
      then (case args of
              ArgStr p # args \<Rightarrow>
                bindk (consputs (map scast (case p of None \<Rightarrow> null_string | Some str \<Rightarrow> str)) s) (\<lambda>_ s.
                  cprintf_loop fmt args s)
            | _ \<Rightarrow> undef)
      else if d = 37 then bindk (consputc 37 s) (\<lambda>_ s. cprintf_loop fmt args s)
      else bindk (consputc 37 s) (\<lambda>_ s. bindk (consputc (ucast d) s) (\<lambda>_ s. cprintf_loop fmt args s)))"

definition cprintf :: "uchar list option \<Rightarrow> fmt_arg list \<Rightarrow> 'a cons_state_scheme \<Rightarrow> ('a cons_state_scheme, unit) outcome" where
  "cprintf fmt args s =
     (case fmt of None \<Rightarrow> Panic ''null fmt'' | Some fmt \<Rightarrow> cprintf_loop fmt args s)"

section \<open>Input\<close>

text \<open>
  Kill line: erase back to the previous newline or the start of the edited line. There are \<open>e - w\<close>
  characters to erase at most, which bounds the loop.
\<close>

fun kill_line :: "nat \<Rightarrow> 'a cons_state_scheme \<Rightarrow> ('a cons_state_scheme, unit) outcome" where
  "kill_line 0 s = Ok () s"
| "kill_line (Suc k) s =
     (if in_e s \<noteq> in_w s \<and> in_buf s ! (unat (in_e s - 1) mod INPUT_BUF) \<noteq> 10
      then bindk (consputc BACKSPACE (s\<lparr>in_e := in_e s - 1\<rparr>)) (\<lambda>_ s. kill_line k s)
      else Ok () s)"

definition console_char :: "cint \<Rightarrow> 'a cons_state_scheme \<Rightarrow> ('a cons_state_scheme, unit) outcome" where
  "console_char c s =
     (if c = 0x10 then Ok () s
      else if c = 0x15 then kill_line (unat (in_e s - in_w s)) s
      else if c = 8 \<or> c = 0x7f
      then if in_e s \<noteq> in_w s then consputc BACKSPACE (s\<lparr>in_e := in_e s - 1\<rparr>) else Ok () s
      else if c \<noteq> 0 \<and> in_e s - in_r s < of_nat INPUT_BUF
      then let c = (if c = 13 then 10 else c)
           in bindk (consputc c (s\<lparr>in_buf := (in_buf s)[unat (in_e s) mod INPUT_BUF := ucast c],
                                   in_e := in_e s + 1\<rparr>)) (\<lambda>_ s.
                if c = 10 \<or> c = 4 \<or> in_e s = in_r s + of_nat INPUT_BUF
                then Ok () (wakeup ChInput (s\<lparr>in_w := in_e s\<rparr>))
                else Ok () s)
      else Ok () s)"

fun consoleintr :: "cint list \<Rightarrow> 'a cons_state_scheme \<Rightarrow> ('a cons_state_scheme, unit) outcome" where
  "consoleintr [] s = Ok () s"
| "consoleintr (c # cs) s = bindk (console_char c s) (\<lambda>_ s. consoleintr cs s)"

text \<open>
  \<open>consoleread\<close> with \<open>n\<close> characters still wanted and \<open>acc\<close> stored. It yields the value returned and
  the bytes stored.
\<close>

fun consoleread_loop :: "nat \<Rightarrow> nat \<Rightarrow> uchar list \<Rightarrow> nat \<Rightarrow> 'a cons_state_scheme \<Rightarrow>
    ('a cons_state_scheme, cint \<times> uchar list) outcome" where
  "consoleread_loop ip target acc 0 s = bindk (ilock (Some ip) s) (\<lambda>_ s. Ok (of_nat target, acc) s)"
| "consoleread_loop ip target acc (Suc n) s =
     (if in_r s = in_w s
      then (case cur s of
              None \<Rightarrow> undef
            | Some p \<Rightarrow>
                if p_killed (procs s ! p) then bindk (ilock (Some ip) s) (\<lambda>_ s. Ok (- 1, acc) s)
                else sleep ChInput s)
      else let c = in_buf s ! (unat (in_r s) mod INPUT_BUF);
               s = s\<lparr>in_r := in_r s + 1\<rparr>
           in if c = 4
              then let s = (if Suc n < target then s\<lparr>in_r := in_r s - 1\<rparr> else s)
                   in bindk (ilock (Some ip) s) (\<lambda>_ s. Ok (of_nat (target - Suc n), acc) s)
              else if c = 10
              then bindk (ilock (Some ip) s) (\<lambda>_ s. Ok (of_nat (target - n), acc @ [c]) s)
              else consoleread_loop ip target (acc @ [c]) n s)"

definition consoleread :: "nat \<Rightarrow> cint \<Rightarrow> 'a cons_state_scheme \<Rightarrow> ('a cons_state_scheme, cint \<times> uchar list) outcome" where
  "consoleread ip n s =
     bindk (iunlock (Some ip) s) (\<lambda>_ s. consoleread_loop ip (nat (sint n)) [] (nat (sint n)) s)"

definition consolewrite :: "nat \<Rightarrow> uchar list \<Rightarrow> cint \<Rightarrow> 'a cons_state_scheme \<Rightarrow> ('a cons_state_scheme, cint) outcome" where
  "consolewrite ip buf n s =
     bindk (iunlock (Some ip) s) (\<lambda>_ s.
     bindk (consputs (map ucast (take (nat (sint n)) buf)) s) (\<lambda>_ s.
     bindk (ilock (Some ip) s) (\<lambda>_ s. Ok n s)))"

definition consoleinit :: "'a cons_state_scheme \<Rightarrow> 'a cons_state_scheme" where
  "consoleinit s =
     s\<lparr>devsw := (devsw s)[CONSOLE := (devsw s ! CONSOLE)\<lparr>dev_write := Some Consolewrite, dev_read := Some Consoleread\<rparr>],
       cons_locking := True\<rparr>"

section \<open>Serial port\<close>

definition uartinit :: "uchar \<Rightarrow> 'a cons_state_scheme \<Rightarrow> 'a cons_state_scheme" where
  "uartinit status s =
     (if status = 0xFF then s
      else foldl (\<lambda>s c. uartputc c s) (s\<lparr>uart_on := True\<rparr>) [120, 118, 54, 46, 46, 46, 10])"

definition uartintr :: "uchar list \<Rightarrow> 'a cons_state_scheme \<Rightarrow> ('a cons_state_scheme, unit) outcome" where
  "uartintr input s = (if uart_on s then consoleintr (map ucast input) s else consoleintr [] s)"

section \<open>A concrete state\<close>

definition cons_zero :: "drives \<Rightarrow> cons_state" where
  "cons_zero d = fs_state.extend (fs_zero d)
     (cons_state.fields False False (\<lambda>_. 0) 0 False [] (replicate INPUT_BUF 0) 0 0 0
       (replicate NDEV \<lparr>dev_read = None, dev_write = None\<rparr>))"

lemma cons_zero_fields [simp]:
  "panicked (cons_zero d) = False" "crt_pos (cons_zero d) = 0" "in_buf (cons_zero d) = replicate INPUT_BUF 0"
  "in_r (cons_zero d) = 0" "in_w (cons_zero d) = 0" "in_e (cons_zero d) = 0"
  "devsw (cons_zero d) = replicate NDEV \<lparr>dev_read = None, dev_write = None\<rparr>"
  by (simp_all add: cons_zero_def fs_state.defs cons_state.defs)

section \<open>The screen\<close>

text \<open>The cursor is in the first 24 of the 25 lines of the screen.\<close>

definition screen_ok :: "'a cons_state_scheme \<Rightarrow> bool" where
  "screen_ok s \<longleftrightarrow> unat (crt_pos s) < 24 * 80"

text \<open>What console output may change: the screen and what was sent to the serial port.\<close>

definition printed :: "'a cons_state_scheme \<Rightarrow> 'a cons_state_scheme \<Rightarrow> bool" where
  "printed s s' \<longleftrightarrow> (\<exists>m p u. s' = s\<lparr>crt := m, crt_pos := p, uart_out := u\<rparr>)"

lemma printed_refl [simp]: "printed s s"
  unfolding printed_def by (intro exI [of _ "crt s"] exI [of _ "crt_pos s"] exI [of _ "uart_out s"]) simp

lemma printed_trans: "printed s s' \<Longrightarrow> printed s' s'' \<Longrightarrow> printed s s''"
  unfolding printed_def by (elim exE) (simp, metis)

lemma printed_fields [simp]:
  assumes "printed s s'"
  shows "in_buf s' = in_buf s" "in_r s' = in_r s" "in_w s' = in_w s" "in_e s' = in_e s" "panicked s' = panicked s"
    "procs s' = procs s" "cur s' = cur s" "icache s' = icache s" "bufs s' = bufs s"
  using assms by (auto simp: printed_def)

lemma newline_pos:
  fixes pos :: nat
  assumes "pos < 1920"
  shows "pos + (80 - pos mod 80) \<le> 1920"
proof -
  have "pos div 80 < 24" using assms by simp
  moreover have "pos = 80 * (pos div 80) + pos mod 80" by simp
  moreover have "pos mod 80 < 80" by simp
  ultimately show ?thesis by linarith
qed

lemma cga_put_bound:
  assumes "pos < 1920" and "cga_put c m pos = (m', pos')"
  shows "pos' \<le> 1920" "\<forall>k\<ge>1920. m' k = m k"
  using assms newline_pos [OF assms(1)] by (auto simp: cga_put_def split: if_splits)

lemma cga_scroll_bound:
  assumes "pos \<le> 1920" and "cga_scroll m pos = (m', pos')"
  shows "pos' < 1920" "\<forall>k\<ge>1920. m' k = m k"
  using assms by (auto simp: cga_scroll_def Let_def split: if_splits)

lemma cgaputc_ok:
  assumes "screen_ok s"
  shows "ok (cgaputc c s) (\<lambda>_ s'. screen_ok s' \<and> printed s s' \<and> (\<forall>k\<ge>24 * 80. crt s' k = crt s k))"
proof -
  obtain m p where 1: "cga_put c (crt s) (unat (crt_pos s)) = (m, p)" by fastforce
  obtain m' p' where 2: "cga_scroll m p = (m', p')" by fastforce
  have p: "p \<le> 1920" "\<forall>k\<ge>1920. m k = crt s k"
    using cga_put_bound [OF _ 1] assms by (simp_all add: screen_ok_def)
  have p': "p' < 1920" "\<forall>k\<ge>1920. m' k = m k"
    using cga_scroll_bound [OF p(1) 2] by simp_all
  have "cgaputc c s = Ok () (s\<lparr>crt_pos := of_nat p', crt := m'(p' := 0x0720)\<rparr>)"
    using 1 2 p(1) by (simp add: cgaputc_def)
  moreover have "printed s (s\<lparr>crt_pos := of_nat p', crt := m'(p' := 0x0720)\<rparr>)"
    unfolding printed_def by (intro exI [of _ "m'(p' := 0x0720)"] exI [of _ "of_nat p'"] exI [of _ "uart_out s"]) simp
  ultimately show ?thesis
    using p p' by (simp add: ok_def screen_ok_def unat_of_nat)
qed

lemma printed_uartputc [simp]: "printed s (uartputc c s)"
  unfolding printed_def uartputc_def
  by (intro exI [of _ "crt s"] exI [of _ "crt_pos s"] exI [of _ "if uart_on s then uart_out s @ [ucast c] else uart_out s"])
    simp

lemma uartputc_screen [simp]: "crt (uartputc c s) = crt s" "crt_pos (uartputc c s) = crt_pos s"
  by (simp_all add: uartputc_def)

lemma consputc_ok:
  assumes "screen_ok s" and "\<not> panicked s"
  shows "ok (consputc c s) (\<lambda>_ s'. screen_ok s' \<and> printed s s' \<and> (\<forall>k\<ge>24 * 80. crt s' k = crt s k))"
proof -
  let ?u = "if c = BACKSPACE then uartputc 8 (uartputc 32 (uartputc 8 s)) else uartputc c s"
  have u: "printed s ?u"
    by (auto intro: printed_trans [OF printed_trans [OF printed_uartputc printed_uartputc] printed_uartputc])
  have s: "screen_ok ?u" and c: "crt ?u = crt s"
    using assms(1) by (simp_all add: screen_ok_def)
  have "consputc c s = cgaputc c ?u"
    using assms(2) by (simp add: consputc_def)
  moreover have "ok (cgaputc c ?u) (\<lambda>_ s'. screen_ok s' \<and> printed s s' \<and> (\<forall>k\<ge>24 * 80. crt s' k = crt s k))"
    by (rule ok_mono [OF cgaputc_ok [OF s, of c]]) (elim conjE, intro conjI, assumption, erule printed_trans [OF u], simp only: c)
  ultimately show ?thesis by simp
qed

lemma consputs_ok:
  "screen_ok s \<Longrightarrow> \<not> panicked s \<Longrightarrow>
     ok (consputs cs s) (\<lambda>_ s'. screen_ok s' \<and> printed s s' \<and> (\<forall>k\<ge>24 * 80. crt s' k = crt s k))"
proof (induction cs arbitrary: s)
  case Nil
  then show ?case by (simp add: ok_def)
next
  case (Cons c cs)
  have "ok (consputs cs s') (\<lambda>_ s''. screen_ok s'' \<and> printed s s'' \<and> (\<forall>k\<ge>24 * 80. crt s'' k = crt s k))"
    if "screen_ok s' \<and> printed s s' \<and> (\<forall>k\<ge>24 * 80. crt s' k = crt s k)" for s'
    by (rule ok_mono [OF Cons.IH [of s']]) (use that Cons.prems in \<open>auto intro: printed_trans\<close>)
  then show ?case
    unfolding consputs.simps ok_bindk by (rule ok_mono [OF consputc_ok [OF Cons.prems, of c]])
qed

text \<open>
  C27: Console output never leaves the screen: from a state whose cursor is in the first 24 lines,
  printing any sequence of characters (newlines and backspaces included) does not panic with
  "pos under/overflow", keeps the cursor in the first 24 lines, writes only to the first 24 * 80
  cells of the text memory, and changes nothing but the screen and the serial output.
\<close>

theorem console_output_in_bounds:
  assumes "screen_ok s" and "\<not> panicked s"
  shows "\<exists>s'. consputs cs s = Ok () s' \<and> screen_ok s' \<and> printed s s' \<and> (\<forall>k\<ge>24 * 80. crt s' k = crt s k)"
  using consputs_ok [OF assms, of cs] by (auto simp: ok_def split: outcome.splits)

theorem console_output_in_bounds_witness:
  "\<exists>s'. consputs (replicate 5000 120 @ [10, BACKSPACE]) (cons_zero (\<lambda>_ _. [])) = Ok () s' \<and> screen_ok s'"
  using console_output_in_bounds [of "cons_zero (\<lambda>_ _. [])" "replicate 5000 120 @ [10, BACKSPACE]"]
  by (auto simp: screen_ok_def)

end
