(* ===== verification/Inode_Data.thy ===== *)
theory Inode_Data
  imports Console
begin

text \<open>
  The data of a file (fs.c): \<open>stati\<close>, \<open>readi\<close> and \<open>writei\<close>. A destination buffer is the list of bytes
  stored there, next to the value returned; a source buffer is the list of its bytes.
\<close>

record stat =
  st_type :: ushort
  st_dev :: cint
  st_ino :: uint
  st_nlink :: ushort
  st_size :: uint
  st_prti :: cint

definition stati :: "nat \<Rightarrow> 'a cons_state_scheme \<Rightarrow> ('a cons_state_scheme, stat) outcome" where
  "stati i s =
     (case i_prt (ino s i) of
        None \<Rightarrow> undef
      | Some p \<Rightarrow>
          if p < length (partitions s)
          then Ok \<lparr>st_type = i_type (ino s i), st_dev = pt_dev (partitions s ! p), st_ino = i_inum (ino s i),
                   st_nlink = i_nlink (ino s i), st_size = i_size (ino s i), st_prti = of_nat p\<rparr> s
          else undef)"

text \<open>The bytes of the current block that one round of the copy loop takes: at least one.\<close>

definition chunk :: "nat \<Rightarrow> uint \<Rightarrow> nat" where
  "chunk left off = min left (BSIZE - unat off mod BSIZE)"

lemma chunk_pos: "0 < left \<Longrightarrow> 0 < chunk left off"
  by (simp add: chunk_def BSIZE_def)

text \<open>The copy loop of \<open>readi\<close>, with \<open>left = n - tot\<close> bytes to go.\<close>

function readi_loop :: "nat \<Rightarrow> uint \<Rightarrow> nat \<Rightarrow> 'a cons_state_scheme \<Rightarrow> ('a cons_state_scheme, uchar list) outcome" where
  "readi_loop i off left s =
     (if left = 0 then Ok [] s
      else bindk (bmap i (off div of_nat BSIZE) s) (\<lambda>addr s.
             case part_at (i_prt (ino s i)) s of
               None \<Rightarrow> undef
             | Some part \<Rightarrow>
                 bindk (bread (pt_dev part) addr s) (\<lambda>bp s.
                   let m = chunk left off;
                       bs = slice (unat off mod BSIZE) m (bdata s bp)
                   in bindk (brelse bp s) (\<lambda>_ s.
                      bindk (readi_loop i (off + of_nat m) (left - m) s) (\<lambda>rest s. Ok (bs @ rest) s)))))"
  by auto
termination
  by (relation "measure (\<lambda>(i, off, left, s). left)") (auto simp: chunk_pos)

declare readi_loop.simps [simp del]

definition readi :: "nat \<Rightarrow> uint \<Rightarrow> uint \<Rightarrow> 'a cons_state_scheme \<Rightarrow> ('a cons_state_scheme, cint \<times> uchar list) outcome" where
  "readi i off n s =
     (let ip = ino s i
      in if i_type ip = T_DEV
         then if sint (i_major ip) < 0 \<or> sint (i_major ip) \<ge> int NDEV then Ok (- 1, []) s
              else (case dev_read (devsw s ! unat (i_major ip)) of
                      None \<Rightarrow> Ok (- 1, []) s
                    | Some Consoleread \<Rightarrow> consoleread i n s)
         else if off > i_size ip \<or> off + n < off then Ok (- 1, []) s
         else let n = (if off + n > i_size ip then i_size ip - off else n)
              in bindk (readi_loop i off (unat n) s) (\<lambda>bs s. Ok (n, bs) s))"

text \<open>The copy loop of \<open>writei\<close> with the bytes still to write; it yields the final offset.\<close>

function writei_loop :: "nat \<Rightarrow> uint \<Rightarrow> uchar list \<Rightarrow> 'a cons_state_scheme \<Rightarrow> ('a cons_state_scheme, uint) outcome" where
  "writei_loop i off src s =
     (if src = [] then Ok off s
      else bindk (bmap i (off div of_nat BSIZE) s) (\<lambda>addr s.
             case part_at (i_prt (ino s i)) s of
               None \<Rightarrow> undef
             | Some part \<Rightarrow>
                 bindk (bread (pt_dev part) addr s) (\<lambda>bp s.
                   let m = chunk (length src) off
                   in bindk (log_write bp (bstore bp (splice (unat off mod BSIZE) (take m src) (bdata s bp)) s)) (\<lambda>_ s.
                      bindk (brelse bp s) (\<lambda>_ s. writei_loop i (off + of_nat m) (drop m src) s)))))"
  by auto
termination
  by (relation "measure (\<lambda>(i, off, src, s). length src)") (auto simp: chunk_pos)

declare writei_loop.simps [simp del]

definition writei :: "nat \<Rightarrow> uchar list \<Rightarrow> uint \<Rightarrow> uint \<Rightarrow> 'a cons_state_scheme \<Rightarrow> ('a cons_state_scheme, cint) outcome" where
  "writei i src off n s =
     (let ip = ino s i
      in if i_type ip = T_DEV
         then if sint (i_major ip) < 0 \<or> sint (i_major ip) \<ge> int NDEV then Ok (- 1) s
              else (case dev_write (devsw s ! unat (i_major ip)) of
                      None \<Rightarrow> Ok (- 1) s
                    | Some Consolewrite \<Rightarrow> consolewrite i src n s)
         else if off > i_size ip \<or> off + n < off then Ok (- 1) s
         else if off + n > of_nat (MAXFILE * BSIZE) then Ok (- 1) s
         else bindk (writei_loop i off (take (unat n) src) s) (\<lambda>off s.
                if n > 0 \<and> off > i_size (ino s i)
                then bindk (iupdate i (upd_inode i (\<lambda>ip. ip\<lparr>i_size := off\<rparr>) s)) (\<lambda>_ s. Ok n s)
                else Ok n s))"

end
