(* ===== verification/Icache.thy ===== *)
theory Icache
  imports Inode
begin

text \<open>
  The inode cache as a map from (partition, inode number) to an entry with a count of its references: no two
  entries in use stand for the same inode, and \<open>iget\<close> finds the entry or takes a free one.
\<close>

definition in_use :: "inode \<Rightarrow> bool" where
  "in_use ip \<longleftrightarrow> 0 < sint (i_ref ip)"

abbreviation inode_id :: "inode \<Rightarrow> nat option \<times> uint" where
  "inode_id ip \<equiv> (i_prt ip, i_inum ip)"

definition icache_ok :: "'a fs_state_scheme \<Rightarrow> bool" where
  "icache_ok s \<longleftrightarrow> (\<forall>ip\<in>set (icache s). 0 \<le> sint (i_ref ip) \<and> sint (i_ref ip) < 2 ^ 31 - 1) \<and>
     (\<forall>i<length (icache s). \<forall>j<length (icache s).
        in_use (ino s i) \<longrightarrow> in_use (ino s j) \<longrightarrow> inode_id (ino s i) = inode_id (ino s j) \<longrightarrow> i = j)"

lemma upd_inode_fields [simp]:
  "icache (upd_inode i f s) = (icache s)[i := f (icache s ! i)]" "length (icache (upd_inode i f s)) = length (icache s)"
  "partitions (upd_inode i f s) = partitions s" "mount_pnts (upd_inode i f s) = mount_pnts s"
  "boot_part (upd_inode i f s) = boot_part s" "procs (upd_inode i f s) = procs s" "cur (upd_inode i f s) = cur s"
  by (simp_all add: upd_inode_def)

lemma not_in_use:
  assumes "0 \<le> sint (i_ref ip)"
  shows "\<not> in_use ip \<longleftrightarrow> i_ref ip = 0"
  using assms signed_eq_0_iff [of "i_ref ip"] by (auto simp: in_use_def)

text \<open>The two ways in which \<open>iget\<close> succeeds, and the one in which it fails.\<close>

lemma iget_cases:
  assumes ok: "icache_ok s"
  obtains (hit) i where "i < length (icache s)" "in_use (ino s i)" "inode_id (ino s i) = (p, inum)"
      "iget p inum s = Ok i (upd_inode i (\<lambda>ip. ip\<lparr>i_ref := i_ref ip + 1\<rparr>) s)"
    | (miss) i where "i < length (icache s)" "i_ref (ino s i) = 0" "\<forall>ip\<in>set (icache s). in_use ip \<longrightarrow> inode_id ip \<noteq> (p, inum)"
      "iget p inum s = Ok i (upd_inode i (\<lambda>ip. ip\<lparr>i_prt := p, i_inum := inum, i_ref := 1,
                         i_busy := False, i_valid := False, i_is_mnt := 0\<rparr>) s)"
    | (full) "\<forall>ip\<in>set (icache s). in_use ip \<and> inode_id ip \<noteq> (p, inum)" "iget p inum s = Panic ''iget: no inodes''"
proof (cases "first_index (\<lambda>ip. 0 < sint (i_ref ip) \<and> i_prt ip = p \<and> i_inum ip = inum) (icache s)")
  case (Some i)
  then show ?thesis
    using hit [of i] first_index_Some [OF Some] by (auto simp: iget_def in_use_def)
next
  case None
  then have n: "\<forall>ip\<in>set (icache s). in_use ip \<longrightarrow> inode_id ip \<noteq> (p, inum)"
    by (auto simp: first_index_None in_use_def)
  show ?thesis
  proof (cases "first_index (\<lambda>ip. i_ref ip = 0) (icache s)")
    case (Some i)
    then show ?thesis
      using miss [of i] first_index_Some [OF Some] n None by (simp add: iget_def)
  next
    case N: None
    then have "\<forall>ip\<in>set (icache s). in_use ip"
      using ok not_in_use by (auto simp: first_index_None icache_ok_def)
    then show ?thesis
      using full n None N by (auto simp: iget_def)
  qed
qed

text \<open>A new reference to an entry in use, and a free entry given a new inode, keep the cache consistent.\<close>

lemma icache_ok_upd:
  assumes "icache_ok s" "i < length (icache s)" "0 \<le> sint (i_ref (f (ino s i)))" "sint (i_ref (f (ino s i))) < 2 ^ 31 - 1"
    and "\<forall>j<length (icache s). j \<noteq> i \<longrightarrow> in_use (ino s j) \<longrightarrow> in_use (f (ino s i)) \<longrightarrow> inode_id (ino s j) \<noteq> inode_id (f (ino s i))"
  shows "icache_ok (upd_inode i f s)"
proof -
  have "\<forall>ip\<in>set (icache (upd_inode i f s)). 0 \<le> sint (i_ref ip) \<and> sint (i_ref ip) < 2 ^ 31 - 1"
    using assms(1,3,4) by (auto simp: icache_ok_def dest!: set_update_subset_insert [THEN subsetD])
  moreover have "a = b" if "a < length (icache s)" "b < length (icache s)" "in_use (ino (upd_inode i f s) a)"
      "in_use (ino (upd_inode i f s) b)" "inode_id (ino (upd_inode i f s) a) = inode_id (ino (upd_inode i f s) b)" for a b
    using that assms(1,2,5) by (cases "a = i"; cases "b = i") (auto simp: icache_ok_def)
  ultimately show ?thesis
    unfolding icache_ok_def by simp
qed

text \<open>
  C20: \<open>iget\<close> keeps the inode cache a function of the inode's identity. Provided that no entry has
  reached the largest reference count, \<open>iget\<close> returns the one entry that stands for (partition, inode number) after
  the call, with one more reference than the inode had before it (1 if it was not cached), leaves the other
  entries alone and keeps the invariant that no inode has two entries in use; it panics exactly when the inode is
  not cached and all entries are in use.
\<close>

theorem iget_unique:
  assumes ok: "icache_ok s" and room: "\<forall>ip\<in>set (icache s). sint (i_ref ip) + 1 < 2 ^ 31 - 1"
  shows "case iget p inum s of
      Ok i s' \<Rightarrow> icache_ok s' \<and> i < length (icache s) \<and> inode_id (ino s' i) = (p, inum) \<and>
        sint (i_ref (ino s' i)) = (if in_use (ino s i) then sint (i_ref (ino s i)) + 1 else 1) \<and>
        (in_use (ino s i) \<longrightarrow> ino s' i = (ino s i)\<lparr>i_ref := i_ref (ino s' i)\<rparr>) \<and>
        (\<forall>j<length (icache s). j \<noteq> i \<longrightarrow> ino s' j = ino s j \<and> (in_use (ino s j) \<longrightarrow> inode_id (ino s j) \<noteq> (p, inum)))
    | Panic m \<Rightarrow> m = ''iget: no inodes'' \<and> (\<forall>ip\<in>set (icache s). in_use ip \<and> inode_id ip \<noteq> (p, inum))
    | _ \<Rightarrow> False"
  using ok
proof (cases rule: iget_cases [where p = p and inum = inum])
  case (hit i)
  let ?f = "\<lambda>ip. ip\<lparr>i_ref := i_ref ip + 1\<rparr>"
  have i: "ino s i \<in> set (icache s)" using hit by simp
  have s1: "sint (i_ref (ino s i) + 1) = sint (i_ref (ino s i)) + 1"
    using i ok room by (intro sint_succ) (auto simp: icache_ok_def)
  have other: "inode_id (ino s j) \<noteq> (p, inum)" if "j < length (icache s)" "j \<noteq> i" "in_use (ino s j)" for j
    using that hit ok by (auto simp: icache_ok_def)
  have "icache_ok (upd_inode i ?f s)"
    using i ok room s1 hit other by (intro icache_ok_upd) (auto simp: icache_ok_def)
  then show ?thesis
    using hit s1 other by simp
next
  case (miss i)
  then have "icache_ok (upd_inode i (\<lambda>ip. ip\<lparr>i_prt := p, i_inum := inum, i_ref := 1,
                         i_busy := False, i_valid := False, i_is_mnt := 0\<rparr>) s)"
    using ok by (intro icache_ok_upd) auto
  then show ?thesis
    using miss by (simp add: in_use_def)
next
  case full
  then show ?thesis by simp
qed

lemma fs_zero_icache: "icache_ok (fs_zero d)"
  by (simp add: icache_ok_def in_use_def inode0_def)

theorem iget_unique_witness:
  "icache_ok (fs_zero (\<lambda>_ _. [])) \<and> (case iget (Some 0) 1 (fs_zero (\<lambda>_ _. [])) of Ok i s' \<Rightarrow> icache_ok s' | _ \<Rightarrow> False)"
proof -
  have "\<forall>ip\<in>set (icache (fs_zero (\<lambda>_ _. []))). sint (i_ref ip) + 1 < 2 ^ 31 - 1"
    by (simp add: inode0_def)
  from iget_unique [OF fs_zero_icache this, of "Some 0" 1] fs_zero_icache show ?thesis
    by (simp add: inode0_def in_use_def split: outcome.splits)
qed

end
