(* ===== verification/Dir.thy ===== *)
theory Dir
  imports Inode_Data Icache
begin

text \<open>
  Directories, path names and mount points (fs.c). A path is a C string; a path element is a string
  of at most \<open>DIRSIZ\<close> bytes.
\<close>

definition DIRSIZ :: nat where "DIRSIZ = 14"
definition MOUNT_POINTS_SIZE :: nat where "MOUNT_POINTS_SIZE = 200"

record dirent =
  de_inum :: ushort
  de_name :: "uchar list"

definition dec_dirent :: "uchar list \<Rightarrow> dirent" where
  "dec_dirent d = \<lparr>de_inum = get16 0 d, de_name = slice 2 DIRSIZ d\<rparr>"

definition enc_dirent :: "dirent \<Rightarrow> uchar list" where
  "enc_dirent de = enc16 (de_inum de) @ de_name de"

definition namecmp :: "uchar list \<Rightarrow> uchar list \<Rightarrow> cint" where
  "namecmp s t = strncmp_str s t DIRSIZ"

section \<open>Mount points\<close>

definition find_mp :: "uchar list \<Rightarrow> 'a fs_state_scheme \<Rightarrow> nat option" where
  "find_mp path s = first_index (\<lambda>mp. namecmp path (mp_path mp) = 0) (mount_pnts s)"

definition is_mounted :: "uchar list \<Rightarrow> 'a fs_state_scheme \<Rightarrow> bool" where
  "is_mounted path s \<longleftrightarrow> find_mp path s \<noteq> None"

text \<open>The inode number and the partition that cover an inode, if it is mounted on.\<close>

definition is_inode_mounted :: "nat \<Rightarrow> 'a fs_state_scheme \<Rightarrow> (uint \<times> nat option) option" where
  "is_inode_mounted i s =
     (case first_index (\<lambda>mp. mp_old_i mp = i_inum (ino s i) \<and> mp_old_prt mp = i_prt (ino s i)) (mount_pnts s) of
        None \<Rightarrow> None
      | Some k \<Rightarrow> Some (ROOTINO, mp_prt (mount_pnts s ! k)))"

definition mpalloc :: "'a fs_state_scheme \<Rightarrow> nat option \<times> 'a fs_state_scheme" where
  "mpalloc s =
     (case first_index (\<lambda>mp. mp_is_taken mp = 0) (mount_pnts s) of
        None \<Rightarrow> (None, s)
      | Some k \<Rightarrow> (Some k, s\<lparr>mount_pnts := (mount_pnts s)[k := (mount_pnts s ! k)\<lparr>mp_is_taken := 1\<rparr>]\<rparr>))"

definition check_mounted :: "nat \<Rightarrow> 'a fs_state_scheme \<Rightarrow> ('a fs_state_scheme, nat option) outcome" where
  "check_mounted i s =
     (case is_inode_mounted i s of
        None \<Rightarrow> Ok None s
      | Some (mnt_in, mnt_prt) \<Rightarrow> bindk (iget mnt_prt mnt_in s) (\<lambda>t s. Ok (Some t) s))"

section \<open>Directories\<close>

text \<open>The byte offsets of the entries of a directory of \<open>n\<close> bytes.\<close>

definition entry_offsets :: "uint \<Rightarrow> uint list" where
  "entry_offsets n = map (\<lambda>j. of_nat (16 * j)) [0..<(unat n + 15) div 16]"

fun dirlookup_loop :: "uint list \<Rightarrow> nat \<Rightarrow> uchar list \<Rightarrow> 'a cons_state_scheme \<Rightarrow>
    ('a cons_state_scheme, (nat \<times> uint) option) outcome" where
  "dirlookup_loop [] dp name s = Ok None s"
| "dirlookup_loop (off # offs) dp name s =
     bindk (readi dp off 16 s) (\<lambda>(r, d) s.
       if r \<noteq> 16 then Panic ''dirlink read''
       else let de = dec_dirent d
            in if de_inum de = 0 then dirlookup_loop offs dp name s
               else if namecmp name (de_name de) = 0
               then bindk (iget (i_prt (ino s dp)) (ucast (de_inum de)) s) (\<lambda>i s. Ok (Some (i, off)) s)
               else dirlookup_loop offs dp name s)"

definition dirlookup :: "nat \<Rightarrow> uchar list \<Rightarrow> 'a cons_state_scheme \<Rightarrow>
    ('a cons_state_scheme, (nat \<times> uint) option) outcome" where
  "dirlookup dp name s =
     bindk (case is_inode_mounted dp s of
              None \<Rightarrow> Ok dp s
            | Some (mnt_in, mnt_prt) \<Rightarrow> iget mnt_prt mnt_in s) (\<lambda>dp s.
       if i_type (ino s dp) \<noteq> T_DIR then Panic ''dirlookup not DIR''
       else dirlookup_loop (entry_offsets (i_size (ino s dp))) dp name s)"

text \<open>The search of \<open>dirlink\<close> for an empty entry; past the last entry it yields the end of the directory.\<close>

fun find_empty :: "uint list \<Rightarrow> uint \<Rightarrow> nat \<Rightarrow> 'a cons_state_scheme \<Rightarrow> ('a cons_state_scheme, uint) outcome" where
  "find_empty [] eof dp s = Ok eof s"
| "find_empty (off # offs) eof dp s =
     bindk (readi dp off 16 s) (\<lambda>(r, d) s.
       if r \<noteq> 16 then Panic ''dirlink read''
       else if de_inum (dec_dirent d) = 0 then Ok off s
       else find_empty offs eof dp s)"

definition dirlink :: "nat \<Rightarrow> uchar list \<Rightarrow> uint \<Rightarrow> 'a cons_state_scheme \<Rightarrow> ('a cons_state_scheme, cint) outcome" where
  "dirlink dp name inum s =
     bindk (dirlookup dp name s) (\<lambda>r s.
       case r of
         Some (i, off) \<Rightarrow> bindk (iput i s) (\<lambda>_ s. Ok (- 1) s)
       | None \<Rightarrow>
           let offs = entry_offsets (i_size (ino s dp))
           in bindk (find_empty offs (of_nat (16 * length offs)) dp s) (\<lambda>off s.
                let de = \<lparr>de_inum = ucast inum, de_name = strncpy_str name DIRSIZ\<rparr>
                in bindk (writei dp (enc_dirent de) off 16 s) (\<lambda>w s.
                     if w \<noteq> 16 then Panic ''dirlink'' else Ok 0 s)))"

section \<open>Paths\<close>

definition slash :: uchar where "slash = 47"

definition skipelem :: "uchar list \<Rightarrow> (uchar list \<times> uchar list) option" where
  "skipelem path =
     (let path = dropWhile (\<lambda>c. c = slash) path
      in if path = [] then None
         else let s = takeWhile (\<lambda>c. c \<noteq> slash) path;
                  path = dropWhile (\<lambda>c. c \<noteq> slash) path
              in Some (if length s \<ge> DIRSIZ then take DIRSIZ s else s, dropWhile (\<lambda>c. c = slash) path))"

lemma skipelem_shorter:
  assumes "skipelem path = Some (name, rest)"
  shows "length rest < length path"
proof -
  let ?p = "dropWhile (\<lambda>c. c = slash) path"
  have ne: "?p \<noteq> []" and rest: "rest = dropWhile (\<lambda>c. c = slash) (dropWhile (\<lambda>c. c \<noteq> slash) ?p)"
    using assms by (auto simp: skipelem_def Let_def split: if_splits)
  obtain x xs where p: "?p = x # xs"
    using ne by (cases ?p) auto
  then have "x \<noteq> slash"
    using hd_dropWhile [of "\<lambda>c. c = slash" path] ne by simp
  then have "length rest \<le> length xs"
    using p rest length_dropWhile_le [of "\<lambda>c. c = slash" "dropWhile (\<lambda>c. c \<noteq> slash) xs"]
      length_dropWhile_le [of "\<lambda>c. c \<noteq> slash" xs] by simp
  then show ?thesis
    using p length_dropWhile_le [of "\<lambda>c. c = slash" path] by simp
qed

text \<open>The walk of \<open>namex\<close> from inode \<open>ip\<close>; \<open>name\<close> is the last element read.\<close>

function namex_loop :: "uchar list \<Rightarrow> bool \<Rightarrow> nat \<Rightarrow> uchar list \<Rightarrow> 'a cons_state_scheme \<Rightarrow>
    ('a cons_state_scheme, nat option \<times> uchar list) outcome" where
  "namex_loop path nameiparent ip name s =
     (case skipelem path of
        None \<Rightarrow> if nameiparent then bindk (iput ip s) (\<lambda>_ s. Ok (None, name) s) else Ok (Some ip, name) s
      | Some (name, path) \<Rightarrow>
          bindk (ilock (Some ip) s) (\<lambda>_ s.
            if i_type (ino s ip) \<noteq> T_DIR then bindk (iunlockput ip s) (\<lambda>_ s. Ok (None, name) s)
            else if nameiparent \<and> path = []
            then bindk (check_mounted ip s) (\<lambda>tmp s.
                 bindk (iunlock (Some ip) s) (\<lambda>_ s.
                   Ok (Some (case tmp of None \<Rightarrow> ip | Some t \<Rightarrow> t), name) s))
            else bindk (dirlookup ip name s) (\<lambda>next1 s.
                   case next1 of
                     None \<Rightarrow> bindk (iunlockput ip s) (\<lambda>_ s. Ok (None, name) s)
                   | Some (i, _) \<Rightarrow> bindk (iunlockput ip s) (\<lambda>_ s. namex_loop path nameiparent i name s))))"
  by auto
termination
  by (relation "measure (\<lambda>(path, _). length path)") (auto simp: skipelem_shorter)

declare namex_loop.simps [simp del]

definition namex :: "uchar list \<Rightarrow> bool \<Rightarrow> 'a cons_state_scheme \<Rightarrow>
    ('a cons_state_scheme, nat option \<times> uchar list) outcome" where
  "namex path nameiparent s =
     (case find_mp path s of
        Some k \<Rightarrow>
          bindk (iget (mp_prt (mount_pnts s ! k)) ROOTINO s) (\<lambda>ip s. namex_loop [slash] nameiparent ip [] s)
      | None \<Rightarrow>
          if path \<noteq> [] \<and> hd path = slash
          then bindk (iget (boot_part s) ROOTINO s) (\<lambda>ip s. namex_loop path nameiparent ip [] s)
          else (case cur s of
                  None \<Rightarrow> undef
                | Some p \<Rightarrow>
                    (case p_cwd (procs s ! p) of
                       None \<Rightarrow> undef
                     | Some ip \<Rightarrow> namex_loop path nameiparent ip [] (idup ip s))))"

definition namei :: "uchar list \<Rightarrow> 'a cons_state_scheme \<Rightarrow> ('a cons_state_scheme, nat option) outcome" where
  "namei path s = bindk (namex path False s) (\<lambda>(ip, _) s. Ok ip s)"

definition nameiparent :: "uchar list \<Rightarrow> 'a cons_state_scheme \<Rightarrow> ('a cons_state_scheme, nat option \<times> uchar list) outcome" where
  "nameiparent path s = namex path True s"

definition mount :: "uchar list \<Rightarrow> cint \<Rightarrow> 'a cons_state_scheme \<Rightarrow> ('a cons_state_scheme, cint) outcome" where
  "mount path i s =
     bindk (namei path s) (\<lambda>ip s.
       case ip of
         None \<Rightarrow> Ok (- 1) s
       | Some ip \<Rightarrow>
           if is_mounted path s then Ok (- 1) s
           else (case mpalloc s of
                   (None, s) \<Rightarrow> Ok (- 1) s
                 | (Some k, s) \<Rightarrow>
                     let mp = mount_pnts s ! k;
                         mp = mp\<lparr>mp_path := splice 0 (take (min DIRSIZ (length path)) path) (mp_path mp),
                                 mp_prt := Some (unat i), mp_old_i := i_inum (ino s ip), mp_old_prt := i_prt (ino s ip)\<rparr>
                     in Ok 0 (s\<lparr>mount_pnts := (mount_pnts s)[k := mp]\<rparr>)))"

section \<open>Path elements\<close>

text \<open>The names that repeated calls of \<open>skipelem\<close> take from a path.\<close>

function path_elems :: "uchar list \<Rightarrow> uchar list list" where
  "path_elems path = (case skipelem path of None \<Rightarrow> [] | Some (name, rest) \<Rightarrow> name # path_elems rest)"
  by auto
termination
  by (relation "measure length") (auto simp: skipelem_shorter)

declare path_elems.simps [simp del]

text \<open>The pieces of a path between slashes.\<close>

fun pieces :: "uchar list \<Rightarrow> uchar list list" where
  "pieces [] = [[]]"
| "pieces (c # cs) = (if c = slash then [] # pieces cs else (c # hd (pieces cs)) # tl (pieces cs))"

lemma pieces_no_slash: "slash \<notin> set xs \<Longrightarrow> pieces xs = [xs]"
  by (induction xs) auto

lemma pieces_slash: "slash \<notin> set xs \<Longrightarrow> pieces (xs @ slash # ys) = xs # pieces ys"
  by (induction xs) auto

lemma pieces_skip: "filter (\<lambda>e. e \<noteq> []) (pieces (dropWhile (\<lambda>c. c = slash) path)) = filter (\<lambda>e. e \<noteq> []) (pieces path)"
  by (induction path) auto

lemma pieces_first:
  assumes "path = c # cs" "c \<noteq> slash"
  shows "filter (\<lambda>e. e \<noteq> []) (pieces path) = takeWhile (\<lambda>c. c \<noteq> slash) path #
    filter (\<lambda>e. e \<noteq> []) (pieces (dropWhile (\<lambda>c. c \<noteq> slash) path))"
proof (cases "slash \<in> set path")
  case True
  then obtain xs ys where p: "path = xs @ slash # ys" "slash \<notin> set xs"
    by (meson split_list_first)
  then have "takeWhile (\<lambda>c. c \<noteq> slash) path = xs" "dropWhile (\<lambda>c. c \<noteq> slash) path = slash # ys"
    by (metis (mono_tags, lifting) takeWhile_append2 takeWhile.simps(2) append_Nil2,
        metis (mono_tags, lifting) dropWhile_append2 dropWhile.simps(2))
  moreover have "xs \<noteq> []"
    using assms p by (cases xs) auto
  ultimately show ?thesis
    using p by (simp add: pieces_slash)
next
  case False
  then have td: "takeWhile (\<lambda>c. c \<noteq> slash) path = path" "dropWhile (\<lambda>c. c \<noteq> slash) path = []"
    by (auto simp: takeWhile_eq_all_conv dropWhile_eq_Nil_conv)
  have "path \<noteq> []"
    using assms(1) by simp
  then show ?thesis
    unfolding td pieces_no_slash [OF False] by simp
qed

text \<open>
  C21: \<open>skipelem\<close> splits a path correctly: the names it delivers one after the other are exactly
  the non-empty pieces between slashes, in order, each cut to \<open>DIRSIZ\<close> bytes; leading, trailing and repeated
  slashes do not matter. (This is the list of names that \<open>namex\<close> looks up.)
\<close>

theorem skipelem_pieces:
  "path_elems path = map (take DIRSIZ) (filter (\<lambda>e. e \<noteq> []) (pieces path))"
proof (induction path rule: path_elems.induct)
  case (1 path)
  let ?p = "dropWhile (\<lambda>c. c = slash) path"
  show ?case
  proof (cases ?p)
    case Nil
    then have "filter (\<lambda>e. e \<noteq> []) (pieces path) = []"
      using pieces_skip [of path] unfolding Nil by simp
    then show ?thesis
      using Nil by (simp add: path_elems.simps [of path] skipelem_def)
  next
    case (Cons c cs)
    then have c: "c \<noteq> slash"
      using hd_dropWhile [of "\<lambda>c. c = slash" path] by simp
    define rest where "rest = dropWhile (\<lambda>c. c \<noteq> slash) ?p"
    have s: "skipelem path = Some (take DIRSIZ (takeWhile (\<lambda>c. c \<noteq> slash) ?p), dropWhile (\<lambda>c. c = slash) rest)"
      using Cons by (simp add: skipelem_def Let_def rest_def)
    have "path_elems path = take DIRSIZ (takeWhile (\<lambda>c. c \<noteq> slash) ?p) #
        map (take DIRSIZ) (filter (\<lambda>e. e \<noteq> []) (pieces (dropWhile (\<lambda>c. c = slash) rest)))"
      using 1 [OF s refl] s by (simp add: path_elems.simps [of path])
    moreover have "filter (\<lambda>e. e \<noteq> []) (pieces path) = takeWhile (\<lambda>c. c \<noteq> slash) ?p # filter (\<lambda>e. e \<noteq> []) (pieces rest)"
      using pieces_skip [of path] pieces_first [OF Cons c] unfolding rest_def by argo
    ultimately show ?thesis
      using pieces_skip [of rest] by simp
  qed
qed

section \<open>The empty path\<close>

text \<open>
  C22: Opening the empty path panics the kernel. A free entry of the mount table has an empty path,
  so \<open>find_mp\<close> takes the empty path for a mounted one and \<open>namei\<close> returns an inode without partition; \<open>ilock\<close>,
  which \<open>open\<close>, \<open>chdir\<close>, \<open>exec\<close> and \<open>link\<close> call next, panics with "ilock no partition". This holds whenever
  the first entry of the mount table is free and the inode cache is consistent and not full.
\<close>

theorem empty_path_panics:
  assumes "mount_pnts s = mount_point0 # mps" and "icache_ok s" and "\<exists>ip\<in>set (icache s). i_ref ip = 0"
  shows "\<exists>ip s'. namei [] s = Ok (Some ip) s' \<and> ilock (Some ip) s' = Panic ''ilock no partition''"
proof -
  have "find_mp [] s = Some 0"
    using assms(1) by (simp add: find_mp_def namecmp_def mount_point0_def DIRSIZ_def numeral_eq_Suc)
  moreover have "skipelem [slash] = None"
    by (simp add: skipelem_def)
  ultimately have n: "namei [] s = bindk (iget None ROOTINO s) (\<lambda>ip s. Ok (Some ip) s)"
    using assms(1) by (simp add: namei_def namex_def namex_loop.simps mount_point0_def bindk_assoc)
  from assms(2) show ?thesis
  proof (cases rule: iget_cases [where p = None and inum = ROOTINO])
    case (hit i)
    then have "0 \<le> sint (i_ref (ino s i))" "sint (i_ref (ino s i)) < 2 ^ 31 - 1"
      using assms(2) by (auto simp: icache_ok_def)
    then show ?thesis
      using hit n sint_succ [of "i_ref (ino s i)"] by (simp add: ilock_def)
  next
    case (miss i)
    then show ?thesis
      using n by (simp add: ilock_def)
  next
    case full
    then show ?thesis
      using assms(3) by (auto simp: in_use_def)
  qed
qed

lemma cons_zero_fs [simp]:
  "icache (cons_zero d) = replicate 50 inode0" "mount_pnts (cons_zero d) = replicate 200 mount_point0"
  "partitions (cons_zero d) = replicate NPARTITIONS partition1"
  by (simp_all add: cons_zero_def fs_zero_def log_state.defs fs_state.defs cons_state.defs)

theorem empty_path_panics_witness:
  "\<exists>ip s'. namei [] (cons_zero (\<lambda>_ _. [])) = Ok (Some ip) s' \<and> ilock (Some ip) s' = Panic ''ilock no partition''"
proof (rule empty_path_panics [where mps = "replicate 199 mount_point0"])
  show "mount_pnts (cons_zero (\<lambda>_ _. [])) = mount_point0 # replicate 199 mount_point0"
    using replicate_Suc [of 199 mount_point0] by simp
qed (simp_all add: icache_ok_def in_use_def inode0_def)

end
