(* ===== verification/Ring.thy ===== *)
theory Ring
  imports Cstring
begin

text \<open>
  Circular buffers. The console (console.c) and the pipes (pipe.c) index an array of \<open>N\<close> cells by
  32-bit counters modulo \<open>N\<close>; the counters run on and wrap around at \<open>2 ^ 32\<close>. \<open>ring N buf r w\<close> is the
  queue between a read counter \<open>r\<close> and a write counter \<open>w\<close>. The locale \<open>ring_buffer\<close> is what the queue
  needs of the size: it divides \<open>2 ^ 32\<close>.
\<close>

definition ring :: "nat \<Rightarrow> 'b list \<Rightarrow> uint \<Rightarrow> uint \<Rightarrow> 'b list" where
  "ring N buf r w = map (\<lambda>k. buf ! (unat (r + of_nat k) mod N)) [0..<unat (w - r)]"

lemma length_ring [simp]: "length (ring N buf r w) = unat (w - r)"
  by (simp add: ring_def)

lemma ring_Nil_iff: "ring N buf r w = [] \<longleftrightarrow> r = w"
  by (metis length_0_conv length_ring right_minus_eq unat_eq_0)

lemma ring_self [simp]: "ring N buf r r = []"
  by (simp add: ring_Nil_iff)

lemma ring_next:
  assumes "r \<noteq> w"
  shows "ring N buf r w = buf ! (unat r mod N) # ring N buf (r + 1) w"
proof -
  have ne: "w - r \<noteq> 0" using assms by simp
  then obtain k where k: "unat (w - r) = Suc k"
    by (metis not0_implies_Suc unat_eq_0)
  have eq: "w - (r + 1) = w - r - 1" by simp
  have "unat (w - (r + 1)) = k"
    unfolding eq unat_word_minus_one [OF ne] k by simp
  then have "ring N buf (r + 1) w = map (\<lambda>k. buf ! (unat (r + of_nat (Suc k)) mod N)) [0..<k]"
    by (simp add: ring_def add.assoc)
  moreover have "ring N buf r w = map (\<lambda>k. buf ! (unat (r + of_nat k) mod N)) (0 # map Suc [0..<k])"
    unfolding ring_def k by (simp only: upt_conv_Cons map_Suc_upt zero_less_Suc)
  ultimately show ?thesis by (simp add: comp_def)
qed

lemma ring_erase:
  assumes "w \<noteq> r"
  shows "ring N buf r (w - 1) = butlast (ring N buf r w)" "buf ! (unat (w - 1) mod N) = last (ring N buf r w)"
proof -
  let ?n = "unat (w - r)"
  have ne: "w - r \<noteq> 0" using assms by simp
  have "w - 1 - r = w - r - 1" by simp
  then have n: "unat (w - 1 - r) = ?n - 1"
    using unat_word_minus_one [OF ne] by (simp only:)
  obtain k where k: "?n = Suc k"
    using ne by (metis not0_implies_Suc unat_eq_0)
  have "of_nat ?n = w - r" by simp
  then have "r + of_nat k = w - 1"
    unfolding k by (simp add: diff_eq_eq eq_diff_eq ac_simps)
  moreover have "ring N buf r (w - 1) = map (\<lambda>k. buf ! (unat (r + of_nat k) mod N)) [0..<k]"
    using n k by (simp add: ring_def)
  moreover have "ring N buf r w = map (\<lambda>k. buf ! (unat (r + of_nat k) mod N)) [0..<Suc k]"
    using k by (simp add: ring_def)
  ultimately show "ring N buf r (w - 1) = butlast (ring N buf r w)" "buf ! (unat (w - 1) mod N) = last (ring N buf r w)"
    by simp_all
qed

lemma unat_span:
  fixes r w e :: uint
  assumes "unat (w - r) + unat (e - w) < 2 ^ 32"
  shows "unat (e - r) = unat (w - r) + unat (e - w)"
proof -
  have eq: "e - r = (w - r) + (e - w)" by simp
  show ?thesis
    unfolding eq using assms by (subst unat_add_lem [THEN iffD1]) simp_all
qed

lemma ring_append:
  assumes "unat (w - r) + unat (e - w) < 2 ^ 32"
  shows "ring N buf r e = ring N buf r w @ ring N buf w e"
proof -
  let ?m = "unat (w - r)" and ?n = "unat (e - w)"
  have "r + of_nat (?m + k) = w + of_nat k" for k by simp
  then have "map (\<lambda>k. buf ! (unat (r + of_nat k) mod N)) [0..<?m + ?n] = ring N buf r w @ ring N buf w e"
    unfolding ring_def upt_add_eq_append [OF le0] map_append
    by (simp add: map_add_upt [symmetric] comp_def add.commute del: of_nat_add of_nat_unat)
  then show ?thesis
    using unat_span [OF assms] by (simp add: ring_def)
qed

lemma mod_cell_le:
  fixes a :: nat
  assumes "(a + i) mod N = (a + j) mod N" "i \<le> j" "j < N"
  shows "i = j"
proof -
  have "N dvd (a + j) - (a + i)"
    by (rule iffD1 [OF mod_eq_dvd_iff_nat]) (use assms in simp_all)
  then have "N dvd j - i" by simp
  moreover have "j - i < N" using assms by simp
  ultimately have "j - i = 0" by (meson nat_dvd_not_less not_gr0)
  with assms(2) show ?thesis by simp
qed

locale ring_buffer =
  fixes N :: nat
  assumes size_pos: "0 < N" and size_dvd: "N dvd 2 ^ 32" and size_lt: "N < 2 ^ 32"
begin

lemma cell: "unat (r + of_nat k :: uint) mod N = (unat r + k) mod N"
proof -
  have "unat (r + of_nat k :: uint) = (unat r + k) mod 2 ^ 32"
    by (simp add: unat_word_ariths unat_of_nat take_bit_eq_mod mod_add_right_eq)
  then show ?thesis
    using size_dvd by (simp add: mod_mod_cancel)
qed

lemma put_cell:
  fixes r w :: uint
  assumes "k < unat (w - r)" "unat (w - r) < N"
  shows "buf[unat w mod N := c] ! (unat (r + of_nat k) mod N) = buf ! (unat (r + of_nat k) mod N)"
proof -
  have "(unat r + k) mod N \<noteq> (unat r + unat (w - r)) mod N"
    using mod_cell_le [of "unat r" k N "unat (w - r)"] assms by auto
  moreover have "unat w mod N = (unat r + unat (w - r)) mod N"
    using cell [of r "unat (w - r)"] by simp
  ultimately show ?thesis
    unfolding cell by simp
qed

lemma put:
  assumes "length buf = N" and "unat (w - r) < N"
  shows "ring N (buf[unat w mod N := c]) r (w + 1) = ring N buf r w @ [c]"
proof -
  have eq: "w + 1 - r = (w - r) + 1" by simp
  have n: "unat (w + 1 - r) = Suc (unat (w - r))"
    unfolding eq using assms(2) size_lt by (subst unat_add_lem [THEN iffD1]) simp_all
  have "ring N (buf[unat w mod N := c]) r w = ring N buf r w"
    unfolding ring_def using put_cell [OF _ assms(2)] by (intro map_cong) auto
  moreover have "buf[unat w mod N := c] ! (unat (r + of_nat (unat (w - r))) mod N) = c"
    using assms(1) size_pos by simp
  ultimately show ?thesis
    unfolding ring_def n by simp
qed

text \<open>Putting a character behind two queues that follow one another.\<close>

lemma put_behind:
  assumes "length buf = N" and "unat (w - r) + unat (e - w) < N"
  shows "ring N (buf[unat e mod N := c]) r w = ring N buf r w"
    and "ring N (buf[unat e mod N := c]) w (e + 1) = ring N buf w e @ [c]"
proof -
  have lt: "unat (w - r) + unat (e - w) < 2 ^ 32" and er: "unat (e - r) < N"
    using assms(2) size_lt unat_span [of w r e] by simp_all
  have eq: "e + 1 - w = (e - w) + 1" by simp
  have "unat (e + 1 - w) = unat (e - w) + 1"
    unfolding eq using assms(2) size_lt by (subst unat_add_lem [THEN iffD1]) simp_all
  then have lt': "unat (w - r) + unat (e + 1 - w) < 2 ^ 32"
    using assms(2) size_lt by simp
  have "ring N (buf[unat e mod N := c]) r w @ ring N (buf[unat e mod N := c]) w (e + 1) =
      ring N buf r w @ ring N buf w e @ [c]"
    using put [OF assms(1) er, of c] ring_append [OF lt, of N buf] ring_append [OF lt', of N "buf[unat e mod N := c]"] by simp
  then show "ring N (buf[unat e mod N := c]) r w = ring N buf r w"
    "ring N (buf[unat e mod N := c]) w (e + 1) = ring N buf w e @ [c]"
    by (simp_all add: append_eq_append_conv)
qed

end

end
