(* ===== verification/Pipe.thy ===== *)
theory Pipe
  imports Dir Ring
begin

text \<open>
  Pipes (pipe.c). A pipe lives in a page from \<open>kalloc\<close>; \<open>pipes\<close> maps the address of the page to the
  structure in it, and is undefined at every other address. Waiting for room or for data is the
  outcome \<open>Sleep\<close>; the critical sections of \<open>p->lock\<close> are atomic.
\<close>

definition PIPESIZE :: nat where "PIPESIZE = 512"

record pipe =
  pi_data :: "uchar list"
  pi_nread :: uint
  pi_nwrite :: uint
  pi_readopen :: bool
  pi_writeopen :: bool

datatype ftype = FD_NONE | FD_PIPE | FD_INODE

record file_s =
  f_type :: ftype
  f_ref :: cint
  f_readable :: bool
  f_writable :: bool
  f_pipe :: uint
  f_ip :: "nat option"
  f_off :: uint

record file_state = cons_state +
  ftable :: "file_s list"
  pipes :: "uint \<Rightarrow> pipe option"

definition cur_killed :: "'a sched_state_scheme \<Rightarrow> bool" where
  "cur_killed s = (case cur s of None \<Rightarrow> False | Some p \<Rightarrow> p_killed (procs s ! p))"

definition upd_pipe :: "uint \<Rightarrow> pipe \<Rightarrow> 'a file_state_scheme \<Rightarrow> 'a file_state_scheme" where
  "upd_pipe p pi s = s\<lparr>pipes := (pipes s)(p := Some pi)\<rparr>"

text \<open>The fields of a pipe just allocated at \<open>p\<close>: \<open>data\<close>, behind the lock's 52 bytes, holds what the page held.\<close>

definition pipe_init :: "uint \<Rightarrow> 'a file_state_scheme \<Rightarrow> pipe" where
  "pipe_init p s = \<lparr>pi_data = map (\<lambda>k. kmem_mem s (p + 52 + of_nat k)) [0..<PIPESIZE], pi_nread = 0, pi_nwrite = 0,
     pi_readopen = True, pi_writeopen = True\<rparr>"

definition pipeclose :: "uint \<Rightarrow> bool \<Rightarrow> 'a file_state_scheme \<Rightarrow> ('a file_state_scheme, unit) outcome" where
  "pipeclose p writable s =
     (case pipes s p of
        None \<Rightarrow> undef
      | Some pi \<Rightarrow>
          let pi = (if writable then pi\<lparr>pi_writeopen := False\<rparr> else pi\<lparr>pi_readopen := False\<rparr>);
              s = wakeup (if writable then ChPipeRead (unat p) else ChPipeWrite (unat p)) (upd_pipe p pi s)
          in if \<not> pi_readopen pi \<and> \<not> pi_writeopen pi then kfree p (s\<lparr>pipes := (pipes s)(p := None)\<rparr>)
             else Ok () s)"

fun pipewrite_loop :: "uint \<Rightarrow> uchar list \<Rightarrow> cint \<Rightarrow> 'a file_state_scheme \<Rightarrow> ('a file_state_scheme, cint) outcome" where
  "pipewrite_loop p [] n s = Ok n (wakeup (ChPipeRead (unat p)) s)"
| "pipewrite_loop p (b # bs) n s =
     (case pipes s p of
        None \<Rightarrow> undef
      | Some pi \<Rightarrow>
          if pi_nwrite pi = pi_nread pi + of_nat PIPESIZE
          then if \<not> pi_readopen pi \<or> cur_killed s then Ok (- 1) s
               else sleep (ChPipeWrite (unat p)) (wakeup (ChPipeRead (unat p)) s)
          else pipewrite_loop p bs n
                 (upd_pipe p (pi\<lparr>pi_data := (pi_data pi)[unat (pi_nwrite pi) mod PIPESIZE := b],
                                 pi_nwrite := pi_nwrite pi + 1\<rparr>) s))"

definition pipewrite :: "uint \<Rightarrow> uchar list \<Rightarrow> cint \<Rightarrow> 'a file_state_scheme \<Rightarrow> ('a file_state_scheme, cint) outcome" where
  "pipewrite p addr n s = pipewrite_loop p (take (nat (sint n)) addr) n s"

fun piperead_loop :: "nat \<Rightarrow> pipe \<Rightarrow> uchar list \<times> pipe" where
  "piperead_loop 0 pi = ([], pi)"
| "piperead_loop (Suc n) pi =
     (if pi_nread pi = pi_nwrite pi then ([], pi)
      else let b = pi_data pi ! (unat (pi_nread pi) mod PIPESIZE);
               (bs, pi) = piperead_loop n (pi\<lparr>pi_nread := pi_nread pi + 1\<rparr>)
           in (b # bs, pi))"

definition piperead :: "uint \<Rightarrow> cint \<Rightarrow> 'a file_state_scheme \<Rightarrow> ('a file_state_scheme, cint \<times> uchar list) outcome" where
  "piperead p n s =
     (case pipes s p of
        None \<Rightarrow> undef
      | Some pi \<Rightarrow>
          if pi_nread pi = pi_nwrite pi \<and> pi_writeopen pi
          then if cur_killed s then Ok (- 1, []) s else sleep (ChPipeRead (unat p)) s
          else let (bs, pi) = piperead_loop (nat (sint n)) pi
               in Ok (of_nat (length bs), bs) (wakeup (ChPipeWrite (unat p)) (upd_pipe p pi s)))"

section \<open>A pipe is a queue\<close>

interpretation pipe_ring: ring_buffer PIPESIZE
  by unfold_locales (simp_all add: PIPESIZE_def)

definition contents :: "pipe \<Rightarrow> uchar list" where
  "contents pi = ring PIPESIZE (pi_data pi) (pi_nread pi) (pi_nwrite pi)"

definition pipe_ok :: "pipe \<Rightarrow> bool" where
  "pipe_ok pi \<longleftrightarrow> length (pi_data pi) = PIPESIZE \<and> length (contents pi) \<le> PIPESIZE"

text \<open>Reading and writing leave the ends of the pipe open or closed as they are.\<close>

definition same_ends :: "pipe \<Rightarrow> pipe \<Rightarrow> bool" where
  "same_ends pi pi' \<longleftrightarrow> pi_readopen pi' = pi_readopen pi \<and> pi_writeopen pi' = pi_writeopen pi"

lemma length_contents [simp]: "length (contents pi) = unat (pi_nwrite pi - pi_nread pi)"
  by (simp add: contents_def)

lemma full_iff:
  assumes "pipe_ok pi"
  shows "pi_nwrite pi = pi_nread pi + of_nat PIPESIZE \<longleftrightarrow> length (contents pi) = PIPESIZE"
proof -
  have "pi_nwrite pi = pi_nread pi + of_nat PIPESIZE \<longleftrightarrow> pi_nwrite pi - pi_nread pi = of_nat PIPESIZE"
    by (simp add: diff_eq_eq add.commute)
  also have "\<dots> \<longleftrightarrow> unat (pi_nwrite pi - pi_nread pi) = PIPESIZE"
    by (simp add: word_unat_eq_iff PIPESIZE_def)
  finally show ?thesis by simp
qed

lemma put_byte:
  fixes b :: uchar
  assumes "pipe_ok pi" and "length (contents pi) \<noteq> PIPESIZE"
  defines "pi' \<equiv> pi\<lparr>pi_data := (pi_data pi)[unat (pi_nwrite pi) mod PIPESIZE := b], pi_nwrite := pi_nwrite pi + 1\<rparr>"
  shows "pipe_ok pi'" "contents pi' = contents pi @ [b]" "same_ends pi pi'"
proof -
  have lt: "unat (pi_nwrite pi - pi_nread pi) < PIPESIZE" and len: "length (pi_data pi) = PIPESIZE"
    using assms(1,2) by (simp_all add: pipe_ok_def)
  show c: "contents pi' = contents pi @ [b]"
    using pipe_ring.put [OF len lt, of b] by (simp add: contents_def pi'_def)
  then show "pipe_ok pi'"
    using lt len arg_cong [OF c, of length] by (simp add: pipe_ok_def pi'_def)
  show "same_ends pi pi'"
    by (simp add: same_ends_def pi'_def)
qed

lemma piperead_loop_queue:
  "piperead_loop n pi = (bs, pi') \<Longrightarrow>
     bs = take n (contents pi) \<and> contents pi' = drop n (contents pi) \<and> pi_data pi' = pi_data pi \<and> same_ends pi pi'"
proof (induction n arbitrary: pi bs)
  case 0
  then show ?case by (simp add: same_ends_def)
next
  case (Suc n)
  show ?case
  proof (cases "pi_nread pi = pi_nwrite pi")
    case True
    then show ?thesis
      using Suc.prems by (simp add: contents_def same_ends_def)
  next
    case False
    let ?pi = "pi\<lparr>pi_nread := pi_nread pi + 1\<rparr>"
    obtain cs where cs: "piperead_loop n ?pi = (cs, pi')" "bs = pi_data pi ! (unat (pi_nread pi) mod PIPESIZE) # cs"
      using Suc.prems False by (auto simp: Let_def split: prod.splits)
    moreover have "contents pi = pi_data pi ! (unat (pi_nread pi) mod PIPESIZE) # contents ?pi"
      using ring_next [OF False] by (simp add: contents_def)
    ultimately show ?thesis
      using Suc.IH [OF cs(1)] by (simp add: same_ends_def)
  qed
qed

text \<open>\<open>holds s p q\<close>: the pipe at \<open>p\<close> holds the bytes \<open>q\<close>; with the ends open as in \<open>pi\<close>.\<close>

definition holds :: "'a file_state_scheme \<Rightarrow> uint \<Rightarrow> pipe \<Rightarrow> uchar list \<Rightarrow> bool" where
  "holds s p pi q \<longleftrightarrow> (\<exists>pi'. pipes s p = Some pi' \<and> pipe_ok pi' \<and> same_ends pi pi' \<and> contents pi' = q)"

lemma holds_wakeup [simp]: "holds (wakeup c s) p pi q = holds s p pi q"
  by (simp add: holds_def wakeup_def wakeup1_def)

lemma same_ends_trans: "same_ends a b \<Longrightarrow> same_ends b c \<Longrightarrow> same_ends a c"
  by (simp add: same_ends_def)

text \<open>The three ways a write ends: done, given up, waiting for room.\<close>

definition write_result :: "uint \<Rightarrow> pipe \<Rightarrow> uchar list \<Rightarrow> cint \<Rightarrow> 'a file_state_scheme \<Rightarrow>
    ('a file_state_scheme, cint) outcome \<Rightarrow> bool" where
  "write_result p pi bs n s r =
     (let room = PIPESIZE - length (contents pi)
      in if length bs \<le> room
         then (\<exists>s'. r = Ok n (wakeup (ChPipeRead (unat p)) s') \<and> holds s' p pi (contents pi @ bs))
         else (\<exists>s'. holds s' p pi (contents pi @ take room bs) \<and> cur s' = cur s \<and> procs s' = procs s \<and>
                r = (if \<not> pi_readopen pi \<or> cur_killed s then Ok (- 1) s'
                     else sleep (ChPipeWrite (unat p)) (wakeup (ChPipeRead (unat p)) s'))))"

lemma pipewrite_loop_result:
  "pipes s p = Some pi \<Longrightarrow> pipe_ok pi \<Longrightarrow> write_result p pi bs n s (pipewrite_loop p bs n s)"
proof (induction bs arbitrary: s pi)
  case Nil
  then show ?case
    by (auto simp: write_result_def holds_def same_ends_def)
next
  case (Cons b bs)
  show ?case
  proof (cases "length (contents pi) = PIPESIZE")
    case True
    then show ?thesis
      using Cons.prems full_iff [OF Cons.prems(2)] by (auto simp: write_result_def holds_def same_ends_def)
  next
    case False
    let ?pi = "pi\<lparr>pi_data := (pi_data pi)[unat (pi_nwrite pi) mod PIPESIZE := b], pi_nwrite := pi_nwrite pi + 1\<rparr>"
    note put = put_byte [OF Cons.prems(2) False, of b]
    have step: "pipewrite_loop p (b # bs) n s = pipewrite_loop p bs n (upd_pipe p ?pi s)"
      using Cons.prems False full_iff [OF Cons.prems(2)] by simp
    have IH: "write_result p ?pi bs n (upd_pipe p ?pi s) (pipewrite_loop p (b # bs) n s)"
      unfolding step using put by (intro Cons.IH) (simp_all add: upd_pipe_def)
    have room: "PIPESIZE - length (contents pi) = Suc (PIPESIZE - length (contents ?pi))"
      using False Cons.prems(2) arg_cong [OF put(2), of length] by (simp add: pipe_ok_def Suc_diff_Suc)
    have holds: "holds s' p pi q" if "holds s' p ?pi q" for s' :: "'a file_state_scheme" and q
      using that put(3) same_ends_trans by (auto simp: holds_def)
    show ?thesis
    proof (cases "length bs \<le> PIPESIZE - length (contents ?pi)")
      case True
      then obtain s' where "pipewrite_loop p (b # bs) n s = Ok n (wakeup (ChPipeRead (unat p)) s')"
          "holds s' p ?pi (contents ?pi @ bs)"
        using IH unfolding write_result_def Let_def by (metis (mono_tags))
      moreover have "length (b # bs) \<le> PIPESIZE - length (contents pi)"
        unfolding room using True by simp
      ultimately show ?thesis
        using holds [of s' "contents ?pi @ bs"] unfolding write_result_def Let_def put(2) by auto
    next
      case full: False
      have r: "pi_readopen ?pi = pi_readopen pi" "cur_killed (upd_pipe p ?pi s) = cur_killed s"
        "cur (upd_pipe p ?pi s) = cur s" "procs (upd_pipe p ?pi s) = procs s"
        by (simp_all add: upd_pipe_def cur_killed_def split: option.split)
      from full obtain s' where s': "holds s' p ?pi (contents ?pi @ take (PIPESIZE - length (contents ?pi)) bs)"
          "cur s' = cur s" "procs s' = procs s"
          "pipewrite_loop p (b # bs) n s = (if \<not> pi_readopen pi \<or> cur_killed s then Ok (- 1) s'
             else sleep (ChPipeWrite (unat p)) (wakeup (ChPipeRead (unat p)) s'))"
        using IH unfolding write_result_def Let_def r by (metis (mono_tags))
      have "holds s' p pi (contents pi @ take (PIPESIZE - length (contents pi)) (b # bs))"
        using holds [OF s'(1)] unfolding room put(2) by simp
      moreover have "\<not> length (b # bs) \<le> PIPESIZE - length (contents pi)"
        unfolding room using full by simp
      ultimately show ?thesis
        using s' unfolding write_result_def Let_def by auto
    qed
  qed
qed

text \<open>
  C23: Writing to a pipe appends to its queue, across the wrap-around of its counters: \<open>pipewrite\<close> of \<open>n\<close>
  bytes either appends all of them, or fills the pipe with the first of them and then waits
  for room with the readers awake, or gives up with -1 if no reader is left or the writer was
  killed. It never overwrites a byte that was not read.
\<close>

theorem pipewrite_appends:
  assumes "pipes s p = Some pi" and "pipe_ok pi" and "length addr = nat (sint n)"
  shows "write_result p pi addr n s (pipewrite p addr n s)"
  using pipewrite_loop_result [OF assms(1,2), of addr n] assms(3) by (simp add: pipewrite_def)

text \<open>
  C24: Reading from a pipe takes from the front of its queue: \<open>piperead\<close> returns the first \<open>n\<close> bytes of the
  pipe, or all of them if there are fewer, in the order they were written, and leaves the rest. It waits
  only if the pipe is empty and its write end open, and then not if the reader was killed.
\<close>

theorem piperead_takes:
  assumes "pipes s p = Some pi" and "pipe_ok pi" and "0 \<le> sint n"
  shows "if contents pi = [] \<and> pi_writeopen pi
         then piperead p n s = (if cur_killed s then Ok (- 1, []) s else sleep (ChPipeRead (unat p)) s)
         else \<exists>s'. piperead p n s = Ok (of_nat (min (nat (sint n)) (length (contents pi))), take (nat (sint n)) (contents pi)) s' \<and>
           holds s' p pi (drop (nat (sint n)) (contents pi))"
proof -
  have empty: "contents pi = [] \<longleftrightarrow> pi_nread pi = pi_nwrite pi"
    by (simp add: contents_def ring_Nil_iff)
  obtain bs pi' where r: "piperead_loop (nat (sint n)) pi = (bs, pi')" by fastforce
  have q: "bs = take (nat (sint n)) (contents pi)" "contents pi' = drop (nat (sint n)) (contents pi)"
    "pi_data pi' = pi_data pi" "same_ends pi pi'"
    using piperead_loop_queue [OF r] by simp_all
  have "length (contents pi') \<le> PIPESIZE"
    unfolding q(2) length_drop using assms(2) by (simp only: pipe_ok_def) linarith
  then have ok: "pipe_ok pi'"
    using assms(2) q(3) by (simp only: pipe_ok_def)
  show ?thesis
  proof (cases "contents pi = [] \<and> pi_writeopen pi")
    case True
    then show ?thesis
      using assms(1) empty by (simp add: piperead_def)
  next
    case False
    let ?s = "wakeup (ChPipeWrite (unat p)) (upd_pipe p pi' s)"
    have "length bs = min (nat (sint n)) (length (contents pi))"
      unfolding q(1) by (simp add: min.commute)
    then have "piperead p n s = Ok (of_nat (min (nat (sint n)) (length (contents pi))), take (nat (sint n)) (contents pi)) ?s"
      using False assms(1) empty r q(1) unfolding piperead_def by auto
    moreover have "holds ?s p pi (drop (nat (sint n)) (contents pi))"
      unfolding holds_wakeup using ok q by (simp add: holds_def upd_pipe_def)
    ultimately show ?thesis
      using False by auto
  qed
qed

text \<open>A pipe with the counters about to wrap around.\<close>

definition pipe1 :: pipe where
  "pipe1 = \<lparr>pi_data = replicate PIPESIZE 0, pi_nread = - 1, pi_nwrite = - 1, pi_readopen = True, pi_writeopen = True\<rparr>"

lemma pipe1_ok [simp]: "pipe_ok pipe1" "contents pipe1 = []"
  by (simp_all add: pipe_ok_def pipe1_def contents_def)

definition file0 :: file_s where
  "file0 = \<lparr>f_type = FD_NONE, f_ref = 0, f_readable = False, f_writable = False, f_pipe = 0, f_ip = None, f_off = 0\<rparr>"

definition file_zero :: "drives \<Rightarrow> file_state" where
  "file_zero d = cons_state.extend (cons_zero d) (file_state.fields (replicate 100 file0) (\<lambda>_. None))"

lemma file_zero_fields [simp]: "ftable (file_zero d) = replicate 100 file0" "pipes (file_zero d) = (\<lambda>_. None)"
  by (simp_all add: file_zero_def cons_state.defs file_state.defs)

theorem pipewrite_appends_witness:
  "\<exists>s'. pipewrite 4096 [1, 2, 3] 3 ((file_zero (\<lambda>_ _. []))\<lparr>pipes := [4096 \<mapsto> pipe1]\<rparr>) = Ok 3 s' \<and>
     holds s' 4096 pipe1 [1, 2, 3]"
  using pipewrite_appends [of "(file_zero (\<lambda>_ _. []))\<lparr>pipes := [4096 \<mapsto> pipe1]\<rparr>" 4096 pipe1 "[1, 2, 3]" 3]
  by (auto simp: write_result_def PIPESIZE_def simp del: length_contents)

theorem piperead_takes_witness:
  "\<exists>s'. piperead 4096 2 ((file_zero (\<lambda>_ _. []))\<lparr>pipes := [4096 \<mapsto>
       pipe1\<lparr>pi_data := [7, 8] @ replicate 509 0 @ [6], pi_nwrite := 2\<rparr>]\<rparr>) = Ok (2, [6, 7]) s'"
proof -
  let ?pi = "pipe1\<lparr>pi_data := [7, 8] @ replicate 509 0 @ [6], pi_nwrite := 2\<rparr>"
  have "contents ?pi = [6, 7, 8]"
    by (simp add: contents_def ring_def pipe1_def PIPESIZE_def upt_rec nth_append nth_Cons'
        unsigned_minus_1_eq_mask mask_eq_exp_minus_1)
  moreover have "pipe_ok ?pi"
    by (simp add: pipe_ok_def pipe1_def PIPESIZE_def)
  ultimately show ?thesis
    using piperead_takes [of "(file_zero (\<lambda>_ _. []))\<lparr>pipes := [4096 \<mapsto> ?pi]\<rparr>" 4096 ?pi 2]
    by (auto simp: eval_nat_numeral simp del: length_contents)
qed

end
