(* ===== verification/File.thy ===== *)
theory File
  imports Pipe
begin

text \<open>
  The file table (file.c) and the creation of pipes (\<open>pipealloc\<close> of pipe.c). A pointer to an open file is
  its index in \<open>ftable.file\<close>. The critical sections of \<open>ftable.lock\<close> are atomic.
\<close>

definition NFILE :: nat where "NFILE = 100"

definition upd_file :: "nat \<Rightarrow> (file_s \<Rightarrow> file_s) \<Rightarrow> 'a file_state_scheme \<Rightarrow> 'a file_state_scheme" where
  "upd_file f g s = s\<lparr>ftable := (ftable s)[f := g (ftable s ! f)]\<rparr>"

definition filealloc :: "'a file_state_scheme \<Rightarrow> nat option \<times> 'a file_state_scheme" where
  "filealloc s =
     (case first_index (\<lambda>f. f_ref f = 0) (ftable s) of
        None \<Rightarrow> (None, s)
      | Some f \<Rightarrow> (Some f, upd_file f (\<lambda>x. x\<lparr>f_ref := 1\<rparr>) s))"

definition filedup :: "nat \<Rightarrow> 'a file_state_scheme \<Rightarrow> ('a file_state_scheme, nat) outcome" where
  "filedup f s =
     (if sint (f_ref (ftable s ! f)) < 1 then Panic ''filedup''
      else Ok f (upd_file f (\<lambda>x. x\<lparr>f_ref := f_ref x + 1\<rparr>) s))"

definition fileclose :: "nat \<Rightarrow> 'a file_state_scheme \<Rightarrow> ('a file_state_scheme, unit) outcome" where
  "fileclose f s =
     (if sint (f_ref (ftable s ! f)) < 1 then Panic ''fileclose''
      else let s = upd_file f (\<lambda>x. x\<lparr>f_ref := f_ref x - 1\<rparr>) s
           in if sint (f_ref (ftable s ! f)) > 0 then Ok () s
              else let ff = ftable s ! f;
                       s = upd_file f (\<lambda>x. x\<lparr>f_ref := 0, f_type := FD_NONE\<rparr>) s
                   in case f_type ff of
                        FD_PIPE \<Rightarrow> pipeclose (f_pipe ff) (f_writable ff) s
                      | FD_INODE \<Rightarrow>
                          (case f_ip ff of
                             None \<Rightarrow> undef
                           | Some ip \<Rightarrow> bindk (begin_op s) (\<lambda>_ s. bindk (iput ip s) (\<lambda>_ s. end_op s)))
                      | FD_NONE \<Rightarrow> Ok () s)"

definition filestat :: "nat \<Rightarrow> 'a file_state_scheme \<Rightarrow> ('a file_state_scheme, cint \<times> stat option) outcome" where
  "filestat f s =
     (if f_type (ftable s ! f) = FD_INODE
      then bindk (ilock (f_ip (ftable s ! f)) s) (\<lambda>_ s.
             case f_ip (ftable s ! f) of
               None \<Rightarrow> undef
             | Some ip \<Rightarrow>
                 bindk (stati ip s) (\<lambda>st s. bindk (iunlock (Some ip) s) (\<lambda>_ s. Ok (0, Some st) s)))
      else Ok (- 1, None) s)"

definition fileread :: "nat \<Rightarrow> cint \<Rightarrow> 'a file_state_scheme \<Rightarrow> ('a file_state_scheme, cint \<times> uchar list) outcome" where
  "fileread f n s =
     (if \<not> f_readable (ftable s ! f) then Ok (- 1, []) s
      else case f_type (ftable s ! f) of
             FD_PIPE \<Rightarrow> piperead (f_pipe (ftable s ! f)) n s
           | FD_INODE \<Rightarrow>
               bindk (ilock (f_ip (ftable s ! f)) s) (\<lambda>_ s.
                 case f_ip (ftable s ! f) of
                   None \<Rightarrow> undef
                 | Some ip \<Rightarrow>
                     bindk (readi ip (f_off (ftable s ! f)) n s) (\<lambda>(r, bs) s.
                       let s = (if sint r > 0 then upd_file f (\<lambda>x. x\<lparr>f_off := f_off x + r\<rparr>) s else s)
                       in bindk (iunlock (Some ip) s) (\<lambda>_ s. Ok (r, bs) s)))
           | FD_NONE \<Rightarrow> Panic ''fileread'')"

text \<open>One write goes to the log in pieces of at most \<open>((LOGSIZE-1-1-2) / 2) * 512\<close> bytes.\<close>

definition max_write :: nat where
  "max_write = ((LOGSIZE - 1 - 1 - 2) div 2) * 512"

text \<open>
  The loop of \<open>filewrite\<close> on the bytes still to write. It yields whether all were written: the loop
  ends with \<open>i == n\<close>, or with a break.
\<close>

function filewrite_loop :: "nat \<Rightarrow> uchar list \<Rightarrow> 'a file_state_scheme \<Rightarrow> ('a file_state_scheme, bool) outcome" where
  "filewrite_loop f src s =
     (if src = [] then Ok True s
      else let n1 = min (length src) max_write
           in bindk (begin_op s) (\<lambda>_ s.
              bindk (ilock (f_ip (ftable s ! f)) s) (\<lambda>_ s.
                case f_ip (ftable s ! f) of
                  None \<Rightarrow> undef
                | Some ip \<Rightarrow>
                    bindk (writei ip (take n1 src) (f_off (ftable s ! f)) (of_nat n1) s) (\<lambda>r s.
                      let s = (if sint r > 0 then upd_file f (\<lambda>x. x\<lparr>f_off := f_off x + r\<rparr>) s else s)
                      in bindk (iunlock (Some ip) s) (\<lambda>_ s.
                         bindk (end_op s) (\<lambda>_ s.
                           if sint r < 0 then Ok False s
                           else if r \<noteq> of_nat n1 then Panic ''short filewrite''
                           else filewrite_loop f (drop n1 src) s))))))"
  by auto
termination
  by (relation "measure (\<lambda>(f, src, s). length src)") (auto simp: max_write_def LOGSIZE_def)

declare filewrite_loop.simps [simp del]

definition filewrite :: "nat \<Rightarrow> uchar list \<Rightarrow> cint \<Rightarrow> 'a file_state_scheme \<Rightarrow> ('a file_state_scheme, cint) outcome" where
  "filewrite f addr n s =
     (if \<not> f_writable (ftable s ! f) then Ok (- 1) s
      else case f_type (ftable s ! f) of
             FD_PIPE \<Rightarrow> pipewrite (f_pipe (ftable s ! f)) addr n s
           | FD_INODE \<Rightarrow>
               if sint n < 0 then Ok (- 1) s
               else bindk (filewrite_loop f (take (nat (sint n)) addr) s) (\<lambda>all s. Ok (if all then n else - 1) s)
           | FD_NONE \<Rightarrow> Panic ''filewrite'')"

section \<open>pipealloc\<close>

definition pipealloc :: "'a file_state_scheme \<Rightarrow> ('a file_state_scheme, (nat \<times> nat) option) outcome" where
  "pipealloc s =
     (case filealloc s of
        (None, s) \<Rightarrow> Ok None s
      | (Some f0, s) \<Rightarrow>
          (case filealloc s of
             (None, s) \<Rightarrow> bindk (fileclose f0 s) (\<lambda>_ s. Ok None s)
           | (Some f1, s) \<Rightarrow>
               bindk (kalloc s) (\<lambda>p s.
                 if p = 0
                 then bindk (fileclose f0 s) (\<lambda>_ s. bindk (fileclose f1 s) (\<lambda>_ s. Ok None s))
                 else let s = upd_pipe p (pipe_init p s) s;
                          s = upd_file f0 (\<lambda>x. x\<lparr>f_type := FD_PIPE, f_readable := True, f_writable := False, f_pipe := p\<rparr>) s;
                          s = upd_file f1 (\<lambda>x. x\<lparr>f_type := FD_PIPE, f_readable := False, f_writable := True, f_pipe := p\<rparr>) s
                      in Ok (Some (f0, f1)) s)))"

end
