(* ===== verification/Vm.thy ===== *)
theory Vm
  imports Kalloc Cstring
begin

text \<open>
  Page tables (vm.c): two-level i386 tables in byte memory, built from pages of the allocator.

  Kernel virtual addresses are the addresses of the memory model, so a page directory is the address
  of its page. The linker symbol \<open>data\<close> is an argument. \<open>loaduvm\<close>, which reads a file, and the functions
  that load the processor's registers are in \<open>Exec\<close> and \<open>Process\<close>.
\<close>

section \<open>Entries (mmu.h, memlayout.h)\<close>

definition PTE_P :: uint where "PTE_P = 1"
definition PTE_W :: uint where "PTE_W = 2"
definition PTE_U :: uint where "PTE_U = 4"
definition EXTMEM :: uint where "EXTMEM = 0x100000"
definition DEVSPACE :: uint where "DEVSPACE = 0xFE000000"
definition KERNLINK :: uint where "KERNLINK = KERNBASE + EXTMEM"
definition NPDENTRIES :: nat where "NPDENTRIES = 1024"
definition NPTENTRIES :: nat where "NPTENTRIES = 1024"

definition PDX :: "uint \<Rightarrow> uint" where "PDX va = drop_bit 22 va AND 0x3FF"
definition PTX :: "uint \<Rightarrow> uint" where "PTX va = drop_bit 12 va AND 0x3FF"
definition PTE_ADDR :: "uint \<Rightarrow> uint" where "PTE_ADDR pte = pte AND NOT 0xFFF"
definition PTE_FLAGS :: "uint \<Rightarrow> uint" where "PTE_FLAGS pte = pte AND 0xFFF"

abbreviation mload :: "'a kmem_state_scheme \<Rightarrow> uint \<Rightarrow> uint" where
  "mload s a \<equiv> load32 (kmem_mem s) a"

definition mstore :: "uint \<Rightarrow> uint \<Rightarrow> 'a kmem_state_scheme \<Rightarrow> 'a kmem_state_scheme" where
  "mstore a w s = s\<lparr>kmem_mem := store32 (kmem_mem s) a w\<rparr>"

definition mzero_page :: "uint \<Rightarrow> 'a kmem_state_scheme \<Rightarrow> 'a kmem_state_scheme" where
  "mzero_page a s = s\<lparr>kmem_mem := fill (kmem_mem s) a 0 PGSIZE\<rparr>"

section \<open>Walking and mapping\<close>

definition walkpgdir :: "uint \<Rightarrow> uint \<Rightarrow> bool \<Rightarrow> 'a kmem_state_scheme \<Rightarrow> ('a kmem_state_scheme, uint) outcome" where
  "walkpgdir pgdir va alloc s =
     (let pde = pgdir + 4 * PDX va
      in if mload s pde AND PTE_P \<noteq> 0 then Ok (p2v (PTE_ADDR (mload s pde)) + 4 * PTX va) s
         else if \<not> alloc then Ok 0 s
         else bindk (kalloc s) (\<lambda>pgtab s.
                if pgtab = 0 then Ok 0 s
                else let s = mzero_page pgtab s;
                         s = mstore pde (v2p pgtab OR PTE_P OR PTE_W OR PTE_U) s
                     in Ok (pgtab + 4 * PTX va) s))"

text \<open>The loop of \<open>mappages\<close>: \<open>k\<close> pages follow the one at \<open>a\<close> until \<open>a == last\<close>.\<close>

fun mappages_loop :: "nat \<Rightarrow> uint \<Rightarrow> uint \<Rightarrow> uint \<Rightarrow> uint \<Rightarrow> 'a kmem_state_scheme \<Rightarrow> ('a kmem_state_scheme, cint) outcome" where
  "mappages_loop k pgdir a pa perm s =
     bindk (walkpgdir pgdir a True s) (\<lambda>pte s.
       if pte = 0 then Ok (- 1) s
       else if mload s pte AND PTE_P \<noteq> 0 then Panic ''remap''
       else let s = mstore pte (pa OR perm OR PTE_P) s
            in case k of
                 0 \<Rightarrow> Ok 0 s
               | Suc k' \<Rightarrow> mappages_loop k' pgdir (a + PGSIZE) (pa + PGSIZE) perm s)"

declare mappages_loop.simps [simp del]

definition mappages :: "uint \<Rightarrow> uint \<Rightarrow> uint \<Rightarrow> uint \<Rightarrow> uint \<Rightarrow> 'a kmem_state_scheme \<Rightarrow> ('a kmem_state_scheme, cint) outcome" where
  "mappages pgdir va sz pa perm s =
     (let a = PGROUNDDOWN va;
          last = PGROUNDDOWN (va + sz - 1)
      in mappages_loop (unat ((last - a) div PGSIZE)) pgdir a pa perm s)"

section \<open>The kernel part\<close>

record kmap_entry =
  k_virt :: uint
  k_start :: uint
  k_end :: uint
  k_perm :: uint

definition kmap :: "uint \<Rightarrow> kmap_entry list" where
  "kmap data = [\<lparr>k_virt = KERNBASE, k_start = 0, k_end = EXTMEM, k_perm = PTE_W\<rparr>,
     \<lparr>k_virt = KERNLINK, k_start = v2p KERNLINK, k_end = v2p data, k_perm = 0\<rparr>,
     \<lparr>k_virt = data, k_start = v2p data, k_end = PHYSTOP, k_perm = PTE_W\<rparr>,
     \<lparr>k_virt = DEVSPACE, k_start = DEVSPACE, k_end = 0, k_perm = PTE_W\<rparr>]"

fun setupkvm_loop :: "kmap_entry list \<Rightarrow> uint \<Rightarrow> 'a kmem_state_scheme \<Rightarrow> ('a kmem_state_scheme, uint) outcome" where
  "setupkvm_loop [] pgdir s = Ok pgdir s"
| "setupkvm_loop (k # ks) pgdir s =
     bindk (mappages pgdir (k_virt k) (k_end k - k_start k) (k_start k) (k_perm k) s) (\<lambda>r s.
       if sint r < 0 then Ok 0 s else setupkvm_loop ks pgdir s)"

definition setupkvm :: "uint \<Rightarrow> 'a kmem_state_scheme \<Rightarrow> ('a kmem_state_scheme, uint) outcome" where
  "setupkvm data s =
     bindk (kalloc s) (\<lambda>pgdir s.
       if pgdir = 0 then Ok 0 s
       else let s = mzero_page pgdir s
            in if p2v PHYSTOP > DEVSPACE then Panic ''PHYSTOP too high'' else setupkvm_loop (kmap data) pgdir s)"

section \<open>The user part\<close>

text \<open>Storing a list of bytes at an address (\<open>memmove\<close> from a buffer that is a value of the model).\<close>

fun mwrite :: "uint \<Rightarrow> uchar list \<Rightarrow> memory \<Rightarrow> memory" where
  "mwrite a [] m = m"
| "mwrite a (b # bs) m = mwrite (a + 1) bs (m(a := b))"

definition mread :: "memory \<Rightarrow> uint \<Rightarrow> nat \<Rightarrow> uchar list" where
  "mread m a n = map (\<lambda>k. m (a + of_nat k)) [0..<n]"

definition inituvm :: "uint \<Rightarrow> uchar list \<Rightarrow> 'a kmem_state_scheme \<Rightarrow> ('a kmem_state_scheme, unit) outcome" where
  "inituvm pgdir init s =
     (if length init \<ge> unat PGSIZE then Panic ''inituvm: more than a page''
      else bindk (kalloc s) (\<lambda>mem s.
           bindk (mappages pgdir 0 PGSIZE (v2p mem) (PTE_W OR PTE_U) (mzero_page mem s)) (\<lambda>_ s.
             Ok () (s\<lparr>kmem_mem := mwrite mem init (kmem_mem s)\<rparr>))))"

text \<open>
  \<open>deallocuvm\<close> with the number of pages from \<open>a\<close> to \<open>oldsz\<close> as fuel. A missing page table skips 1024
  pages at once; the address cannot wrap around for the sizes below \<open>KERNBASE\<close> that the kernel passes.
\<close>

fun deallocuvm_loop :: "nat \<Rightarrow> uint \<Rightarrow> uint \<Rightarrow> uint \<Rightarrow> 'a kmem_state_scheme \<Rightarrow> ('a kmem_state_scheme, unit) outcome" where
  "deallocuvm_loop k pgdir a oldsz s =
     (if \<not> a < oldsz then Ok () s
      else case k of
             0 \<Rightarrow> Spin
           | Suc k' \<Rightarrow>
               bindk (walkpgdir pgdir a False s) (\<lambda>pte s.
                 if pte = 0 then deallocuvm_loop k' pgdir (a + of_nat (NPTENTRIES - 1) * PGSIZE + PGSIZE) oldsz s
                 else if mload s pte AND PTE_P \<noteq> 0
                 then let pa = PTE_ADDR (mload s pte)
                      in if pa = 0 then Panic ''kfree''
                         else bindk (kfree (p2v pa) s) (\<lambda>_ s. deallocuvm_loop k' pgdir (a + PGSIZE) oldsz (mstore pte 0 s))
                 else deallocuvm_loop k' pgdir (a + PGSIZE) oldsz s))"

declare deallocuvm_loop.simps [simp del]

definition deallocuvm :: "uint \<Rightarrow> uint \<Rightarrow> uint \<Rightarrow> 'a kmem_state_scheme \<Rightarrow> ('a kmem_state_scheme, uint) outcome" where
  "deallocuvm pgdir oldsz newsz s =
     (if newsz \<ge> oldsz then Ok oldsz s
      else bindk (deallocuvm_loop (unat oldsz div 4096 + 1) pgdir (PGROUNDUP newsz) oldsz s) (\<lambda>_ s. Ok newsz s))"

fun allocuvm_loop :: "uint list \<Rightarrow> uint \<Rightarrow> uint \<Rightarrow> uint \<Rightarrow> 'a kmem_state_scheme \<Rightarrow> ('a kmem_state_scheme, uint) outcome" where
  "allocuvm_loop [] pgdir oldsz newsz s = Ok newsz s"
| "allocuvm_loop (a # as) pgdir oldsz newsz s =
     bindk (kalloc s) (\<lambda>mem s.
       if mem = 0 then bindk (deallocuvm pgdir newsz oldsz s) (\<lambda>_ s. Ok 0 s)
       else bindk (mappages pgdir a PGSIZE (v2p mem) (PTE_W OR PTE_U) (mzero_page mem s)) (\<lambda>_ s.
              allocuvm_loop as pgdir oldsz newsz s))"

text \<open>The page addresses \<open>a, a + PGSIZE, ...\<close> below \<open>b\<close>.\<close>

definition page_addrs :: "uint \<Rightarrow> uint \<Rightarrow> uint list" where
  "page_addrs a b = map (\<lambda>k. a + of_nat k * PGSIZE) [0..<(unat b - unat a + 4095) div 4096]"

definition allocuvm :: "uint \<Rightarrow> uint \<Rightarrow> uint \<Rightarrow> 'a kmem_state_scheme \<Rightarrow> ('a kmem_state_scheme, uint) outcome" where
  "allocuvm pgdir oldsz newsz s =
     (if newsz \<ge> KERNBASE then Ok 0 s
      else if newsz < oldsz then Ok oldsz s
      else allocuvm_loop (page_addrs (PGROUNDUP oldsz) newsz) pgdir oldsz newsz s)"

fun freevm_loop :: "nat list \<Rightarrow> uint \<Rightarrow> 'a kmem_state_scheme \<Rightarrow> ('a kmem_state_scheme, unit) outcome" where
  "freevm_loop [] pgdir s = Ok () s"
| "freevm_loop (i # is) pgdir s =
     (let e = mload s (pgdir + 4 * of_nat i)
      in if e AND PTE_P \<noteq> 0 then bindk (kfree (p2v (PTE_ADDR e)) s) (\<lambda>_ s. freevm_loop is pgdir s)
         else freevm_loop is pgdir s)"

definition freevm :: "uint \<Rightarrow> 'a kmem_state_scheme \<Rightarrow> ('a kmem_state_scheme, unit) outcome" where
  "freevm pgdir s =
     (if pgdir = 0 then Panic ''freevm: no pgdir''
      else bindk (deallocuvm pgdir KERNBASE 0 s) (\<lambda>_ s.
           bindk (freevm_loop [0..<NPDENTRIES] pgdir s) (\<lambda>_ s. kfree pgdir s)))"

definition clearpteu :: "uint \<Rightarrow> uint \<Rightarrow> 'a kmem_state_scheme \<Rightarrow> ('a kmem_state_scheme, unit) outcome" where
  "clearpteu pgdir uva s =
     bindk (walkpgdir pgdir uva False s) (\<lambda>pte s.
       if pte = 0 then Panic ''clearpteu'' else Ok () (mstore pte (mload s pte AND NOT PTE_U) s))"

fun copyuvm_loop :: "uint list \<Rightarrow> uint \<Rightarrow> uint \<Rightarrow> 'a kmem_state_scheme \<Rightarrow> ('a kmem_state_scheme, uint) outcome" where
  "copyuvm_loop [] pgdir d s = Ok d s"
| "copyuvm_loop (i # is) pgdir d s =
     bindk (walkpgdir pgdir i False s) (\<lambda>pte s.
       if pte = 0 then Panic ''copyuvm: pte should exist''
       else if mload s pte AND PTE_P = 0 then Panic ''copyuvm: page not present''
       else let pa = PTE_ADDR (mload s pte);
                flags = PTE_FLAGS (mload s pte)
            in bindk (kalloc s) (\<lambda>mem s.
                 if mem = 0 then bindk (freevm d s) (\<lambda>_ s. Ok 0 s)
                 else let s = s\<lparr>kmem_mem := memmove (kmem_mem s) mem (p2v pa) PGSIZE\<rparr>
                      in bindk (mappages d i PGSIZE (v2p mem) flags s) (\<lambda>r s.
                           if sint r < 0 then bindk (freevm d s) (\<lambda>_ s. Ok 0 s)
                           else copyuvm_loop is pgdir d s)))"

definition copyuvm :: "uint \<Rightarrow> uint \<Rightarrow> uint \<Rightarrow> 'a kmem_state_scheme \<Rightarrow> ('a kmem_state_scheme, uint) outcome" where
  "copyuvm data pgdir sz s =
     bindk (setupkvm data s) (\<lambda>d s. if d = 0 then Ok 0 s else copyuvm_loop (page_addrs 0 sz) pgdir d s)"

text \<open>Following a null page table entry is \<open>undef\<close>: the code does not test for it.\<close>

definition uva2ka :: "uint \<Rightarrow> uint \<Rightarrow> 'a kmem_state_scheme \<Rightarrow> ('a kmem_state_scheme, uint) outcome" where
  "uva2ka pgdir uva s =
     bindk (walkpgdir pgdir uva False s) (\<lambda>pte s.
       if pte = 0 then Panic ''undefined behaviour''
       else if mload s pte AND PTE_P = 0 then Ok 0 s
       else if mload s pte AND PTE_U = 0 then Ok 0 s
       else Ok (p2v (PTE_ADDR (mload s pte))) s)"

text \<open>The part of \<open>bs\<close> that fits on the page of \<open>va\<close>.\<close>

definition page_chunk :: "uint \<Rightarrow> uchar list \<Rightarrow> nat" where
  "page_chunk va bs = min (length bs) (unat (PGSIZE - (va - PGROUNDDOWN va)))"

lemma PGROUNDDOWN_offset: "va - PGROUNDDOWN va = va AND 0xFFF"
proof -
  have "va = (va AND NOT 0xFFF) + (va AND 0xFFF)"
    by (subst disjunctive_add) (auto intro!: bit_word_eqI simp: bit_simps)
  then show ?thesis
    unfolding PGROUNDDOWN_def PGSIZE_def by (simp add: diff_eq_eq add.commute)
qed

lemma page_chunk_pos:
  assumes "bs \<noteq> []"
  shows "0 < page_chunk va bs"
proof -
  have "va AND 0xFFF \<le> 0xFFF"
    by (simp add: word_and_le1)
  then have "PGSIZE - (va AND 0xFFF) \<noteq> 0"
    by (auto simp: PGSIZE_def)
  then have "0 < unat (PGSIZE - (va AND 0xFFF))"
    by (simp add: unat_gt_0)
  then show ?thesis
    using assms by (simp add: page_chunk_def PGROUNDDOWN_offset)
qed

function copyout :: "uint \<Rightarrow> uint \<Rightarrow> uchar list \<Rightarrow> 'a kmem_state_scheme \<Rightarrow> ('a kmem_state_scheme, cint) outcome" where
  "copyout pgdir va buf s =
     (if buf = [] then Ok 0 s
      else let va0 = PGROUNDDOWN va
           in bindk (uva2ka pgdir va0 s) (\<lambda>pa0 s.
                if pa0 = 0 then Ok (- 1) s
                else let n = page_chunk va buf
                     in copyout pgdir (va0 + PGSIZE) (drop n buf)
                          (s\<lparr>kmem_mem := mwrite (pa0 + (va - va0)) (take n buf) (kmem_mem s)\<rparr>)))"
  by auto
termination
  by (relation "measure (\<lambda>(pgdir, va, buf, s). length buf)") (auto simp: page_chunk_pos)

declare copyout.simps [simp del]

section \<open>What the processor does with a page table\<close>

text \<open>The translation of a linear address by the page tables, without protection.\<close>

definition translate :: "uint \<Rightarrow> uint \<Rightarrow> 'a kmem_state_scheme \<Rightarrow> uint option" where
  "translate pgdir va s =
     (let pde = mload s (pgdir + 4 * PDX va)
      in if pde AND PTE_P = 0 then None
         else let pte = mload s (p2v (PTE_ADDR pde) + 4 * PTX va)
              in if pte AND PTE_P = 0 then None else Some (PTE_ADDR pte OR (va AND 0xFFF)))"

end
