(* ===== verification/Process.thy ===== *)
theory Process
  imports File Vm
begin

text \<open>
  The life of a process (proc.c): \<open>userinit\<close>, \<open>growproc\<close>, \<open>fork\<close>, \<open>exit\<close>, \<open>wait\<close>, \<open>forkret\<close> and the switch
  of address spaces (vm.c). \<open>cr3\<close> and \<open>ts_esp0\<close> are what \<open>lcr3\<close> and the task state segment hold. The
  linker symbol \<open>data\<close> is \<open>kdata\<close>; the init code, a binary the build produces, is an argument.

  \<open>exit\<close> leaves the CPU for good: its outcome is \<open>Sleep\<close> with the process a zombie, which no wakeup
  makes runnable.
\<close>

record proc_state = file_state +
  kpgdir :: uint
  kdata :: uint
  cr3 :: uint
  ts_esp0 :: uint
  ticks :: uint
  forkret_first :: bool
  kbd_shift :: uint

section \<open>Address spaces\<close>

definition switchkvm :: "'a proc_state_scheme \<Rightarrow> 'a proc_state_scheme" where
  "switchkvm s = s\<lparr>cr3 := v2p (kpgdir s)\<rparr>"

definition kvmalloc :: "'a proc_state_scheme \<Rightarrow> ('a proc_state_scheme, unit) outcome" where
  "kvmalloc s = bindk (setupkvm (kdata s) s) (\<lambda>d s. Ok () (switchkvm (s\<lparr>kpgdir := d\<rparr>)))"

definition switchuvm :: "nat \<Rightarrow> 'a proc_state_scheme \<Rightarrow> ('a proc_state_scheme, unit) outcome" where
  "switchuvm p s =
     (case cur s of
        None \<Rightarrow> undef
      | Some c \<Rightarrow>
          let s = s\<lparr>ts_esp0 := p_kstack (procs s ! c) + KSTACKSIZE\<rparr>
          in if p_pgdir (procs s ! p) = 0 then Panic ''switchuvm: no pgdir''
             else Ok () (s\<lparr>cr3 := v2p (p_pgdir (procs s ! p))\<rparr>))"

definition growproc :: "cint \<Rightarrow> 'a proc_state_scheme \<Rightarrow> ('a proc_state_scheme, cint) outcome" where
  "growproc n s =
     (case cur s of
        None \<Rightarrow> undef
      | Some p \<Rightarrow>
          let sz = p_sz (procs s ! p); pgdir = p_pgdir (procs s ! p)
          in bindk (if 0 < sint n then allocuvm pgdir sz (sz + n) s
                    else if sint n < 0 then deallocuvm pgdir sz (sz + n) s
                    else Ok sz s) (\<lambda>sz s.
               if n \<noteq> 0 \<and> sz = 0 then Ok (- 1) s
               else bindk (switchuvm p (upd_proc p (\<lambda>q. q\<lparr>p_sz := sz\<rparr>) s)) (\<lambda>_ s. Ok 0 s)))"

section \<open>fork, exit and wait\<close>

fun fork_files :: "nat list \<Rightarrow> nat \<Rightarrow> nat \<Rightarrow> 'a proc_state_scheme \<Rightarrow> ('a proc_state_scheme, unit) outcome" where
  "fork_files [] p np s = Ok () s"
| "fork_files (i # is) p np s =
     (case p_ofile (procs s ! p) ! i of
        None \<Rightarrow> fork_files is p np s
      | Some f \<Rightarrow>
          bindk (filedup f s) (\<lambda>f s.
            fork_files is p np (upd_proc np (\<lambda>q. q\<lparr>p_ofile := (p_ofile q)[i := Some f]\<rparr>) s)))"

definition fork :: "'a proc_state_scheme \<Rightarrow> ('a proc_state_scheme, cint) outcome" where
  "fork s =
     (case cur s of
        None \<Rightarrow> undef
      | Some p \<Rightarrow>
          bindk (allocproc s) (\<lambda>r s.
            case r of
              None \<Rightarrow> Ok (- 1) s
            | Some np \<Rightarrow>
                bindk (copyuvm (kdata s) (p_pgdir (procs s ! p)) (p_sz (procs s ! p)) s) (\<lambda>d s.
                  let s = upd_proc np (\<lambda>q. q\<lparr>p_pgdir := d\<rparr>) s
                  in if d = 0
                     then bindk (kfree (p_kstack (procs s ! np)) s) (\<lambda>_ s.
                            Ok (- 1) (upd_proc np (\<lambda>q. q\<lparr>p_kstack := 0, p_state := UNUSED\<rparr>) s))
                     else
                       let s = upd_proc np (\<lambda>q. q\<lparr>p_sz := p_sz (procs s ! p), p_parent := Some p\<rparr>) s;
                           m = mwrite (p_tf (procs s ! np)) (mread (kmem_mem s) (p_tf (procs s ! p)) (unat sizeof_trapframe))
                                 (kmem_mem s);
                           s = s\<lparr>kmem_mem := store32 m (p_tf (procs s ! np) + tf_eax) 0\<rparr>
                       in bindk (fork_files [0..<NOFILE] p np s) (\<lambda>_ s.
                            case p_cwd (procs s ! p) of
                              None \<Rightarrow> undef
                            | Some c \<Rightarrow>
                                let s = upd_proc np (\<lambda>q. q\<lparr>p_cwd := Some c\<rparr>) (idup c s);
                                    s = upd_proc np (\<lambda>q. q\<lparr>p_name :=
                                          safestrcpy_str (p_name q) (cstring (p_name (procs s ! p))) 16\<rparr>) s;
                                    pid = p_pid (procs s ! np)
                                in Ok pid (upd_proc np (\<lambda>q. q\<lparr>p_state := RUNNABLE\<rparr>) s)))))"

fun exit_files :: "nat list \<Rightarrow> nat \<Rightarrow> 'a proc_state_scheme \<Rightarrow> ('a proc_state_scheme, unit) outcome" where
  "exit_files [] p s = Ok () s"
| "exit_files (fd # fds) p s =
     (case p_ofile (procs s ! p) ! fd of
        None \<Rightarrow> exit_files fds p s
      | Some f \<Rightarrow>
          bindk (fileclose f s) (\<lambda>_ s.
            exit_files fds p (upd_proc p (\<lambda>q. q\<lparr>p_ofile := (p_ofile q)[fd := None]\<rparr>) s)))"

definition exit_proc :: "'a proc_state_scheme \<Rightarrow> ('a proc_state_scheme, 'b) outcome" where
  "exit_proc s =
     (case cur s of
        None \<Rightarrow> undef
      | Some p \<Rightarrow>
          if initproc s = Some p then Panic ''init exiting''
          else bindk (exit_files [0..<NOFILE] p s) (\<lambda>_ s.
               bindk (begin_op s) (\<lambda>_ s.
                 case p_cwd (procs s ! p) of
                   None \<Rightarrow> undef
                 | Some c \<Rightarrow>
                     bindk (iput c s) (\<lambda>_ s.
                     bindk (end_op s) (\<lambda>_ s.
                       Sleep (ChProc p) (exit_table p (upd_proc p (\<lambda>q. q\<lparr>p_cwd := None\<rparr>) s)))))))"

definition wait :: "'a proc_state_scheme \<Rightarrow> ('a proc_state_scheme, cint) outcome" where
  "wait s =
     (case cur s of
        None \<Rightarrow> undef
      | Some p \<Rightarrow>
          (case first_index (\<lambda>q. p_parent q = Some p \<and> p_state q = ZOMBIE) (procs s) of
             Some c \<Rightarrow>
               let pid = p_pid (procs s ! c)
               in bindk (kfree (p_kstack (procs s ! c)) s) (\<lambda>_ s.
                  bindk (freevm (p_pgdir (procs s ! c)) (upd_proc c (\<lambda>q. q\<lparr>p_kstack := 0\<rparr>) s)) (\<lambda>_ s.
                    Ok pid (upd_proc c (\<lambda>q. q\<lparr>p_state := UNUSED, p_pid := 0, p_parent := None,
                              p_name := (p_name q)[0 := 0], p_killed := False\<rparr>) s)))
           | None \<Rightarrow>
               if \<not> list_ex (\<lambda>q. p_parent q = Some p) (procs s) \<or> p_killed (procs s ! p) then Ok (- 1) s
               else sleep (ChProc p) s))"

section \<open>The first process\<close>

definition SEG_UCODE :: uint where "SEG_UCODE = 4"
definition SEG_UDATA :: uint where "SEG_UDATA = 5"
definition DPL_USER :: uint where "DPL_USER = 3"
definition FL_IF :: uint where "FL_IF = 0x200"

text \<open>Segment registers are 16-bit fields of the trap frame with 16 bits of padding.\<close>

definition store16 :: "memory \<Rightarrow> uint \<Rightarrow> ushort \<Rightarrow> memory" where
  "store16 m a w = mwrite a (enc16 w) m"

definition userinit :: "uchar list \<Rightarrow> 'a proc_state_scheme \<Rightarrow> ('a proc_state_scheme, unit) outcome" where
  "userinit initcode s =
     bindk (allocproc s) (\<lambda>r s.
       case r of
         None \<Rightarrow> undef
       | Some p \<Rightarrow>
           bindk (setupkvm (kdata s) (s\<lparr>initproc := Some p\<rparr>)) (\<lambda>d s.
             if d = 0 then Panic ''userinit: out of memory?''
             else
               bindk (inituvm d initcode (upd_proc p (\<lambda>q. q\<lparr>p_pgdir := d\<rparr>) s)) (\<lambda>_ s.
                 let tf = p_tf (procs s ! p);
                     m = fill (kmem_mem s) tf 0 sizeof_trapframe;
                     m = store16 m (tf + tf_cs) (ucast (push_bit 3 SEG_UCODE OR DPL_USER));
                     m = store16 m (tf + tf_ds) (ucast (push_bit 3 SEG_UDATA OR DPL_USER));
                     m = store16 m (tf + tf_es) (ucast (push_bit 3 SEG_UDATA OR DPL_USER));
                     m = store16 m (tf + tf_ss) (ucast (push_bit 3 SEG_UDATA OR DPL_USER));
                     m = store32 m (tf + tf_eflags) FL_IF;
                     m = store32 m (tf + tf_esp) PGSIZE;
                     m = store32 m (tf + tf_eip) 0;
                     s = upd_proc p (\<lambda>q. q\<lparr>p_sz := PGSIZE,
                           p_name := safestrcpy_str (p_name q) [105, 110, 105, 116, 99, 111, 100, 101] 16\<rparr>)
                           (s\<lparr>kmem_mem := m\<rparr>)
                 in bindk (namei [slash] s) (\<lambda>ip s.
                      Ok () (upd_proc p (\<lambda>q. q\<lparr>p_cwd := ip, p_state := RUNNABLE\<rparr>) s)))))"

definition forkret :: "'a proc_state_scheme \<Rightarrow> ('a proc_state_scheme, unit) outcome" where
  "forkret s =
     (if forkret_first s
      then bindk (iinit ROOTDEV (s\<lparr>forkret_first := False\<rparr>)) (\<lambda>_ s. initlog (get_boot_block s) s)
      else Ok () s)"

text \<open>One turn of \<open>scheduler\<close> at table index \<open>i\<close>: the process runs until it switches back.\<close>

definition scheduler_turn :: "nat \<Rightarrow> 'a proc_state_scheme \<Rightarrow> ('a proc_state_scheme, bool) outcome" where
  "scheduler_turn i s =
     (if p_state (procs s ! i) \<noteq> RUNNABLE then Ok False s
      else bindk (switchuvm i (s\<lparr>cur := Some i\<rparr>)) (\<lambda>_ s.
             Ok True (upd_proc i (\<lambda>p. p\<lparr>p_state := RUNNING\<rparr>) s)))"

text \<open>What \<open>scheduler\<close> does when the process has switched back.\<close>

definition scheduler_back :: "'a proc_state_scheme \<Rightarrow> 'a proc_state_scheme" where
  "scheduler_back s = (switchkvm s)\<lparr>cur := None\<rparr>"

end
