(* ===== verification/Exec.thy ===== *)
theory Exec
  imports Process
begin

text \<open>
  Loading a program: \<open>exec\<close> (exec.c), \<open>loaduvm\<close> (vm.c) and the ELF structures (elf.h). The argument
  strings are values; a path is a C string.
\<close>

definition MAXARG :: nat where "MAXARG = 32"
definition ELF_MAGIC :: uint where "ELF_MAGIC = 0x464C457F"
definition ELF_PROG_LOAD :: uint where "ELF_PROG_LOAD = 1"

record elfhdr =
  e_magic :: uint
  e_entry :: uint
  e_phoff :: uint
  e_phnum :: ushort

record proghdr =
  ph_type :: uint
  ph_off :: uint
  ph_vaddr :: uint
  ph_filesz :: uint
  ph_memsz :: uint

definition dec_elfhdr :: "uchar list \<Rightarrow> elfhdr" where
  "dec_elfhdr d = \<lparr>e_magic = get32 0 d, e_entry = get32 24 d, e_phoff = get32 28 d, e_phnum = get16 44 d\<rparr>"

definition dec_proghdr :: "uchar list \<Rightarrow> proghdr" where
  "dec_proghdr d = \<lparr>ph_type = get32 0 d, ph_off = get32 4 d, ph_vaddr = get32 8 d, ph_filesz = get32 16 d,
     ph_memsz = get32 20 d\<rparr>"

fun loaduvm_loop :: "uint list \<Rightarrow> uint \<Rightarrow> uint \<Rightarrow> nat \<Rightarrow> uint \<Rightarrow> uint \<Rightarrow> 'a proc_state_scheme \<Rightarrow>
    ('a proc_state_scheme, cint) outcome" where
  "loaduvm_loop [] pgdir addr ip offset sz s = Ok 0 s"
| "loaduvm_loop (i # is) pgdir addr ip offset sz s =
     bindk (walkpgdir pgdir (addr + i) False s) (\<lambda>pte s.
       if pte = 0 then Panic ''loaduvm: address should exist''
       else let pa = PTE_ADDR (mload s pte);
                n = (if sz - i < PGSIZE then sz - i else PGSIZE)
            in bindk (readi ip (offset + i) n s) (\<lambda>(r, bs) s.
                 let s = s\<lparr>kmem_mem := mwrite (p2v pa) bs (kmem_mem s)\<rparr>
                 in if r \<noteq> n then Ok (- 1) s else loaduvm_loop is pgdir addr ip offset sz s))"

definition loaduvm :: "uint \<Rightarrow> uint \<Rightarrow> nat \<Rightarrow> uint \<Rightarrow> uint \<Rightarrow> 'a proc_state_scheme \<Rightarrow> ('a proc_state_scheme, cint) outcome" where
  "loaduvm pgdir addr ip offset sz s =
     (if addr mod PGSIZE \<noteq> 0 then Panic ''loaduvm: addr must be page aligned''
      else loaduvm_loop (page_addrs 0 sz) pgdir addr ip offset sz s)"

text \<open>The code at label \<open>bad\<close>.\<close>

definition exec_bad :: "uint \<Rightarrow> nat option \<Rightarrow> 'a proc_state_scheme \<Rightarrow> ('a proc_state_scheme, cint) outcome" where
  "exec_bad pgdir ip s =
     bindk (if pgdir \<noteq> 0 then freevm pgdir s else Ok () s) (\<lambda>_ s.
       case ip of
         None \<Rightarrow> Ok (- 1) s
       | Some ip \<Rightarrow> bindk (iunlockput ip s) (\<lambda>_ s. bindk (end_op s) (\<lambda>_ s. Ok (- 1) s)))"

text \<open>Loading the segments; \<open>None\<close> is a jump to \<open>bad\<close>.\<close>

fun exec_load :: "nat list \<Rightarrow> uint \<Rightarrow> uint \<Rightarrow> nat \<Rightarrow> uint \<Rightarrow> 'a proc_state_scheme \<Rightarrow> ('a proc_state_scheme, uint option) outcome" where
  "exec_load [] phoff pgdir ip sz s = Ok (Some sz) s"
| "exec_load (i # is) phoff pgdir ip sz s =
     bindk (readi ip (phoff + 32 * of_nat i) 32 s) (\<lambda>(r, d) s.
       if r \<noteq> 32 then Ok None s
       else let ph = dec_proghdr d
            in if ph_type ph \<noteq> ELF_PROG_LOAD then exec_load is phoff pgdir ip sz s
               else if ph_memsz ph < ph_filesz ph then Ok None s
               else bindk (allocuvm pgdir sz (ph_vaddr ph + ph_memsz ph) s) (\<lambda>sz s.
                      if sz = 0 then Ok None s
                      else bindk (loaduvm pgdir (ph_vaddr ph) ip (ph_off ph) (ph_filesz ph) s) (\<lambda>r s.
                             if sint r < 0 then Ok None s else exec_load is phoff pgdir ip sz s)))"

text \<open>Pushing the argument strings; yields the stack pointer and the addresses of the strings.\<close>

fun push_args :: "uchar list list \<Rightarrow> uint list \<Rightarrow> uint \<Rightarrow> uint \<Rightarrow> 'a proc_state_scheme \<Rightarrow>
    ('a proc_state_scheme, (uint \<times> uint list) option) outcome" where
  "push_args [] ustack sp pgdir s = Ok (Some (sp, ustack)) s"
| "push_args (arg # args) ustack sp pgdir s =
     (if length ustack \<ge> MAXARG then Ok None s
      else let sp = (sp - of_nat (length arg + 1)) AND NOT 3
           in bindk (copyout pgdir sp (arg @ [0]) s) (\<lambda>r s.
                if sint r < 0 then Ok None s else push_args args (ustack @ [sp]) sp pgdir s))"

definition last_elem :: "uchar list \<Rightarrow> uchar list" where
  "last_elem path = rev (takeWhile (\<lambda>c. c \<noteq> slash) (rev path))"

text \<open>From the stack on: two pages, the arguments, and the switch to the new image.\<close>

definition exec_stack :: "uchar list \<Rightarrow> uchar list list \<Rightarrow> elfhdr \<Rightarrow> uint \<Rightarrow> uint \<Rightarrow> 'a proc_state_scheme \<Rightarrow>
    ('a proc_state_scheme, cint) outcome" where
  "exec_stack path argv elf pgdir sz s =
     (let sz = PGROUNDUP sz
      in bindk (allocuvm pgdir sz (sz + 2 * PGSIZE) s) (\<lambda>sz s.
           if sz = 0 then exec_bad pgdir None s
           else bindk (clearpteu pgdir (sz - 2 * PGSIZE) s) (\<lambda>_ s.
                bindk (push_args argv [] sz pgdir s) (\<lambda>r s.
                  case r of
                    None \<Rightarrow> exec_bad pgdir None s
                  | Some (sp, addrs) \<Rightarrow>
                      let argc = of_nat (length addrs) :: uint;
                          ustack = [0xffffffff, argc, sp - (argc + 1) * 4] @ addrs @ [0];
                          sp = sp - (3 + argc + 1) * 4
                      in bindk (copyout pgdir sp (concat (map enc32 ustack)) s) (\<lambda>r s.
                           if sint r < 0 then exec_bad pgdir None s
                           else case cur s of
                                  None \<Rightarrow> undef
                                | Some p \<Rightarrow>
                                    let s = upd_proc p (\<lambda>q. q\<lparr>p_name := safestrcpy_str (p_name q) (last_elem path) 16\<rparr>) s;
                                        oldpgdir = p_pgdir (procs s ! p);
                                        s = upd_proc p (\<lambda>q. q\<lparr>p_pgdir := pgdir, p_sz := sz\<rparr>) s;
                                        tf = p_tf (procs s ! p);
                                        s = mstore (tf + tf_esp) sp (mstore (tf + tf_eip) (e_entry elf) s)
                                    in bindk (switchuvm p s) (\<lambda>_ s.
                                       bindk (freevm oldpgdir s) (\<lambda>_ s. Ok 0 s)))))))"

text \<open>
  The header test compares the signed result of \<open>readi\<close> with an unsigned size, so a result of -1
  passes; the header is then uninitialised memory.
\<close>

definition exec :: "uchar list \<Rightarrow> uchar list list \<Rightarrow> 'a proc_state_scheme \<Rightarrow> ('a proc_state_scheme, cint) outcome" where
  "exec path argv s =
     bindk (begin_op s) (\<lambda>_ s.
     bindk (namei path s) (\<lambda>ip s.
       case ip of
         None \<Rightarrow> bindk (end_op s) (\<lambda>_ s. Ok (- 1) s)
       | Some ip \<Rightarrow>
           bindk (ilock (Some ip) s) (\<lambda>_ s.
           bindk (readi ip 0 52 s) (\<lambda>(r, d) s.
             if unat r < 52 then exec_bad 0 (Some ip) s
             else if sint r < 0 then undef
             else let elf = dec_elfhdr d
                  in if e_magic elf \<noteq> ELF_MAGIC then exec_bad 0 (Some ip) s
                     else bindk (setupkvm (kdata s) s) (\<lambda>pgdir s.
                            if pgdir = 0 then exec_bad 0 (Some ip) s
                            else bindk (exec_load [0..<unat (e_phnum elf)] (e_phoff elf) pgdir ip 0 s) (\<lambda>r s.
                                   case r of
                                     None \<Rightarrow> exec_bad pgdir (Some ip) s
                                   | Some sz \<Rightarrow>
                                       bindk (iunlockput ip s) (\<lambda>_ s.
                                       bindk (end_op s) (\<lambda>_ s. exec_stack path argv elf pgdir sz s))))))))"

end
