(* ===== verification/Syscall.thy ===== *)
theory Syscall
  imports Exec
begin

text \<open>
  System calls: arguments (syscall.c), sysproc.c, sysfile.c and the dispatcher.

  User memory is reached through the page tables that \<open>cr3\<close> selects; an access to an address that they
  do not map traps in the kernel, which panics. A string argument is fetched as a value. Data that a
  call stores in a user buffer is stored when the operation returns it.
\<close>

section \<open>User memory and arguments (syscall.c)\<close>

definition uaddr :: "uint \<Rightarrow> 'a proc_state_scheme \<Rightarrow> ('a proc_state_scheme, uint) outcome" where
  "uaddr va s = (case translate (p2v (cr3 s)) va s of None \<Rightarrow> Panic ''trap'' | Some pa \<Rightarrow> Ok (p2v pa) s)"

fun uread :: "uint \<Rightarrow> nat \<Rightarrow> 'a proc_state_scheme \<Rightarrow> ('a proc_state_scheme, uchar list) outcome" where
  "uread va 0 s = Ok [] s"
| "uread va (Suc n) s =
     bindk (uaddr va s) (\<lambda>a s. bindk (uread (va + 1) n s) (\<lambda>bs s. Ok (kmem_mem s a # bs) s))"

fun uwrite :: "uint \<Rightarrow> uchar list \<Rightarrow> 'a proc_state_scheme \<Rightarrow> ('a proc_state_scheme, unit) outcome" where
  "uwrite va [] s = Ok () s"
| "uwrite va (b # bs) s =
     bindk (uaddr va s) (\<lambda>a s. uwrite (va + 1) bs (s\<lparr>kmem_mem := (kmem_mem s)(a := b)\<rparr>))"

definition cur_proc :: "'a proc_state_scheme \<Rightarrow> proc" where
  "cur_proc s = (case cur s of None \<Rightarrow> proc0 | Some p \<Rightarrow> procs s ! p)"

definition upd_cur :: "(proc \<Rightarrow> proc) \<Rightarrow> 'a proc_state_scheme \<Rightarrow> 'a proc_state_scheme" where
  "upd_cur f s = (case cur s of None \<Rightarrow> s | Some p \<Rightarrow> upd_proc p f s)"

definition fetchint :: "uint \<Rightarrow> 'a proc_state_scheme \<Rightarrow> ('a proc_state_scheme, cint option) outcome" where
  "fetchint addr s =
     (if addr \<ge> p_sz (cur_proc s) \<or> addr + 4 > p_sz (cur_proc s) then Ok None s
      else bindk (uread addr 4 s) (\<lambda>bs s. Ok (Some (dec32 bs)) s))"

fun fetchstr_loop :: "nat \<Rightarrow> uint \<Rightarrow> 'a proc_state_scheme \<Rightarrow> ('a proc_state_scheme, uchar list option) outcome" where
  "fetchstr_loop 0 a s = Ok None s"
| "fetchstr_loop (Suc k) a s =
     bindk (uaddr a s) (\<lambda>ka s.
       let c = kmem_mem s ka
       in if c = 0 then Ok (Some []) s
          else bindk (fetchstr_loop k (a + 1) s) (\<lambda>r s. Ok (map_option ((#) c) r) s))"

definition fetchstr :: "uint \<Rightarrow> 'a proc_state_scheme \<Rightarrow> ('a proc_state_scheme, uchar list option) outcome" where
  "fetchstr addr s =
     (if addr \<ge> p_sz (cur_proc s) then Ok None s
      else fetchstr_loop (unat (p_sz (cur_proc s) - addr)) addr s)"

definition argint :: "nat \<Rightarrow> 'a proc_state_scheme \<Rightarrow> ('a proc_state_scheme, cint option) outcome" where
  "argint n s = fetchint (mload s (p_tf (cur_proc s) + tf_esp) + 4 + 4 * of_nat n) s"

definition argptr :: "nat \<Rightarrow> cint \<Rightarrow> 'a proc_state_scheme \<Rightarrow> ('a proc_state_scheme, uint option) outcome" where
  "argptr n sz s =
     bindk (argint n s) (\<lambda>r s.
       case r of
         None \<Rightarrow> Ok None s
       | Some i \<Rightarrow> if i \<ge> p_sz (cur_proc s) \<or> i + sz > p_sz (cur_proc s) then Ok None s else Ok (Some i) s)"

definition argstr :: "nat \<Rightarrow> 'a proc_state_scheme \<Rightarrow> ('a proc_state_scheme, uchar list option) outcome" where
  "argstr n s = bindk (argint n s) (\<lambda>r s. case r of None \<Rightarrow> Ok None s | Some addr \<Rightarrow> fetchstr addr s)"

section \<open>sysproc.c\<close>

definition sys_kill :: "'a proc_state_scheme \<Rightarrow> ('a proc_state_scheme, cint) outcome" where
  "sys_kill s = bindk (argint 0 s) (\<lambda>r s. case r of None \<Rightarrow> Ok (- 1) s | Some pid \<Rightarrow> kill pid s)"

definition sys_getpid :: "'a proc_state_scheme \<Rightarrow> ('a proc_state_scheme, cint) outcome" where
  "sys_getpid s = Ok (p_pid (cur_proc s)) s"

definition sys_sbrk :: "'a proc_state_scheme \<Rightarrow> ('a proc_state_scheme, cint) outcome" where
  "sys_sbrk s =
     bindk (argint 0 s) (\<lambda>r s.
       case r of
         None \<Rightarrow> Ok (- 1) s
       | Some n \<Rightarrow>
           let addr = p_sz (cur_proc s)
           in bindk (growproc n s) (\<lambda>r s. if sint r < 0 then Ok (- 1) s else Ok addr s))"

text \<open>The test of the loop of \<open>sys_sleep\<close>, entered again after each wakeup; \<open>n\<close> is compared as unsigned.\<close>

definition sys_sleep_loop :: "uint \<Rightarrow> cint \<Rightarrow> 'a proc_state_scheme \<Rightarrow> ('a proc_state_scheme, cint) outcome" where
  "sys_sleep_loop ticks0 n s =
     (if ticks s - ticks0 < n then if p_killed (cur_proc s) then Ok (- 1) s else sleep ChTicks s else Ok 0 s)"

definition sys_sleep :: "'a proc_state_scheme \<Rightarrow> ('a proc_state_scheme, cint) outcome" where
  "sys_sleep s =
     bindk (argint 0 s) (\<lambda>r s. case r of None \<Rightarrow> Ok (- 1) s | Some n \<Rightarrow> sys_sleep_loop (ticks s) n s)"

definition sys_uptime :: "'a proc_state_scheme \<Rightarrow> ('a proc_state_scheme, cint) outcome" where
  "sys_uptime s = Ok (ticks s) s"

section \<open>sysfile.c\<close>

definition argfd :: "nat \<Rightarrow> 'a proc_state_scheme \<Rightarrow> ('a proc_state_scheme, (cint \<times> nat) option) outcome" where
  "argfd n s =
     bindk (argint n s) (\<lambda>r s.
       case r of
         None \<Rightarrow> Ok None s
       | Some fd \<Rightarrow>
           if sint fd < 0 \<or> sint fd \<ge> int NOFILE then Ok None s
           else (case p_ofile (cur_proc s) ! unat fd of None \<Rightarrow> Ok None s | Some f \<Rightarrow> Ok (Some (fd, f)) s))"

definition fdalloc :: "nat \<Rightarrow> 'a proc_state_scheme \<Rightarrow> cint option \<times> 'a proc_state_scheme" where
  "fdalloc f s =
     (case first_index (\<lambda>x. x = None) (p_ofile (cur_proc s)) of
        None \<Rightarrow> (None, s)
      | Some fd \<Rightarrow> (Some (of_nat fd), upd_cur (\<lambda>q. q\<lparr>p_ofile := (p_ofile q)[fd := Some f]\<rparr>) s))"

definition sys_dup :: "'a proc_state_scheme \<Rightarrow> ('a proc_state_scheme, cint) outcome" where
  "sys_dup s =
     bindk (argfd 0 s) (\<lambda>r s.
       case r of
         None \<Rightarrow> Ok (- 1) s
       | Some (_, f) \<Rightarrow>
           (case fdalloc f s of
              (None, s) \<Rightarrow> Ok (- 1) s
            | (Some fd, s) \<Rightarrow> bindk (filedup f s) (\<lambda>_ s. Ok fd s)))"

definition sys_read :: "'a proc_state_scheme \<Rightarrow> ('a proc_state_scheme, cint) outcome" where
  "sys_read s =
     bindk (argfd 0 s) (\<lambda>r s.
       case r of
         None \<Rightarrow> Ok (- 1) s
       | Some (_, f) \<Rightarrow>
           bindk (argint 2 s) (\<lambda>r s.
             case r of
               None \<Rightarrow> Ok (- 1) s
             | Some n \<Rightarrow>
                 bindk (argptr 1 n s) (\<lambda>r s.
                   case r of
                     None \<Rightarrow> Ok (- 1) s
                   | Some p \<Rightarrow> bindk (fileread f n s) (\<lambda>(r, bs) s. bindk (uwrite p bs s) (\<lambda>_ s. Ok r s)))))"

definition sys_write :: "'a proc_state_scheme \<Rightarrow> ('a proc_state_scheme, cint) outcome" where
  "sys_write s =
     bindk (argfd 0 s) (\<lambda>r s.
       case r of
         None \<Rightarrow> Ok (- 1) s
       | Some (_, f) \<Rightarrow>
           bindk (argint 2 s) (\<lambda>r s.
             case r of
               None \<Rightarrow> Ok (- 1) s
             | Some n \<Rightarrow>
                 bindk (argptr 1 n s) (\<lambda>r s.
                   case r of
                     None \<Rightarrow> Ok (- 1) s
                   | Some p \<Rightarrow> bindk (uread p (nat (sint n)) s) (\<lambda>bs s. filewrite f bs n s))))"

definition sys_close :: "'a proc_state_scheme \<Rightarrow> ('a proc_state_scheme, cint) outcome" where
  "sys_close s =
     bindk (argfd 0 s) (\<lambda>r s.
       case r of
         None \<Rightarrow> Ok (- 1) s
       | Some (fd, f) \<Rightarrow>
           bindk (fileclose f (upd_cur (\<lambda>q. q\<lparr>p_ofile := (p_ofile q)[unat fd := None]\<rparr>) s)) (\<lambda>_ s. Ok 0 s))"

text \<open>The bytes of a \<open>struct stat\<close>: \<open>type\<close> and \<open>nlink\<close> are followed by two bytes of padding that are not written.\<close>

definition uwrite_stat :: "uint \<Rightarrow> stat \<Rightarrow> 'a proc_state_scheme \<Rightarrow> ('a proc_state_scheme, unit) outcome" where
  "uwrite_stat p st s =
     bindk (uwrite p (enc16 (st_type st)) s) (\<lambda>_ s.
     bindk (uwrite (p + 4) (enc32 (st_dev st) @ enc32 (st_ino st) @ enc16 (st_nlink st)) s) (\<lambda>_ s.
       uwrite (p + 16) (enc32 (st_size st) @ enc32 (st_prti st)) s))"

definition sys_fstat :: "'a proc_state_scheme \<Rightarrow> ('a proc_state_scheme, cint) outcome" where
  "sys_fstat s =
     bindk (argfd 0 s) (\<lambda>r s.
       case r of
         None \<Rightarrow> Ok (- 1) s
       | Some (_, f) \<Rightarrow>
           bindk (argptr 1 24 s) (\<lambda>r s.
             case r of
               None \<Rightarrow> Ok (- 1) s
             | Some p \<Rightarrow>
                 bindk (filestat f s) (\<lambda>(r, st) s.
                   case st of
                     None \<Rightarrow> Ok r s
                   | Some st \<Rightarrow> bindk (uwrite_stat p st s) (\<lambda>_ s. Ok r s))))"

end
