(* ===== verification/Sysfile.thy ===== *)
theory Sysfile
  imports Syscall
begin

text \<open>
  The system calls on the name space (sysfile.c): \<open>link\<close>, \<open>unlink\<close>, \<open>open\<close>, \<open>mkdir\<close>, \<open>mknod\<close>, \<open>chdir\<close>, \<open>mount\<close>,
  \<open>exec\<close>, \<open>pipe\<close>. Each \<open>goto bad\<close> is the definition of the code at its label.
\<close>

abbreviation fail :: "'a proc_state_scheme \<Rightarrow> ('a proc_state_scheme, cint) outcome" where
  "fail s \<equiv> Ok (- 1) s"

text \<open>Ending the transaction of a call that fails.\<close>

definition end_fail :: "'a proc_state_scheme \<Rightarrow> ('a proc_state_scheme, cint) outcome" where
  "end_fail s = bindk (end_op s) (\<lambda>_ s. fail s)"

definition put_end_fail :: "nat \<Rightarrow> 'a proc_state_scheme \<Rightarrow> ('a proc_state_scheme, cint) outcome" where
  "put_end_fail i s = bindk (iunlockput i s) (\<lambda>_ s. end_fail s)"

section \<open>link and unlink\<close>

definition link_bad :: "nat \<Rightarrow> 'a proc_state_scheme \<Rightarrow> ('a proc_state_scheme, cint) outcome" where
  "link_bad ip s =
     bindk (ilock (Some ip) s) (\<lambda>_ s.
     bindk (iupdate ip (upd_inode ip (\<lambda>x. x\<lparr>i_nlink := i_nlink x - 1\<rparr>) s)) (\<lambda>_ s.
       put_end_fail ip s))"

definition sys_link :: "'a proc_state_scheme \<Rightarrow> ('a proc_state_scheme, cint) outcome" where
  "sys_link s =
     bindk (argstr 0 s) (\<lambda>r s.
       case r of
         None \<Rightarrow> fail s
       | Some old \<Rightarrow>
           bindk (argstr 1 s) (\<lambda>r s.
             case r of
               None \<Rightarrow> fail s
             | Some new \<Rightarrow>
                 bindk (begin_op s) (\<lambda>_ s.
                 bindk (namei old s) (\<lambda>ip s.
                   case ip of
                     None \<Rightarrow> end_fail s
                   | Some ip \<Rightarrow>
                       bindk (ilock (Some ip) s) (\<lambda>_ s.
                         if i_type (ino s ip) = T_DIR then put_end_fail ip s
                         else
                           bindk (iupdate ip (upd_inode ip (\<lambda>x. x\<lparr>i_nlink := i_nlink x + 1\<rparr>) s)) (\<lambda>_ s.
                           bindk (iunlock (Some ip) s) (\<lambda>_ s.
                           bindk (nameiparent new s) (\<lambda>(dp, name) s.
                             case dp of
                               None \<Rightarrow> link_bad ip s
                             | Some dp \<Rightarrow>
                                 bindk (ilock (Some dp) s) (\<lambda>_ s.
                                   if i_prt (ino s dp) \<noteq> i_prt (ino s ip)
                                   then bindk (iunlockput dp s) (\<lambda>_ s. link_bad ip s)
                                   else
                                     bindk (dirlink dp name (i_inum (ino s ip)) s) (\<lambda>r s.
                                       if sint r < 0 then bindk (iunlockput dp s) (\<lambda>_ s. link_bad ip s)
                                       else
                                         bindk (iunlockput dp s) (\<lambda>_ s.
                                         bindk (iput ip s) (\<lambda>_ s.
                                         bindk (end_op s) (\<lambda>_ s. Ok 0 s)))))))))))))"

fun isdirempty_loop :: "uint list \<Rightarrow> nat \<Rightarrow> 'a proc_state_scheme \<Rightarrow> ('a proc_state_scheme, bool) outcome" where
  "isdirempty_loop [] dp s = Ok True s"
| "isdirempty_loop (off # offs) dp s =
     bindk (readi dp off 16 s) (\<lambda>(r, d) s.
       if r \<noteq> 16 then Panic ''isdirempty: readi''
       else if de_inum (dec_dirent d) \<noteq> 0 then Ok False s
       else isdirempty_loop offs dp s)"

definition isdirempty :: "nat \<Rightarrow> 'a proc_state_scheme \<Rightarrow> ('a proc_state_scheme, bool) outcome" where
  "isdirempty dp s = isdirempty_loop (drop 2 (entry_offsets (i_size (ino s dp)))) dp s"

definition sys_unlink :: "'a proc_state_scheme \<Rightarrow> ('a proc_state_scheme, cint) outcome" where
  "sys_unlink s =
     bindk (argstr 0 s) (\<lambda>r s.
       case r of
         None \<Rightarrow> fail s
       | Some path \<Rightarrow>
           bindk (begin_op s) (\<lambda>_ s.
           bindk (nameiparent path s) (\<lambda>(dp, name) s.
             case dp of
               None \<Rightarrow> end_fail s
             | Some dp \<Rightarrow>
                 bindk (ilock (Some dp) s) (\<lambda>_ s.
                   if namecmp name [46] = 0 \<or> namecmp name [46, 46] = 0 then put_end_fail dp s
                   else
                     bindk (dirlookup dp name s) (\<lambda>r s.
                       case r of
                         None \<Rightarrow> put_end_fail dp s
                       | Some (ip, off) \<Rightarrow>
                           bindk (ilock (Some ip) s) (\<lambda>_ s.
                             if sint (i_nlink (ino s ip)) < 1 then Panic ''unlink: nlink < 1''
                             else
                               bindk (if i_type (ino s ip) = T_DIR then isdirempty ip s else Ok True s) (\<lambda>empty s.
                                 if \<not> empty then bindk (iunlockput ip s) (\<lambda>_ s. put_end_fail dp s)
                                 else
                                   bindk (writei dp (replicate 16 0) off 16 s) (\<lambda>w s.
                                     if w \<noteq> 16 then Panic ''unlink: writei''
                                     else
                                       bindk (if i_type (ino s ip) = T_DIR
                                              then iupdate dp (upd_inode dp (\<lambda>x. x\<lparr>i_nlink := i_nlink x - 1\<rparr>) s)
                                              else Ok () s) (\<lambda>_ s.
                                       bindk (iunlockput dp s) (\<lambda>_ s.
                                       bindk (iupdate ip (upd_inode ip (\<lambda>x. x\<lparr>i_nlink := i_nlink x - 1\<rparr>) s)) (\<lambda>_ s.
                                       bindk (iunlockput ip s) (\<lambda>_ s.
                                       bindk (end_op s) (\<lambda>_ s. Ok 0 s)))))))))))))"

section \<open>create and open\<close>

definition create :: "uchar list \<Rightarrow> ushort \<Rightarrow> ushort \<Rightarrow> ushort \<Rightarrow> 'a proc_state_scheme \<Rightarrow>
    ('a proc_state_scheme, nat option) outcome" where
  "create path type major minor s =
     bindk (nameiparent path s) (\<lambda>(dp, name) s.
       case dp of
         None \<Rightarrow> Ok None s
       | Some dp \<Rightarrow>
           bindk (ilock (Some dp) s) (\<lambda>_ s.
           bindk (dirlookup dp name s) (\<lambda>r s.
             case r of
               Some (ip, off) \<Rightarrow>
                 bindk (iunlockput dp s) (\<lambda>_ s.
                 bindk (ilock (Some ip) s) (\<lambda>_ s.
                   if type = T_FILE \<and> i_type (ino s ip) = T_FILE then Ok (Some ip) s
                   else bindk (iunlockput ip s) (\<lambda>_ s. Ok None s)))
             | None \<Rightarrow>
                 bindk (ialloc (i_prt (ino s dp)) type s) (\<lambda>ip s.
                 bindk (ilock (Some ip) s) (\<lambda>_ s.
                 bindk (iupdate ip (upd_inode ip (\<lambda>x. x\<lparr>i_major := major, i_minor := minor, i_nlink := 1\<rparr>) s)) (\<lambda>_ s.
                 bindk (if type = T_DIR
                        then bindk (iupdate dp (upd_inode dp (\<lambda>x. x\<lparr>i_nlink := i_nlink x + 1\<rparr>) s)) (\<lambda>_ s.
                             bindk (dirlink ip [46] (i_inum (ino s ip)) s) (\<lambda>r s.
                               if sint r < 0 then Panic ''create dots''
                               else bindk (dirlink ip [46, 46] (i_inum (ino s dp)) s) (\<lambda>r s.
                                      if sint r < 0 then Panic ''create dots'' else Ok () s)))
                        else Ok () s) (\<lambda>_ s.
                 bindk (dirlink dp name (i_inum (ino s ip)) s) (\<lambda>r s.
                   if sint r < 0 then Panic ''create: dirlink''
                   else bindk (iunlockput dp s) (\<lambda>_ s. Ok (Some ip) s)))))))))"

definition O_RDONLY :: cint where "O_RDONLY = 0"
definition O_WRONLY :: cint where "O_WRONLY = 1"
definition O_RDWR :: cint where "O_RDWR = 2"
definition O_CREATE :: cint where "O_CREATE = 0x200"

text \<open>\<open>sys_open\<close> from the test of \<open>filealloc\<close> on, with \<open>ip\<close> locked.\<close>

definition open_file :: "nat \<Rightarrow> cint \<Rightarrow> 'a proc_state_scheme \<Rightarrow> ('a proc_state_scheme, cint) outcome" where
  "open_file ip omode s =
     (case filealloc s of
        (None, s) \<Rightarrow> put_end_fail ip s
      | (Some f, s) \<Rightarrow>
          (case fdalloc f s of
             (None, s) \<Rightarrow> bindk (fileclose f s) (\<lambda>_ s. put_end_fail ip s)
           | (Some fd, s) \<Rightarrow>
               bindk (iunlock (Some ip) s) (\<lambda>_ s.
               bindk (end_op s) (\<lambda>_ s.
                 Ok fd (upd_file f (\<lambda>x. x\<lparr>f_type := FD_INODE, f_ip := Some ip, f_off := 0,
                          f_readable := (omode AND O_WRONLY = 0),
                          f_writable := (omode AND O_WRONLY \<noteq> 0 \<or> omode AND O_RDWR \<noteq> 0)\<rparr>) s)))))"

definition sys_open :: "'a proc_state_scheme \<Rightarrow> ('a proc_state_scheme, cint) outcome" where
  "sys_open s =
     bindk (argstr 0 s) (\<lambda>r s.
       case r of
         None \<Rightarrow> fail s
       | Some path \<Rightarrow>
           bindk (argint 1 s) (\<lambda>r s.
             case r of
               None \<Rightarrow> fail s
             | Some omode \<Rightarrow>
                 bindk (begin_op s) (\<lambda>_ s.
                   if omode AND O_CREATE \<noteq> 0
                   then bindk (create path T_FILE 0 0 s) (\<lambda>ip s.
                          case ip of None \<Rightarrow> end_fail s | Some ip \<Rightarrow> open_file ip omode s)
                   else bindk (namei path s) (\<lambda>ip s.
                          case ip of
                            None \<Rightarrow> end_fail s
                          | Some ip \<Rightarrow>
                              bindk (ilock (Some ip) s) (\<lambda>_ s.
                                if i_type (ino s ip) = T_DIR \<and> omode \<noteq> O_RDONLY then put_end_fail ip s
                                else open_file ip omode s)))))"

section \<open>Directories, devices and mount points\<close>

definition sys_mkdir :: "'a proc_state_scheme \<Rightarrow> ('a proc_state_scheme, cint) outcome" where
  "sys_mkdir s =
     bindk (begin_op s) (\<lambda>_ s.
     bindk (argstr 0 s) (\<lambda>r s.
       case r of
         None \<Rightarrow> end_fail s
       | Some path \<Rightarrow>
           bindk (create path T_DIR 0 0 s) (\<lambda>ip s.
             case ip of
               None \<Rightarrow> end_fail s
             | Some ip \<Rightarrow> bindk (iunlockput ip s) (\<lambda>_ s. bindk (end_op s) (\<lambda>_ s. Ok 0 s)))))"

definition sys_mknod :: "'a proc_state_scheme \<Rightarrow> ('a proc_state_scheme, cint) outcome" where
  "sys_mknod s =
     bindk (begin_op s) (\<lambda>_ s.
     bindk (argstr 0 s) (\<lambda>path s.
       case path of
         None \<Rightarrow> end_fail s
       | Some path \<Rightarrow>
           bindk (argint 1 s) (\<lambda>major s.
             case major of
               None \<Rightarrow> end_fail s
             | Some major \<Rightarrow>
                 bindk (argint 2 s) (\<lambda>minor s.
                   case minor of
                     None \<Rightarrow> end_fail s
                   | Some minor \<Rightarrow>
                       bindk (create path T_DEV (ucast major) (ucast minor) s) (\<lambda>ip s.
                         case ip of
                           None \<Rightarrow> end_fail s
                         | Some ip \<Rightarrow> bindk (iunlockput ip s) (\<lambda>_ s. bindk (end_op s) (\<lambda>_ s. Ok 0 s)))))))"

definition sys_chdir :: "'a proc_state_scheme \<Rightarrow> ('a proc_state_scheme, cint) outcome" where
  "sys_chdir s =
     bindk (begin_op s) (\<lambda>_ s.
     bindk (argstr 0 s) (\<lambda>r s.
       case r of
         None \<Rightarrow> end_fail s
       | Some path \<Rightarrow>
           bindk (namei path s) (\<lambda>ip s.
             case ip of
               None \<Rightarrow> end_fail s
             | Some ip \<Rightarrow>
                 bindk (ilock (Some ip) s) (\<lambda>_ s.
                   if i_type (ino s ip) \<noteq> T_DIR then put_end_fail ip s
                   else
                     bindk (iunlock (Some ip) s) (\<lambda>_ s.
                       case p_cwd (cur_proc s) of
                         None \<Rightarrow> undef
                       | Some c \<Rightarrow>
                           bindk (iput c s) (\<lambda>_ s.
                           bindk (end_op s) (\<lambda>_ s. Ok 0 (upd_cur (\<lambda>q. q\<lparr>p_cwd := Some ip\<rparr>) s))))))))"

definition sys_mount :: "'a proc_state_scheme \<Rightarrow> ('a proc_state_scheme, cint) outcome" where
  "sys_mount s =
     bindk (argstr 0 s) (\<lambda>path s.
       case path of
         None \<Rightarrow> fail s
       | Some path \<Rightarrow>
           bindk (argint 1 s) (\<lambda>prt s. case prt of None \<Rightarrow> fail s | Some prt \<Rightarrow> mount path prt s))"

section \<open>exec and pipe\<close>

text \<open>The strings of \<open>argv\<close> from index \<open>i\<close> on, at most \<open>MAXARG\<close> entries with the null at the end.\<close>

fun fetch_argv :: "nat \<Rightarrow> uint \<Rightarrow> 'a proc_state_scheme \<Rightarrow> ('a proc_state_scheme, uchar list list option) outcome" where
  "fetch_argv 0 a s = Ok None s"
| "fetch_argv (Suc k) a s =
     bindk (fetchint a s) (\<lambda>r s.
       case r of
         None \<Rightarrow> Ok None s
       | Some uarg \<Rightarrow>
           if uarg = 0 then Ok (Some []) s
           else bindk (fetchstr uarg s) (\<lambda>r s.
                  case r of
                    None \<Rightarrow> Ok None s
                  | Some str \<Rightarrow> bindk (fetch_argv k (a + 4) s) (\<lambda>r s. Ok (map_option ((#) str) r) s)))"

definition sys_exec :: "'a proc_state_scheme \<Rightarrow> ('a proc_state_scheme, cint) outcome" where
  "sys_exec s =
     bindk (argstr 0 s) (\<lambda>path s.
       case path of
         None \<Rightarrow> fail s
       | Some path \<Rightarrow>
           bindk (argint 1 s) (\<lambda>uargv s.
             case uargv of
               None \<Rightarrow> fail s
             | Some uargv \<Rightarrow>
                 bindk (fetch_argv MAXARG uargv s) (\<lambda>argv s.
                   case argv of None \<Rightarrow> fail s | Some argv \<Rightarrow> exec path argv s)))"

definition sys_pipe :: "'a proc_state_scheme \<Rightarrow> ('a proc_state_scheme, cint) outcome" where
  "sys_pipe s =
     bindk (argptr 0 8 s) (\<lambda>fd s.
       case fd of
         None \<Rightarrow> fail s
       | Some fd \<Rightarrow>
           bindk (pipealloc s) (\<lambda>r s.
             case r of
               None \<Rightarrow> fail s
             | Some (f0, f1) \<Rightarrow>
                 let bad = (\<lambda>s. bindk (fileclose f0 s) (\<lambda>_ s. bindk (fileclose f1 s) (\<lambda>_ s. fail s)))
                 in case fdalloc f0 s of
                      (None, s) \<Rightarrow> bad s
                    | (Some fd0, s) \<Rightarrow>
                        (case fdalloc f1 s of
                           (None, s) \<Rightarrow> bad (upd_cur (\<lambda>q. q\<lparr>p_ofile := (p_ofile q)[unat fd0 := None]\<rparr>) s)
                         | (Some fd1, s) \<Rightarrow> bindk (uwrite fd (enc32 fd0 @ enc32 fd1) s) (\<lambda>_ s. Ok 0 s))))"

end
