(* ===== verification/Kbd.thy ===== *)
theory Kbd
  imports Console
begin

text \<open>
  The keyboard (kbd.c, kbd.h): scan codes to characters. A table with designated initialisers is a
  prefix followed by an association list.
\<close>

definition SHIFT :: uint where "SHIFT = 1"
definition CTL :: uint where "CTL = 2"
definition ALT :: uint where "ALT = 4"
definition CAPSLOCK :: uint where "CAPSLOCK = 8"
definition NUMLOCK :: uint where "NUMLOCK = 16"
definition SCROLLLOCK :: uint where "SCROLLLOCK = 32"
definition E0ESC :: uint where "E0ESC = 64"

definition table :: "uchar list \<Rightarrow> (nat \<times> uchar) list \<Rightarrow> nat \<Rightarrow> uchar" where
  "table xs as i = (if i < length xs then xs ! i else case map_of as i of None \<Rightarrow> 0 | Some c \<Rightarrow> c)"

definition shiftcode :: "nat \<Rightarrow> uchar" where
  "shiftcode = table [] [(0x1D, ucast CTL), (0x2A, ucast SHIFT), (0x36, ucast SHIFT), (0x38, ucast ALT),
     (0x9D, ucast CTL), (0xB8, ucast ALT)]"

definition togglecode :: "nat \<Rightarrow> uchar" where
  "togglecode = table [] [(0x3A, ucast CAPSLOCK), (0x45, ucast NUMLOCK), (0x46, ucast SCROLLLOCK)]"

definition bytes :: "string \<Rightarrow> uchar list" where
  "bytes s = map (\<lambda>c. of_nat (of_char c)) s"

definition special_keys :: "(nat \<times> uchar) list" where
  "special_keys = [(0xC8, 0xE2), (0xD0, 0xE3), (0xC9, 0xE6), (0xD1, 0xE7), (0xCB, 0xE4), (0xCD, 0xE5),
     (0x97, 0xE0), (0xCF, 0xE1), (0xD2, 0xE8), (0xD3, 0xE9)]"

definition normalmap :: "nat \<Rightarrow> uchar" where
  "normalmap = table
     ([0, 0x1B] @ bytes ''1234567890-='' @ [8, 9] @ bytes ''qwertyuiop[]'' @ [10, 0] @ bytes ''asdfghjkl;'' @
      [39, 96, 0, 92] @ bytes ''zxcvbnm,./'' @ [0, 42, 0, 32, 0, 0, 0, 0, 0, 0, 0, 0, 0, 0, 0, 0, 0] @
      bytes ''789-456+1230.'' @ [0, 0, 0, 0])
     ([(0x9C, 10), (0xB5, 47)] @ special_keys)"

definition shiftmap :: "nat \<Rightarrow> uchar" where
  "shiftmap = table
     ([0, 0x1B] @ bytes ''!@#$%^&*()_+'' @ [8, 9] @ bytes ''QWERTYUIOP{}'' @ [10, 0] @ bytes ''ASDFGHJKL:'' @
      [34, 126, 0, 124] @ bytes ''ZXCVBNM<>?'' @ [0, 42, 0, 32, 0, 0, 0, 0, 0, 0, 0, 0, 0, 0, 0, 0, 0] @
      bytes ''789-456+1230.'' @ [0, 0, 0, 0])
     ([(0x9C, 10), (0xB5, 47)] @ special_keys)"

text \<open>\<open>C(x)\<close> is \<open>x - '@'\<close>.\<close>

definition ctl :: "string \<Rightarrow> uchar list" where
  "ctl s = map (\<lambda>c. c - 64) (bytes s)"

definition ctlmap :: "nat \<Rightarrow> uchar" where
  "ctlmap = table
     (replicate 16 0 @ ctl ''QWERTYUIOP'' @ [0, 0, 13, 0] @ ctl ''ASDFGHJKL'' @ [0, 0, 0, 0, 28] @
      ctl ''ZXCVBNM'' @ [0, 0, 47 - 64, 0, 0])
     ([(0x9C, 13), (0xB5, 47 - 64)] @ special_keys)"

definition charcode :: "uint \<Rightarrow> nat \<Rightarrow> uchar" where
  "charcode k = (if k = 0 then normalmap else if k = SHIFT then shiftmap else ctlmap)"

text \<open>
  \<open>kbdgetc\<close> on a scan code from the data port: the character and the new value of the static variable
  \<open>shift\<close>. With no data the function returns -1 and leaves \<open>shift\<close> alone.
\<close>

definition kbdgetc :: "uchar option \<Rightarrow> uint \<Rightarrow> cint \<times> uint" where
  "kbdgetc port shift =
     (case port of
        None \<Rightarrow> (- 1, shift)
      | Some b \<Rightarrow>
          let data = (ucast b :: uint)
          in if data = 0xE0 then (0, shift OR E0ESC)
             else if data AND 0x80 \<noteq> 0
             then let data = (if shift AND E0ESC \<noteq> 0 then data else data AND 0x7F)
                  in (0, shift AND NOT (ucast (shiftcode (unat data)) OR E0ESC))
             else let (data, shift) =
                        (if shift AND E0ESC \<noteq> 0 then (data OR 0x80, shift AND NOT E0ESC) else (data, shift));
                      shift = shift OR ucast (shiftcode (unat data));
                      shift = shift XOR ucast (togglecode (unat data));
                      c = (ucast (charcode (shift AND (CTL OR SHIFT)) (unat data)) :: uint);
                      c = (if shift AND CAPSLOCK \<noteq> 0
                           then if 97 \<le> c \<and> c \<le> 122 then c + (65 - 97)
                                else if 65 \<le> c \<and> c \<le> 90 then c + (97 - 65) else c
                           else c)
                  in (c, shift))"

text \<open>The characters \<open>consoleintr\<close> gets from the scan codes in the controller, and the new \<open>shift\<close>.\<close>

fun kbd_decode :: "uchar list \<Rightarrow> uint \<Rightarrow> cint list \<times> uint" where
  "kbd_decode [] shift = ([], shift)"
| "kbd_decode (b # bs) shift =
     (let (c, shift) = kbdgetc (Some b) shift; (cs, shift) = kbd_decode bs shift in (c # cs, shift))"

definition kbdintr :: "uchar list \<Rightarrow> uint \<Rightarrow> 'a cons_state_scheme \<Rightarrow> ('a cons_state_scheme, uint) outcome" where
  "kbdintr codes shift s =
     (let (cs, shift) = kbd_decode codes shift in bindk (consoleintr cs s) (\<lambda>_ s. Ok shift s))"

end
