(* ===== verification/Trap.thy ===== *)
theory Trap
  imports Sysfile Kbd
begin

text \<open>
  Traps (trap.c) and the system call dispatcher (syscall.c). What a device has to deliver when its
  interrupt is handled is an argument: the keyboard's scan codes and the serial port's bytes.
\<close>

definition syscalls :: "nat \<Rightarrow> ('a proc_state_scheme \<Rightarrow> ('a proc_state_scheme, cint) outcome) option" where
  "syscalls num =
     map_of [(1, fork), (2, exit_proc), (3, wait), (4, sys_pipe), (5, sys_read), (6, sys_kill), (7, sys_exec),
       (8, sys_fstat), (9, sys_chdir), (10, sys_dup), (11, sys_getpid), (12, sys_sbrk), (13, sys_sleep),
       (14, sys_uptime), (15, sys_open), (16, sys_write), (17, sys_mknod), (18, sys_unlink), (19, sys_link),
       (20, sys_mkdir), (21, sys_close), (22, sys_mount)] num"

text \<open>\<open>proc->tf\<close> is read again after the call: \<open>exec\<close> keeps it, the kernel stack stays.\<close>

definition set_eax :: "cint \<Rightarrow> 'a proc_state_scheme \<Rightarrow> 'a proc_state_scheme" where
  "set_eax v s = mstore (p_tf (cur_proc s) + tf_eax) v s"

definition syscall :: "'a proc_state_scheme \<Rightarrow> ('a proc_state_scheme, unit) outcome" where
  "syscall s =
     (let num = mload s (p_tf (cur_proc s) + tf_eax)
      in if 0 < sint num \<and> sint num < 23
         then (case syscalls (unat num) of
                 Some f \<Rightarrow> bindk (f s) (\<lambda>r s. Ok () (set_eax r s))
               | None \<Rightarrow> Ok () (set_eax (- 1) s))
         else Ok () (set_eax (- 1) s))"

definition T_SYSCALL :: uint where "T_SYSCALL = 64"
definition T_IRQ0 :: uint where "T_IRQ0 = 32"
definition IRQ_TIMER :: uint where "IRQ_TIMER = 0"
definition IRQ_KBD :: uint where "IRQ_KBD = 1"
definition IRQ_COM1 :: uint where "IRQ_COM1 = 4"
definition IRQ_IDE :: uint where "IRQ_IDE = 14"
definition IRQ_SPURIOUS :: uint where "IRQ_SPURIOUS = 31"

definition user_mode :: "uint \<Rightarrow> 'a proc_state_scheme \<Rightarrow> bool" where
  "user_mode tf s \<longleftrightarrow> mload s (tf + tf_cs) AND 3 = DPL_USER"

text \<open>The checks that force a killed process in user space to exit.\<close>

definition exit_if_killed :: "uint \<Rightarrow> 'a proc_state_scheme \<Rightarrow> ('a proc_state_scheme, unit) outcome" where
  "exit_if_killed tf s =
     (if cur s \<noteq> None \<and> p_killed (cur_proc s) \<and> user_mode tf s then exit_proc s else Ok () s)"

text \<open>The body of the switch on the trap number.\<close>

definition trap_irq :: "uint \<Rightarrow> nat \<Rightarrow> uchar list \<Rightarrow> uchar list \<Rightarrow> 'a proc_state_scheme \<Rightarrow>
    ('a proc_state_scheme, unit) outcome" where
  "trap_irq tf cpu_id codes input s =
     (let trapno = mload s (tf + tf_trapno)
      in if trapno = T_IRQ0 + IRQ_TIMER
         then Ok () (if cpu_id = 0 then wakeup ChTicks (s\<lparr>ticks := ticks s + 1\<rparr>) else s)
         else if trapno = T_IRQ0 + IRQ_IDE then ideintr s
         else if trapno = T_IRQ0 + IRQ_IDE + 1 then Ok () s
         else if trapno = T_IRQ0 + IRQ_KBD
         then bindk (kbdintr codes (kbd_shift s) s) (\<lambda>sh s. Ok () (s\<lparr>kbd_shift := sh\<rparr>))
         else if trapno = T_IRQ0 + IRQ_COM1 then uartintr input s
         else if trapno = T_IRQ0 + 7 \<or> trapno = T_IRQ0 + IRQ_SPURIOUS then Ok () s
         else if cur s = None \<or> mload s (tf + tf_cs) AND 3 = 0 then Panic ''trap''
         else Ok () (upd_cur (\<lambda>q. q\<lparr>p_killed := True\<rparr>) s))"

text \<open>
  \<open>trap\<close> up to the point where the process gives up the CPU on a clock tick. When it runs again, the
  function continues with \<open>exit_if_killed\<close>.
\<close>

definition trap :: "uint \<Rightarrow> nat \<Rightarrow> uchar list \<Rightarrow> uchar list \<Rightarrow> 'a proc_state_scheme \<Rightarrow> ('a proc_state_scheme, unit) outcome" where
  "trap tf cpu_id codes input s =
     (if mload s (tf + tf_trapno) = T_SYSCALL
      then if p_killed (cur_proc s) then exit_proc s
           else bindk (syscall (upd_cur (\<lambda>q. q\<lparr>p_tf := tf\<rparr>) s)) (\<lambda>_ s.
                  if p_killed (cur_proc s) then exit_proc s else Ok () s)
      else bindk (trap_irq tf cpu_id codes input s) (\<lambda>_ s.
           bindk (exit_if_killed tf s) (\<lambda>_ s.
             if cur s \<noteq> None \<and> p_state (cur_proc s) = RUNNING \<and> mload s (tf + tf_trapno) = T_IRQ0 + IRQ_TIMER
             then yield s
             else exit_if_killed tf s)))"

end
