(* ===== verification/Block_Spec.thy ===== *)
theory Block_Spec
  imports Fs_Block
begin

text \<open>
  The block layer inside a transaction. \<open>txn s K m\<close>: a transaction is open with room in the log and in the
  buffer cache for changes of the blocks in \<open>K\<close> and of \<open>m\<close> more blocks. \<open>tstep s V s'\<close>: the operation
  led from \<open>s\<close> to \<open>s'\<close>, left the blocks with contents \<open>V\<close> and changed nothing but buffers and log. \<open>fs_geom\<close> is the layout of a
  partition, \<open>block_free\<close> the set of its free data blocks.
\<close>

section \<open>Transactions with a budget of blocks\<close>

definition txn :: "'a log_state_scheme \<Rightarrow> bkey set \<Rightarrow> nat \<Rightarrow> bool" where
  "txn s K m \<longleftrightarrow> (\<exists>n. txn_open s n) \<and> finite K \<and> int (card (dirty s \<union> K) + m) + 1 < sint (log_size s) \<and>
     sint (log_size s) \<le> int LOGSIZE \<and> 1 \<le> sint (log_outstanding s) \<and> card (busy s) + card (dirty s \<union> K) + m + 2 \<le> NBUF"

definition tstep :: "'a log_state_scheme \<Rightarrow> (bkey \<Rightarrow> uchar list) \<Rightarrow> 'a log_state_scheme \<Rightarrow> bool" where
  "tstep s V s' \<longleftrightarrow> bview s' = V \<and> busy s' = busy s \<and> (\<forall>j\<in>busy s. bufs s' ! j = bufs s ! j) \<and> dirty s \<subseteq> dirty s' \<and>
     disk s' = disk s \<and> lframe s s'"

lemma tstep_refl [simp]: "tstep s (bview s) s"
  by (simp add: tstep_def)

lemma tstep_trans:
  assumes "tstep s V s1" "tstep s1 W s2"
  shows "tstep s W s2"
proof -
  have "lframe s s2"
    using assms lframe_trans [of s s1 s2] unfolding tstep_def by blast
  with assms show ?thesis
    unfolding tstep_def by auto
qed

lemma tstep_unlocked: "tstep s V s' \<Longrightarrow> unlocked s' k = unlocked s k"
  by (simp add: tstep_def unlocked_def)

lemma tstep_frame:
  assumes "tstep s V s'"
  shows "loggable s' = loggable s" "baccept s' = baccept s" "log_dev s' = log_dev s" "log_state.more s' = log_state.more s"
    "cur s' = cur s" "bview s' = V" "busy s' = busy s"
  using assms lframe_geom [of s s'] by (auto simp: tstep_def loggable_def fun_eq_iff lframe_def)

lemma txn_unlocked: "busy s = {} \<Longrightarrow> unlocked s k"
  by (simp add: unlocked_def)

lemma txn_finite: "txn_open s n \<Longrightarrow> finite (dirty s)"
  by (auto simp: txn_open_def)

lemma txn_limits:
  assumes "txn s K m" "txn_open s n"
  shows "card (busy s) + n < NBUF" "log_room s n 1"
proof -
  have "finite (dirty s \<union> K)"
    using assms txn_finite by (auto simp: txn_def)
  then have "card (dirty s) \<le> card (dirty s \<union> K)"
    by (rule card_mono) blast
  then have "n \<le> card (dirty s \<union> K)"
    using txn_open_card [OF assms(2)] by simp
  then show "card (busy s) + n < NBUF" "log_room s n 1"
    using assms(1) by (auto simp: txn_def log_room_def)
qed

lemma txn_mono: "txn s K m \<Longrightarrow> m' \<le> m \<Longrightarrow> txn s K m'"
  by (auto simp: txn_def)

lemma txn_same:
  assumes "txn s K m" "txn_open s' n'" "dirty s' = dirty s" "busy s' = busy s" "lframe s s'"
  shows "txn s' K m"
  using assms by (auto simp: txn_def lframe_def)

text \<open>A change of a block of \<open>K\<close>, and of another block.\<close>

lemma txn_changed:
  assumes "txn s K (m + (if k \<in> K then 0 else 1))" "modified k d n s s'" "busy s' = busy s"
  shows "txn s' (insert k K) m"
proof -
  have d: "dirty s' = insert k (dirty s)" and o: "\<exists>n. txn_open s' n" and l: "lframe s s'"
    using assms(2) by (auto simp: modified_def)
  have fin: "finite (dirty s \<union> K)"
    using assms(1) txn_finite by (auto simp: txn_def)
  have "dirty s' \<union> insert k K = insert k (dirty s \<union> K)"
    using d by auto
  then have "card (dirty s' \<union> insert k K) \<le> card (dirty s \<union> K) + (if k \<in> K then 0 else 1)"
    using fin by (auto simp: insert_absorb card_insert_if)
  then show ?thesis
    using assms(1,3) o l by (auto simp: txn_def lframe_def)
qed

lemma txn_weaken: "txn s (insert k K) m \<Longrightarrow> txn s K m"
proof -
  assume a: "txn s (insert k K) m"
  then have "finite (dirty s \<union> insert k K)"
    using txn_finite by (auto simp: txn_def)
  then have "card (dirty s \<union> K) \<le> card (dirty s \<union> insert k K)"
    by (rule card_mono) blast
  with a show ?thesis
    by (auto simp: txn_def)
qed

section \<open>Reading and changing one block\<close>

lemma tread:
  assumes "txn s K m" "baccept s (dev, b)" "unlocked s (dev, b)"
  shows "ok (bread dev b s) (\<lambda>i s1. bdata s1 i = bview s (dev, b) \<and> lframe s s1 \<and>
    ok (brelse i s1) (\<lambda>_ s'. txn s' K m \<and> tstep s (bview s) s'))"
proof -
  obtain n where o: "txn_open s n" using assms(1) by (auto simp: txn_def)
  note lim = txn_limits [OF assms(1) o]
  show ?thesis
    by (rule ok_mono [OF txn_read [OF o assms(2,3) disjI2 [OF lim(1)]]], elim conjE, intro conjI, assumption+,
        erule ok_mono) (use txn_same [OF assms(1)] in \<open>auto simp: tstep_def\<close>)
qed

lemma tupdate:
  assumes "txn s K (m + (if (dev, b) \<in> K then 0 else 1))" "loggable s (dev, b)" "unlocked s (dev, b)"
    and "length (f (bview s (dev, b))) = BSIZE"
  shows "ok (bread dev b s) (\<lambda>i s1. bdata s1 i = bview s (dev, b) \<and> lframe s s1 \<and>
    ok (log_write i (bstore i (f (bdata s1 i)) s1)) (\<lambda>_ s2. ok (brelse i s2) (\<lambda>_ s'.
      txn s' (insert (dev, b) K) m \<and> tstep s ((bview s)((dev, b) := f (bview s (dev, b)))) s')))"
proof -
  obtain n where o: "txn_open s n" using assms(1) by (auto simp: txn_def)
  note lim = txn_limits [OF assms(1) o]
  have step: "txn s' (insert (dev, b) K) m \<and> tstep s ((bview s)((dev, b) := f (bview s (dev, b)))) s'"
    if "modified (dev, b) (f (bview s (dev, b))) n s s'" "busy s' = busy s" "\<forall>j\<in>busy s. bufs s' ! j = bufs s ! j" for s'
    using that txn_changed [OF assms(1) that(1,2)] by (auto simp: tstep_def modified_def)
  show ?thesis
    by (rule ok_mono [OF txn_update [where f = f, OF o assms(2,3) disjI2 [OF lim(1)] lim(2) assms(4)]], elim conjE, intro conjI, assumption+,
        erule ok_mono, erule ok_mono) (use step in blast)
qed

section \<open>Geometry of a partition\<close>

definition pdev :: "nat \<Rightarrow> 'a fs_state_scheme \<Rightarrow> uint" where
  "pdev p s = pt_dev (partitions s ! p)"

definition poff :: "nat \<Rightarrow> 'a fs_state_scheme \<Rightarrow> uint" where
  "poff p s = dp_offset (pt_prt (partitions s ! p))"

text \<open>The super block, with the partition's offset added.\<close>

definition psb :: "nat \<Rightarrow> 'a fs_state_scheme \<Rightarrow> superblock" where
  "psb p s = rebase_sb (poff p s) (dec_superblock (bview s (pdev p s, poff p s)))"

text \<open>
  The layout that mkfs gives a partition: the super block, the log, the inode blocks, the one bitmap block and the \<open>nblocks\<close> data
  blocks follow one another, and the data blocks end where the partition ends, \<open>size\<close> blocks after its super block. The inode
  blocks and the \<open>size\<close> blocks from the bitmap on can be read and logged.
\<close>

definition fs_geom :: "nat \<Rightarrow> 'a fs_state_scheme \<Rightarrow> bool" where
  "fs_geom p s \<longleftrightarrow> p < length (partitions s) \<and> baccept s (pdev p s, poff p s) \<and>
     unat (poff p s) < unat (sb_inodestart (psb p s)) \<and>
     unat (sb_inodestart (psb p s)) + unat (sb_ninodes (psb p s)) div 8 < unat (sb_bmapstart (psb p s)) \<and>
     unat (sb_bmapstart (psb p s)) + unat (sb_size (psb p s)) < 4000 \<and> unat (sb_size (psb p s)) \<le> BPB \<and>
     unat (sb_bmapstart (psb p s)) + 1 + unat (sb_nblocks (psb p s)) = unat (poff p s) + unat (sb_size (psb p s)) \<and>
     (\<forall>b. unat (sb_inodestart (psb p s)) \<le> unat b \<and> unat b \<le> unat (sb_bmapstart (psb p s)) + unat (sb_size (psb p s)) \<longrightarrow>
       loggable s (pdev p s, b))"

abbreviation bmapk :: "nat \<Rightarrow> 'a fs_state_scheme \<Rightarrow> bkey" where
  "bmapk p s \<equiv> (pdev p s, sb_bmapstart (psb p s))"

text \<open>Data block number \<open>b\<close> of the partition.\<close>

definition datab :: "nat \<Rightarrow> 'a fs_state_scheme \<Rightarrow> nat \<Rightarrow> uint" where
  "datab p s b = sb_bmapstart (psb p s) + 1 + of_nat b"

lemma part_at_geom: "fs_geom p s \<Longrightarrow> part_at (Some p) s = Some (partitions s ! p)"
  by (simp add: part_at_def fs_geom_def)

lemma lframe_fs:
  assumes "lframe s s'"
  shows "partitions s' = partitions s" "icache s' = icache s" "mount_pnts s' = mount_pnts s" "boot_part s' = boot_part s"
  using assms by (cases s, cases s', simp add: lframe_def)+

lemma pdev_frame: "lframe s s' \<Longrightarrow> pdev p s' = pdev p s" "lframe s s' \<Longrightarrow> poff p s' = poff p s"
  by (simp_all add: pdev_def poff_def lframe_fs)

text \<open>An operation that leaves the super block alone keeps the geometry.\<close>

lemma geom_step:
  assumes "tstep s V s'" "V (pdev p s, poff p s) = bview s (pdev p s, poff p s)"
  shows "pdev p s' = pdev p s" "poff p s' = poff p s" "psb p s' = psb p s" "fs_geom p s' = fs_geom p s"
    "datab p s' = datab p s"
proof -
  have l: "lframe s s'" using assms(1) by (simp add: tstep_def)
  show 1: "pdev p s' = pdev p s" "poff p s' = poff p s" using l by (simp_all add: pdev_frame)
  then show 2: "psb p s' = psb p s"
    using assms tstep_frame(6) [OF assms(1)] by (simp add: psb_def)
  show "fs_geom p s' = fs_geom p s"
    using l 1 2 tstep_frame [OF assms(1)] by (simp add: fs_geom_def lframe_fs)
  show "datab p s' = datab p s"
    using 2 by (simp add: datab_def fun_eq_iff)
qed

lemma unat_datab:
  assumes "fs_geom p s" "b < unat (sb_size (psb p s))"
  shows "unat (datab p s b) = unat (sb_bmapstart (psb p s)) + 1 + b"
  using assms by (simp add: datab_def fs_geom_def unat_word_ariths unat_of_nat)

lemma geom_blocks:
  assumes "fs_geom p s"
  shows "loggable s (bmapk p s)" "b < unat (sb_size (psb p s)) \<Longrightarrow> loggable s (pdev p s, datab p s b)"
    "bmapk p s \<noteq> (pdev p s, poff p s)" "b < unat (sb_size (psb p s)) \<Longrightarrow> datab p s b \<noteq> poff p s"
    "b < unat (sb_size (psb p s)) \<Longrightarrow> datab p s b \<noteq> sb_bmapstart (psb p s)"
    "b < unat (sb_size (psb p s)) \<Longrightarrow> c < unat (sb_size (psb p s)) \<Longrightarrow> datab p s b = datab p s c \<longleftrightarrow> b = c"
proof -
  show "loggable s (bmapk p s)"
    using assms by (simp add: fs_geom_def)
  show "loggable s (pdev p s, datab p s b)" if "b < unat (sb_size (psb p s))"
    using assms that unat_datab [OF assms that] by (auto simp: fs_geom_def)
  show "bmapk p s \<noteq> (pdev p s, poff p s)"
    using assms by (auto simp: fs_geom_def)
  show "datab p s b \<noteq> poff p s" "datab p s b \<noteq> sb_bmapstart (psb p s)" if "b < unat (sb_size (psb p s))"
    using assms that unat_datab [OF assms that] by (auto simp: fs_geom_def)
  show "datab p s b = datab p s c \<longleftrightarrow> b = c" if "b < unat (sb_size (psb p s))" "c < unat (sb_size (psb p s))"
    using unat_datab [OF assms that(1)] unat_datab [OF assms that(2)] by (metis add_left_cancel)
qed

section \<open>Operations\<close>

lemma readsb_ok:
  assumes "txn s K m" "fs_geom p s" "unlocked s (pdev p s, poff p s)"
  shows "ok (readsb (Some p) s) (\<lambda>sb s'. sb = psb p s \<and> txn s' K m \<and> tstep s (bview s) s')"
proof -
  have acc: "baccept s (pdev p s, poff p s)"
    using assms(2) by (simp add: fs_geom_def)
  show ?thesis
    unfolding readsb_def part_at_geom [OF assms(2)] Let_def option.case ok_bindk pdev_def [symmetric] poff_def [symmetric]
    by (rule ok_mono [OF tread [OF assms(1) acc assms(3)]], elim conjE, erule ok_mono) (simp add: ok_def psb_def)
qed

lemma bzero_ok:
  assumes "txn s K (m + (if (dev, b) \<in> K then 0 else 1))" "loggable s (dev, b)" "unlocked s (dev, b)"
  shows "ok (bzero dev b s) (\<lambda>_ s'. txn s' (insert (dev, b) K) m \<and> tstep s ((bview s)((dev, b) := replicate BSIZE 0)) s')"
  unfolding bzero_def ok_bindk
  by (rule ok_mono [OF tupdate [where f = "\<lambda>_. replicate BSIZE 0", OF assms]]) auto

text \<open>The bitmap; the clear bits among those that \<open>balloc\<close> looks at, which are as many as the partition has blocks; and the free data
  blocks, of which there are only \<open>nblocks\<close>.\<close>

definition bitmap :: "nat \<Rightarrow> 'a fs_state_scheme \<Rightarrow> uchar list" where
  "bitmap p s = bview s (bmapk p s)"

definition bmap_free :: "nat \<Rightarrow> 'a fs_state_scheme \<Rightarrow> nat \<Rightarrow> bool" where
  "bmap_free p s b \<longleftrightarrow> b < unat (sb_size (psb p s)) \<and> bit_free (bitmap p s) b"

definition block_free :: "nat \<Rightarrow> 'a fs_state_scheme \<Rightarrow> nat \<Rightarrow> bool" where
  "block_free p s b \<longleftrightarrow> b < unat (sb_nblocks (psb p s)) \<and> bit_free (bitmap p s) b"

lemma block_bmap_free: "fs_geom p s \<Longrightarrow> block_free p s b \<longleftrightarrow> bmap_free p s b \<and> b < unat (sb_nblocks (psb p s))"
  by (auto simp: block_free_def bmap_free_def fs_geom_def)

text \<open>The data blocks are the ones inside the partition.\<close>

lemma datab_inside:
  assumes "fs_geom p s" "b < unat (sb_size (psb p s))"
  shows "unat (datab p s b) < unat (poff p s) + unat (sb_size (psb p s)) \<longleftrightarrow> b < unat (sb_nblocks (psb p s))"
  using assms(1) unfolding unat_datab [OF assms] fs_geom_def by linarith

lemma length_bitmap:
  assumes "txn s K m" "fs_geom p s"
  shows "length (bitmap p s) = BSIZE"
proof -
  have "baccept s (bmapk p s)"
    using geom_blocks(1) [OF assms(2)] unfolding loggable_def by blast
  then show ?thesis
    using assms(1) length_bview [of s "bmapk p s"] by (auto simp: bitmap_def txn_def txn_open_def baccept_def)
qed

lemma length_set_bit [simp]: "length (set_bit_in bi d) = length d" "length (clear_bit_in bi d) = length d"
  by (simp_all add: set_bit_in_def clear_bit_in_def)

text \<open>The bits of a byte are independent.\<close>

lemma bit_mask_bit: "bit (bit_mask i :: uchar) n \<longleftrightarrow> n = i mod 8"
  by (auto simp: bit_mask_def bit_simps)

lemma bit_free_bit: "bit_free d i \<longleftrightarrow> \<not> bit (d ! (i div 8)) (i mod 8)"
proof -
  have "bit_free d i \<longleftrightarrow> (\<forall>n. \<not> bit (d ! (i div 8) AND bit_mask i) n)"
    unfolding bit_free_def by (metis bit_0_eq bit_word_eqI bot_apply bot_bool_def)
  then show ?thesis
    by (auto simp: bit_and_iff bit_mask_bit)
qed

lemma bit_free_set:
  assumes "i div 8 < length d"
  shows "bit_free (set_bit_in i d) j \<longleftrightarrow> j \<noteq> i \<and> bit_free d j"
proof (cases "j div 8 = i div 8")
  case True
  then have "j = i \<longleftrightarrow> j mod 8 = i mod 8"
    by (metis div_mult_mod_eq)
  then show ?thesis
    using True assms by (auto simp: bit_free_bit set_bit_in_def bit_or_iff bit_mask_bit)
qed (auto simp: bit_free_bit set_bit_in_def)

lemma bit_free_clear:
  assumes "i div 8 < length d"
  shows "bit_free (clear_bit_in i d) j \<longleftrightarrow> j = i \<or> bit_free d j"
proof (cases "j div 8 = i div 8")
  case True
  then have "j = i \<longleftrightarrow> j mod 8 = i mod 8"
    by (metis div_mult_mod_eq)
  then show ?thesis
    using True assms by (auto simp: bit_free_bit clear_bit_in_def bit_and_iff bit_not_iff bit_mask_bit)
qed (auto simp: bit_free_bit clear_bit_in_def)

lemma clear_set_bit:
  assumes "i div 8 < length d" "bit_free d i"
  shows "clear_bit_in i (set_bit_in i d) = d"
proof -
  have "((d ! (i div 8) OR bit_mask i) AND NOT (bit_mask i)) = d ! (i div 8)"
    using assms(2) by (auto intro!: bit_word_eqI simp: bit_free_bit bit_simps bit_mask_bit)
  then show ?thesis
    using assms(1) by (simp add: clear_bit_in_def set_bit_in_def)
qed

subsection \<open>Allocation\<close>

lemma find_first:
  "find P [0..<n] = Some i \<longleftrightarrow> i < n \<and> P i \<and> (\<forall>j<i. \<not> P j)"
  by (auto simp: find_Some_iff)

lemma balloc_loop_ok:
  fixes sb dev
  defines "k \<equiv> (dev, sb_bmapstart sb)"
  assumes t: "txn s K (Suc m)" and k: "k \<in> K" and l: "loggable s k" "loggable s (dev, r)" and u: "unlocked s k" "unlocked s (dev, r)"
    and len: "length (bview s k) = BSIZE" and r: "r = sb_bmapstart sb + 1 + of_nat b"
    and f: "find (bit_free (bview s k)) [0..<min BPB (unat (sb_size sb))] = Some b"
  shows "ok (balloc_loop [0] sb dev s) (\<lambda>r' s'. r' = r \<and> txn s' (insert (dev, r) K) m \<and>
    tstep s ((bview s)(k := set_bit_in b (bview s k), (dev, r) := replicate BSIZE 0)) s')"
proof -
  have bb: "BBLOCK (of_nat 0) sb = sb_bmapstart sb"
    by (simp add: BBLOCK_def)
  have t1: "txn s K (Suc m + (if k \<in> K then 0 else 1))" and len1: "length (set_bit_in b (bview s k)) = BSIZE"
    using t k len by simp_all
  have z: "ok (bindk (bzero dev r s2) (\<lambda>_. Ok r)) (\<lambda>r' s'. r' = r \<and> txn s' (insert (dev, r) K) m \<and>
      tstep s ((bview s)(k := set_bit_in b (bview s k), (dev, r) := replicate BSIZE 0)) s')"
    if s2: "txn s2 (insert k K) (Suc m)" "tstep s ((bview s)(k := set_bit_in b (bview s k))) s2" for s2
  proof -
    have "txn s2 K (m + (if (dev, r) \<in> K then 0 else 1))"
      using s2(1) k txn_mono [OF s2(1), of m] by (simp add: insert_absorb)
    moreover have "loggable s2 (dev, r)" "unlocked s2 (dev, r)"
      using l(2) u(2) tstep_frame(1) [OF s2(2)] tstep_unlocked [OF s2(2)] by simp_all
    ultimately show ?thesis
      unfolding ok_bindk
      by (rule ok_mono [OF bzero_ok]) (use tstep_frame(6) [OF s2(2)] tstep_trans [OF s2(2)] in simp)
  qed
  show ?thesis
    unfolding balloc_loop.simps(2) bb ok_bindk
  proof (rule ok_mono [OF tupdate [where f = "set_bit_in b", OF t1 [unfolded k_def] l(1) [unfolded k_def] u(1) [unfolded k_def] len1 [unfolded k_def]]],
      fold k_def, elim conjE)
    fix i s2
    assume i: "bdata s2 i = bview s k" "ok (log_write i (bstore i (set_bit_in b (bdata s2 i)) s2)) (\<lambda>_ s2. ok (brelse i s2) (\<lambda>_ s'.
          txn s' (insert k K) (Suc m) \<and> tstep s ((bview s)(k := set_bit_in b (bview s k))) s'))"
    have fnd: "find (bit_free (bdata s2 i)) [0..<min BPB (unat (sb_size sb) - 0)] = Some b"
      using f i(1) by simp
    show "ok (case find (bit_free (bdata s2 i)) [0..<min BPB (unat (sb_size sb) - 0)] of
           Some bi \<Rightarrow> bindk (log_write i (bstore i (set_bit_in bi (bdata s2 i)) s2)) (\<lambda>_ s.
             bindk (brelse i s) (\<lambda>_ s. let r = sb_bmapstart sb + 1 + of_nat (0 + bi) in bindk (bzero dev r s) (\<lambda>_. Ok r)))
         | None \<Rightarrow> bindk (brelse i s2) (\<lambda>_. balloc_loop [] sb dev))
        (\<lambda>r' s'. r' = r \<and> txn s' (insert (dev, r) K) m \<and>
           tstep s ((bview s)(k := set_bit_in b (bview s k), (dev, r) := replicate BSIZE 0)) s')"
      unfolding fnd option.case Let_def add_0 r [symmetric]
      unfolding ok_bindk [of "log_write _ _"] ok_bindk [of "brelse _ _"]
      by (rule ok_mono [OF i(2)], erule ok_mono) (use z in blast)
  qed
qed

lemma balloc_ok:
  assumes t: "txn s K (Suc m)" and g: "fs_geom p s" and k: "bmapk p s \<in> K"
    and b: "bmap_free p s b" "\<And>j. j < b \<Longrightarrow> \<not> bmap_free p s j"
    and u: "unlocked s (pdev p s, poff p s)" "unlocked s (bmapk p s)" "unlocked s (pdev p s, datab p s b)"
  shows "ok (balloc (Some p) s) (\<lambda>r s'. r = datab p s b \<and> txn s' (insert (pdev p s, r) K) m \<and>
    tstep s ((bview s)(bmapk p s := set_bit_in b (bitmap p s), (pdev p s, r) := replicate BSIZE 0)) s')"
proof -
  let ?sb = "psb p s" and ?dev = "pdev p s"
  have size: "0 < unat (sb_size ?sb)" "unat (sb_size ?sb) \<le> BPB" and lt: "b < unat (sb_size ?sb)"
    using b(1) g by (auto simp: bmap_free_def fs_geom_def)
  then have bs: "map (\<lambda>j. j * BPB) [0..<(unat (sb_size ?sb) + BPB - 1) div BPB] = [0]"
    by (subst div_nat_eqI [where q = 1]) auto
  have fnd: "find (bit_free (bitmap p s)) [0..<min BPB (unat (sb_size ?sb))] = Some b"
    using b size by (auto simp: find_first bmap_free_def)
  show ?thesis
    unfolding balloc_def part_at_geom [OF g] option.case pdev_def [symmetric] ok_bindk
  proof (rule ok_mono [OF readsb_ok [OF t g u(1)]], elim conjE)
    fix sb s1 assume s1: "sb = ?sb" "txn s1 K (Suc m)" "tstep s (bview s) s1"
    note f1 = tstep_frame [OF s1(3)] tstep_unlocked [OF s1(3)]
    show "ok (balloc_loop (map (\<lambda>j. j * BPB) [0..<(unat (sb_size sb) + BPB - 1) div BPB]) sb ?dev s1)
      (\<lambda>r s'. r = datab p s b \<and> txn s' (insert (?dev, r) K) m \<and>
         tstep s ((bview s)(bmapk p s := set_bit_in b (bitmap p s), (?dev, r) := replicate BSIZE 0)) s')"
      unfolding s1(1) bs
      by (rule ok_mono [OF balloc_loop_ok [where r = "datab p s b", OF s1(2) k]])
        (use f1 u fnd geom_blocks [OF g] lt length_bitmap [OF t g] tstep_trans [OF s1(3)]
          in \<open>auto simp: datab_def bitmap_def\<close>)
  qed
qed

subsection \<open>Freeing\<close>

lemma datab_index:
  assumes "fs_geom p s" "b < unat (sb_size (psb p s))"
  shows "datab p s b - (sb_bmapstart (psb p s) + 1) = of_nat b" "BBLOCK (of_nat b) (psb p s) = sb_bmapstart (psb p s)"
    "unat (of_nat b mod of_nat BPB :: uint) = b"
proof -
  have b: "b < 4096"
    using assms by (simp add: fs_geom_def BPB_def)
  then have "(of_nat b :: uint) div of_nat BPB = 0"
    by (simp add: BPB_def word_unat_eq_iff unat_div unat_of_nat)
  then show "BBLOCK (of_nat b) (psb p s) = sb_bmapstart (psb p s)"
    by (simp add: BBLOCK_def)
  show "unat (of_nat b mod of_nat BPB :: uint) = b"
    using b by (simp add: BPB_def unat_mod unat_of_nat)
qed (simp add: datab_def)

lemma bfree_loop_start:
  assumes "txn s K m" "fs_geom p s" "unlocked s (pdev p s, poff p s)" "b < unat (sb_size (psb p s))"
    and "\<And>s1. txn s1 K m \<Longrightarrow> tstep s (bview s) s1 \<Longrightarrow>
      Q (bindk (bread (pdev p s) (sb_bmapstart (psb p s)) s1) (\<lambda>bp s.
           if bit_free (bdata s bp) b then Panic ''freeing free block''
           else bindk (log_write bp (bstore bp (clear_bit_in b (bdata s bp)) s)) (\<lambda>_ s. brelse bp s)))"
  shows "Q (bfree (Some p) (datab p s b) s)"
proof -
  obtain s1 where r: "readsb (Some p) s = Ok (psb p s) s1" "txn s1 K m" "tstep s (bview s) s1"
    using readsb_ok [OF assms(1-3)] by (auto simp: ok_def split: outcome.splits)
  have "part_at (Some p) s1 = Some (partitions s ! p)"
    using part_at_geom [OF assms(2)] lframe_fs(1) [of s s1] r(3) by (simp add: part_at_def tstep_def split: if_splits)
  then show ?thesis
    using assms(5) [OF r(2,3)]
    unfolding bfree_def r(1) bindk.simps Let_def pdev_def by (simp only: option.case datab_index [OF assms(2,4)])
qed

lemma bfree_ok:
  assumes t: "txn s K m" and g: "fs_geom p s" and k: "bmapk p s \<in> K"
    and b: "b < unat (sb_size (psb p s))" "\<not> bmap_free p s b"
    and u: "unlocked s (pdev p s, poff p s)" "unlocked s (bmapk p s)"
  shows "ok (bfree (Some p) (datab p s b) s) (\<lambda>_ s'. txn s' K m \<and>
    tstep s ((bview s)(bmapk p s := clear_bit_in b (bitmap p s))) s')"
proof (rule bfree_loop_start [OF t g u(1) b(1)])
  fix s1 assume s1: "txn s1 K m" "tstep s (bview s) s1"
  note f1 = tstep_frame [OF s1(2)] tstep_unlocked [OF s1(2)]
  have t1: "txn s1 K (m + (if bmapk p s \<in> K then 0 else 1))" and l1: "loggable s1 (bmapk p s)" "unlocked s1 (bmapk p s)"
    and len: "length (clear_bit_in b (bview s1 (bmapk p s))) = BSIZE"
    using s1(1) k geom_blocks(1) [OF g] u(2) f1 length_bitmap [OF t g] by (simp_all add: bitmap_def)
  have nf: "\<not> bit_free (bview s1 (bmapk p s)) b"
    using b f1 by (simp add: bmap_free_def bitmap_def)
  show "ok (bindk (bread (pdev p s) (sb_bmapstart (psb p s)) s1) (\<lambda>bp s.
           if bit_free (bdata s bp) b then Panic ''freeing free block''
           else bindk (log_write bp (bstore bp (clear_bit_in b (bdata s bp)) s)) (\<lambda>_ s. brelse bp s)))
       (\<lambda>_ s'. txn s' K m \<and> tstep s ((bview s)(bmapk p s := clear_bit_in b (bitmap p s))) s')"
    unfolding ok_bindk
    by (rule ok_mono [OF tupdate [where f = "clear_bit_in b", OF t1 l1 len]], elim conjE, simp add: nf ok_bindk, erule ok_mono, erule ok_mono)
      (use tstep_trans [OF s1(2)] f1 k in \<open>simp add: bitmap_def insert_absorb\<close>)
qed

lemma bfree_panic:
  assumes t: "txn s K m" and g: "fs_geom p s" and b: "bmap_free p s b"
    and u: "unlocked s (pdev p s, poff p s)" "unlocked s (bmapk p s)"
  shows "bfree (Some p) (datab p s b) s = Panic ''freeing free block''"
proof (rule bfree_loop_start [OF t g u(1)])
  show "b < unat (sb_size (psb p s))"
    using b by (simp add: bmap_free_def)
  fix s1 assume s1: "txn s1 K m" "tstep s (bview s) s1"
  note f1 = tstep_frame [OF s1(2)] tstep_unlocked [OF s1(2)]
  have "baccept s1 (bmapk p s)" "unlocked s1 (bmapk p s)"
    using geom_blocks(1) [OF g] u(2) f1 by (auto simp: loggable_def)
  from tread [OF s1(1) this] obtain i s2 where "bread (pdev p s) (sb_bmapstart (psb p s)) s1 = Ok i s2" "bdata s2 i = bitmap p s"
    using f1 by (auto simp: ok_def bitmap_def split: outcome.splits)
  then show "bindk (bread (pdev p s) (sb_bmapstart (psb p s)) s1) (\<lambda>bp s.
           if bit_free (bdata s bp) b then Panic ''freeing free block''
           else bindk (log_write bp (bstore bp (clear_bit_in b (bdata s bp)) s)) (\<lambda>_ s. brelse bp s)) = Panic ''freeing free block''"
    using b by (simp add: bmap_free_def)
qed

section \<open>A concrete file system\<close>

text \<open>
  A disk with a partition of 54 blocks at block 1, with 20 data blocks and 8 inodes (inodes in block 32, bitmap in block 34, data from
  block 35), the other blocks given by \<open>f\<close> and padded with zeros, inside a
  transaction.
\<close>

definition demo_disk :: "(uint \<Rightarrow> uchar list) \<Rightarrow> drives" where
  "demo_disk f = (\<lambda>_ n. if n = 1 then put32 0 54 (put32 4 20 (put32 8 8 (put32 12 30 (put32 16 1 (put32 20 31 (put32 24 33 (replicate BSIZE 0)))))))
     else take BSIZE (f n @ replicate BSIZE 0))"

definition demo_fs :: "(uint \<Rightarrow> uchar list) \<Rightarrow> fs_state" where
  "demo_fs f = (fs_zero (demo_disk f))\<lparr>log_outstanding := 1\<rparr>"

lemma extend_log:
  "bio_inv (log_state.extend r m) = bio_inv r" "busy (log_state.extend r m) = busy r" "dirty (log_state.extend r m) = dirty r"
  "bview (log_state.extend r m) = bview r" "log_geom (log_state.extend r m) = log_geom r" "hdr_ok (log_state.extend r m) n = hdr_ok r n"
  "log_start (log_state.extend r m) = log_start r" "log_size (log_state.extend r m) = log_size r"
  "log_dev (log_state.extend r m) = log_dev r"
  by (simp_all add: bio_inv_def buf_ok_def baccept_def dsk_def ide_ready_def busy_def dirty_def bview_def log_geom_def hdr_ok_def
      home_ok_def in_log_def log_state.defs fun_eq_iff split: option.split)

lemma outstanding_frame:
  "log_geom (s\<lparr>log_outstanding := x\<rparr>) = log_geom s" "hdr_ok (s\<lparr>log_outstanding := x\<rparr>) n = hdr_ok s n"
  by (simp_all add: log_geom_def hdr_ok_def home_ok_def in_log_def baccept_def)

lemma length_demo_disk: "length (demo_disk f a n) = BSIZE"
  by (auto simp: demo_disk_def BSIZE_def)

lemma demo_txn:
  "txn_open (demo_fs f) 0" "busy (demo_fs f) = {}" "dirty (demo_fs f) = {}" "bview (demo_fs f) = dsk (bio_zero (demo_disk f))"
  "log_start (demo_fs f) = 2" "log_size (demo_fs f) = 30" "log_outstanding (demo_fs f) = 1" "log_dev (demo_fs f) = 0"
  "partitions (demo_fs f) = replicate NPARTITIONS partition1" "icache (demo_fs f) = replicate 50 inode0"
proof -
  note z = log_zero_txn [of "demo_disk f", OF length_demo_disk]
  show "busy (demo_fs f) = {}" "dirty (demo_fs f) = {}" "bview (demo_fs f) = dsk (bio_zero (demo_disk f))"
    "log_start (demo_fs f) = 2" "log_size (demo_fs f) = 30" "log_outstanding (demo_fs f) = 1" "log_dev (demo_fs f) = 0"
    "partitions (demo_fs f) = replicate NPARTITIONS partition1" "icache (demo_fs f) = replicate 50 inode0"
    using z by (simp_all add: demo_fs_def) (simp_all add: fs_zero_def extend_log)
  show "txn_open (demo_fs f) 0"
    using z(1) by (simp add: txn_open_def txn_ok_def demo_fs_def outstanding_frame) (simp add: fs_zero_def extend_log)
qed

lemma demo_geom:
  "pdev 0 (demo_fs f) = 0" "poff 0 (demo_fs f) = 1" "sb_bmapstart (psb 0 (demo_fs f)) = 34" "sb_inodestart (psb 0 (demo_fs f)) = 32"
  "sb_size (psb 0 (demo_fs f)) = 54" "sb_nblocks (psb 0 (demo_fs f)) = 20" "sb_ninodes (psb 0 (demo_fs f)) = 8" "bitmap 0 (demo_fs f) = take BSIZE (f 34 @ replicate BSIZE 0)"
proof -
  show d: "pdev 0 (demo_fs f) = 0" "poff 0 (demo_fs f) = 1"
    by (simp_all add: pdev_def poff_def demo_txn NPARTITIONS_def partition1_def)
  show b: "sb_bmapstart (psb 0 (demo_fs f)) = 34" "sb_inodestart (psb 0 (demo_fs f)) = 32"
    "sb_size (psb 0 (demo_fs f)) = 54" "sb_nblocks (psb 0 (demo_fs f)) = 20" "sb_ninodes (psb 0 (demo_fs f)) = 8"
    by (simp_all add: psb_def d demo_txn dsk_def bio_zero_def demo_disk_def dec_superblock_def rebase_sb_def get32_put32_disjoint BSIZE_def)
  show "bitmap 0 (demo_fs f) = take BSIZE (f 34 @ replicate BSIZE 0)"
    by (simp add: bitmap_def d b demo_txn dsk_def bio_zero_def demo_disk_def)
qed

lemma demo_fs_geom: "fs_geom 0 (demo_fs f)"
proof -
  have l: "loggable (demo_fs f) (0, b)" if "32 \<le> unat b" "unat b \<le> 88" for b
    using that by (auto simp: loggable_def in_log_def demo_txn baccept_def LOGSIZE_def word_less_nat_alt)
  then show ?thesis
    by (simp add: fs_geom_def demo_geom demo_txn NPARTITIONS_def baccept_def BPB_def)
qed

lemma demo_view: "k \<noteq> (0, 1) \<Longrightarrow> fst k = 0 \<Longrightarrow> bview (demo_fs f) k = take BSIZE (f (snd k) @ replicate BSIZE 0)"
  by (cases k) (simp add: demo_txn dsk_def bio_zero_def demo_disk_def)

lemma demo_bits: "bmap_free 0 (demo_fs f) b \<longleftrightarrow> b < 54 \<and> bit_free (take BSIZE (f 34 @ replicate BSIZE 0)) b"
  by (simp add: bmap_free_def demo_geom)

lemma demo_free: "block_free 0 (demo_fs f) b \<longleftrightarrow> b < 20 \<and> bit_free (take BSIZE (f 34 @ replicate BSIZE 0)) b"
  by (simp add: block_free_def demo_geom)

lemma demo_empty_free: "block_free 0 (demo_fs (\<lambda>_. [])) b \<longleftrightarrow> b < 20"
  by (auto simp: demo_free bit_free_def BSIZE_def)

lemma demo_empty_bits: "bmap_free 0 (demo_fs (\<lambda>_. [])) b \<longleftrightarrow> b < 54"
  by (auto simp: demo_bits bit_free_def BSIZE_def)

lemma demo_budget: "finite K \<Longrightarrow> card K + m \<le> 8 \<Longrightarrow> txn (demo_fs f) K m"
  using demo_txn by (auto simp: txn_def LOGSIZE_def NBUF_def)

section \<open>Properties\<close>

lemma first_free:
  assumes "bmap_free p s b0"
  obtains b where "bmap_free p s b" "\<And>j. j < b \<Longrightarrow> \<not> bmap_free p s j"
  using assms exists_least_iff [of "bmap_free p s"] by blast

text \<open>The bitmap after an operation that changes it and one data block.\<close>

lemma bitmap_step:
  assumes "fs_geom p s" "b < unat (sb_size (psb p s))" "tstep s ((bview s)(bmapk p s := d, (pdev p s, datab p s b) := x)) s'"
  shows "bitmap p s' = d" "psb p s' = psb p s" "pdev p s' = pdev p s" "poff p s' = poff p s" "datab p s' = datab p s" "fs_geom p s'"
proof -
  have v: "((bview s)(bmapk p s := d, (pdev p s, datab p s b) := x)) (pdev p s, poff p s) = bview s (pdev p s, poff p s)"
    using geom_blocks(3) [OF assms(1)] geom_blocks(4) [OF assms(1,2)] by (simp add: eq_commute [of _ "poff p s"])
  note g = geom_step [OF assms(3) v]
  show "psb p s' = psb p s" "pdev p s' = pdev p s" "poff p s' = poff p s" "datab p s' = datab p s" "fs_geom p s'"
    using g assms(1) by auto
  show "bitmap p s' = d"
    using g geom_blocks(5) [OF assms(1,2)] tstep_frame(6) [OF assms(3)] by (simp add: bitmap_def)
qed

lemma balloc_step:
  assumes t: "txn s K (Suc m)" and g: "fs_geom p s" and k: "bmapk p s \<in> K" and u: "busy s = {}" and f: "bmap_free p s b0"
  shows "ok (balloc (Some p) s) (\<lambda>r s'. \<exists>b\<le>b0. r = datab p s b \<and> bmap_free p s b \<and> psb p s' = psb p s \<and>
    (\<forall>j. bmap_free p s' j \<longleftrightarrow> j \<noteq> b \<and> bmap_free p s j) \<and> bview s' (pdev p s, r) = replicate BSIZE 0 \<and>
    (\<forall>k. k \<noteq> bmapk p s \<and> k \<noteq> (pdev p s, r) \<longrightarrow> bview s' k = bview s k) \<and> disk s' = disk s \<and> busy s' = {} \<and>
    txn s' (insert (pdev p s, r) K) m \<and> fs_geom p s')"
proof -
  obtain b where b: "bmap_free p s b" "\<And>j. j < b \<Longrightarrow> \<not> bmap_free p s j"
    using first_free [OF f] by blast
  have lt: "b < unat (sb_size (psb p s))" "b div 8 < length (bitmap p s)" "b \<le> b0"
    using b g f length_bitmap [OF t g] by (auto simp: bmap_free_def fs_geom_def BPB_def BSIZE_def not_less [symmetric])
  show ?thesis
  proof (rule ok_mono [OF balloc_ok [OF t g k b]], goal_cases)
    case (5 r s')
    then have r: "r = datab p s b" and t1: "txn s' (insert (pdev p s, r) K) m"
      and st0: "tstep s ((bview s)(bmapk p s := set_bit_in b (bitmap p s), (pdev p s, r) := replicate BSIZE 0)) s'"
      by blast+
    note st = st0 bitmap_step [OF g lt(1) st0 [unfolded r]] tstep_frame(6) [OF st0]
    have "bmap_free p s' j \<longleftrightarrow> j \<noteq> b \<and> bmap_free p s j" for j
      using st bit_free_set [OF lt(2)] by (auto simp: bmap_free_def)
    then show ?case
      using r t1 st(3,7,8) b(1) u st0 lt(3) by (intro exI [of _ b]) (simp add: tstep_def)
  qed (simp_all add: txn_unlocked u)
qed

text \<open>
  C17: \<open>balloc\<close> allocates: inside a transaction with room in the log and the buffer cache and with no buffer locked, on a partition laid out as mkfs does it and with a free data
  block, it returns the number of a data block that was free, a block inside the partition. It marks exactly this block as used in the
  bitmap, fills it with zeros, changes no other block and writes nothing to the disk (the changes wait in the log for the commit).
\<close>

theorem balloc_takes_free_block:
  assumes t: "txn s K (Suc m)" and g: "fs_geom p s" and k: "bmapk p s \<in> K" and u: "busy s = {}" and f: "block_free p s b0"
  shows "ok (balloc (Some p) s) (\<lambda>r s'. \<exists>b. r = datab p s b \<and> block_free p s b \<and>
    unat (poff p s) < unat r \<and> unat r < unat (poff p s) + unat (sb_size (psb p s)) \<and>
    (\<forall>j. block_free p s' j \<longleftrightarrow> j \<noteq> b \<and> block_free p s j) \<and> bview s' (pdev p s, r) = replicate BSIZE 0 \<and>
    (\<forall>k. k \<noteq> bmapk p s \<and> k \<noteq> (pdev p s, r) \<longrightarrow> bview s' k = bview s k) \<and> disk s' = disk s \<and> busy s' = {} \<and>
    txn s' (insert (pdev p s, r) K) m)"
proof -
  have f0: "bmap_free p s b0" "b0 < unat (sb_nblocks (psb p s))" using f block_bmap_free [OF g] by blast+
  show ?thesis
  proof (rule ok_mono [OF balloc_step [OF t g k u f0(1)]], elim exE conjE)
    fix r s' b assume b: "b \<le> b0" "bmap_free p s b" "r = datab p s b" and g': "psb p s' = psb p s" "fs_geom p s'"
      and bm: "\<forall>j. bmap_free p s' j \<longleftrightarrow> j \<noteq> b \<and> bmap_free p s j"
      and rest: "bview s' (pdev p s, r) = replicate BSIZE 0" "\<forall>k. k \<noteq> bmapk p s \<and> k \<noteq> (pdev p s, r) \<longrightarrow> bview s' k = bview s k"
        "disk s' = disk s" "busy s' = {}" "txn s' (insert (pdev p s, r) K) m"
    have lt: "b < unat (sb_size (psb p s))" using b(2) by (simp add: bmap_free_def)
    have "block_free p s b" using b f0(2) block_bmap_free [OF g] by simp
    moreover have "unat r < unat (poff p s) + unat (sb_size (psb p s))" using datab_inside [OF g lt] b(1,3) f0(2) by simp
    moreover have "unat (poff p s) < unat r" using unat_datab [OF g lt] g b(3) by (simp add: fs_geom_def)
    moreover have "\<forall>j. block_free p s' j \<longleftrightarrow> j \<noteq> b \<and> block_free p s j"
      using bm block_bmap_free [OF g] block_bmap_free [OF g'(2)] g'(1) by auto
    ultimately show "\<exists>b. r = datab p s b \<and> block_free p s b \<and>
        unat (poff p s) < unat r \<and> unat r < unat (poff p s) + unat (sb_size (psb p s)) \<and>
        (\<forall>j. block_free p s' j \<longleftrightarrow> j \<noteq> b \<and> block_free p s j) \<and> bview s' (pdev p s, r) = replicate BSIZE 0 \<and>
        (\<forall>k. k \<noteq> bmapk p s \<and> k \<noteq> (pdev p s, r) \<longrightarrow> bview s' k = bview s k) \<and> disk s' = disk s \<and> busy s' = {} \<and>
        txn s' (insert (pdev p s, r) K) m"
      using b(3) rest by (intro exI [of _ b]) simp
  qed
qed

theorem balloc_takes_free_block_witness:
  "ok (balloc (Some 0) (demo_fs (\<lambda>_. []))) (\<lambda>r s'. \<exists>b<20. r = 35 + of_nat b \<and> unat r < 55 \<and> (\<forall>j. block_free 0 s' j \<longleftrightarrow> j \<noteq> b \<and> j < 20))"
proof -
  have "txn (demo_fs (\<lambda>_. [])) {bmapk 0 (demo_fs (\<lambda>_. []))} (Suc 0)" "bmapk 0 (demo_fs (\<lambda>_. [])) \<in> {bmapk 0 (demo_fs (\<lambda>_. []))}" "block_free 0 (demo_fs (\<lambda>_. [])) 3"
    by (simp_all add: demo_budget demo_empty_free)
  from balloc_takes_free_block [OF this(1) demo_fs_geom this(2) demo_txn(2) this(3)] show ?thesis
    by (rule ok_mono) (auto simp: demo_empty_free datab_def demo_geom)
qed

text \<open>
  C18: Freeing undoes allocating, once: when a bit that \<open>balloc\<close> looks at is clear, \<open>bfree\<close> of the block that \<open>balloc\<close> returned succeeds and gives
  back the bitmap as it was, and freeing the same block a second time panics.
\<close>

theorem balloc_bfree_roundtrip:
  assumes t: "txn s K (Suc m)" and g: "fs_geom p s" and k: "bmapk p s \<in> K" and u: "busy s = {}" and f: "bmap_free p s b0"
  shows "ok (balloc (Some p) s) (\<lambda>r s1. ok (bfree (Some p) r s1) (\<lambda>_ s2.
    bitmap p s2 = bitmap p s \<and> bfree (Some p) r s2 = Panic ''freeing free block''))"
proof -
  obtain b where b: "bmap_free p s b" "\<And>j. j < b \<Longrightarrow> \<not> bmap_free p s j"
    using first_free [OF f] by blast
  have lt: "b < unat (sb_size (psb p s))" "b div 8 < length (bitmap p s)"
    using b(1) g length_bitmap [OF t g] by (auto simp: bmap_free_def fs_geom_def BPB_def BSIZE_def)
  show ?thesis
  proof (rule ok_mono [OF balloc_ok [OF t g k b]], goal_cases)
    case (5 r s1)
    then have r: "r = datab p s b" and t1: "txn s1 (insert (pdev p s, r) K) m"
      and st0: "tstep s ((bview s)(bmapk p s := set_bit_in b (bitmap p s), (pdev p s, r) := replicate BSIZE 0)) s1"
      by blast+
    note st = st0 bitmap_step [OF g lt(1) st0 [unfolded r]] tstep_frame(7) [OF st0]
    have nf: "\<not> bmap_free p s1 b"
      using st bit_free_set [OF lt(2)] by (simp add: bmap_free_def)
    have "ok (bfree (Some p) (datab p s1 b) s1) (\<lambda>_ s2. txn s2 (insert (pdev p s, r) K) m \<and>
        tstep s1 ((bview s1)(bmapk p s1 := clear_bit_in b (bitmap p s1))) s2)"
      using st nf lt k u by (intro bfree_ok [OF t1]) (simp_all add: txn_unlocked)
    then show ?case
      unfolding r st(6)
    proof (rule ok_mono, elim conjE)
      fix s2 assume s2: "txn s2 (insert (pdev p s, datab p s b) K) m" "tstep s1 ((bview s1)(bmapk p s1 := clear_bit_in b (bitmap p s1))) s2"
      have "((bview s1)(bmapk p s1 := clear_bit_in b (bitmap p s1))) (pdev p s1, poff p s1) = bview s1 (pdev p s1, poff p s1)"
        using geom_blocks(3) [OF st(7)] by simp
      note g2 = geom_step [OF s2(2) this] tstep_frame [OF s2(2)]
      have bm: "bitmap p s2 = bitmap p s"
        using g2 st clear_set_bit [of b "bitmap p s"] b(1) lt(2) by (simp add: bitmap_def [of p s2] bmap_free_def)
      have "bfree (Some p) (datab p s2 b) s2 = Panic ''freeing free block''"
        using bm g2 st b(1) u by (intro bfree_panic [OF s2(1)]) (simp_all add: txn_unlocked bmap_free_def)
      then show "bitmap p s2 = bitmap p s \<and> bfree (Some p) (datab p s b) s2 = Panic ''freeing free block''"
        using bm g2 st by simp
    qed
  qed (simp_all add: txn_unlocked u)
qed

theorem balloc_bfree_roundtrip_witness:
  "ok (balloc (Some 0) (demo_fs (\<lambda>_. []))) (\<lambda>r s1. ok (bfree (Some 0) r s1) (\<lambda>_ s2. bitmap 0 s2 = replicate BSIZE 0))"
proof -
  have "txn (demo_fs (\<lambda>_. [])) {bmapk 0 (demo_fs (\<lambda>_. []))} (Suc 0)" "bmapk 0 (demo_fs (\<lambda>_. [])) \<in> {bmapk 0 (demo_fs (\<lambda>_. []))}" "bmap_free 0 (demo_fs (\<lambda>_. [])) 3"
    by (simp_all add: demo_budget demo_empty_bits)
  from balloc_bfree_roundtrip [OF this(1) demo_fs_geom this(2) demo_txn(2) this(3)] show ?thesis
    by (rule ok_mono) (auto simp: demo_geom elim: ok_mono)
qed

lemma balloc_no_bit:
  assumes t: "txn s K m" and g: "fs_geom p s" and b: "\<forall>b. \<not> bmap_free p s b" and u0: "busy s = {}"
  shows "balloc (Some p) s = Panic ''balloc: out of blocks''"
proof -
  have u: "unlocked s (pdev p s, poff p s)" "unlocked s (bmapk p s)"
    using u0 by (simp_all add: txn_unlocked)
  let ?sb = "psb p s" and ?dev = "pdev p s"
  have size: "unat (sb_size ?sb) \<le> BPB"
    using g by (auto simp: fs_geom_def)
  obtain s1 where r: "readsb (Some p) s = Ok ?sb s1" "txn s1 K m" "tstep s (bview s) s1"
    using readsb_ok [OF t g u(1)] by (auto simp: ok_iff)
  note f1 = tstep_frame [OF r(3)] tstep_unlocked [OF r(3)]
  have "baccept s1 (bmapk p s)" "unlocked s1 (bmapk p s)"
    using geom_blocks(1) [OF g] u(2) f1 by (auto simp: loggable_def)
  from tread [OF r(2) this] obtain i s2 s3 where i: "bread ?dev (sb_bmapstart ?sb) s1 = Ok i s2" "bdata s2 i = bitmap p s"
      "brelse i s2 = Ok () s3"
    using f1 by (auto simp: ok_iff bitmap_def)
  have fnd: "find (bit_free (bitmap p s)) [0..<min BPB (unat (sb_size ?sb))] = None"
    using b by (auto simp: find_None_iff bmap_free_def)
  have bal: "balloc (Some p) s = balloc_loop (map (\<lambda>j. j * BPB) [0..<(unat (sb_size ?sb) + BPB - 1) div BPB]) ?sb ?dev s1"
    by (simp add: balloc_def part_at_geom [OF g] pdev_def r(1))
  show ?thesis
  proof (cases "unat (sb_size ?sb) = 0")
    case False
    then have "map (\<lambda>j. j * BPB) [0..<(unat (sb_size ?sb) + BPB - 1) div BPB] = [0]"
      using size by (subst div_nat_eqI [where q = 1]) auto
    then show ?thesis
      using i fnd unfolding bal by (simp add: BBLOCK_def)
  qed (simp add: bal BPB_def)
qed

text \<open>
  C19: What \<open>balloc\<close> does on a full partition (under the conditions of the previous properties: room in the log and the cache, no buffer locked, the layout
  of mkfs). It searches \<open>size\<close> bits of the bitmap although there are only \<open>nblocks\<close> data blocks, so when all
  data blocks are in use and a bit after theirs is clear, as mkfs leaves them, it does not fail: it returns a block after the end of
  the partition and overwrites it with zeros, the first of these being the super block of a partition that follows. Only when none of
  the \<open>size\<close> bits is clear does it panic with "out of blocks".
\<close>

theorem balloc_full_partition:
  assumes t: "txn s K (Suc m)" and g: "fs_geom p s" and k: "bmapk p s \<in> K" and u: "busy s = {}" and f: "\<forall>b. \<not> block_free p s b"
  shows "if \<exists>b. bmap_free p s b
     then ok (balloc (Some p) s) (\<lambda>r s'. unat (poff p s) + unat (sb_size (psb p s)) \<le> unat r \<and>
       bview s' (pdev p s, r) = replicate BSIZE 0 \<and>
       (bmap_free p s (unat (sb_nblocks (psb p s))) \<longrightarrow> r = poff p s + sb_size (psb p s)))
     else balloc (Some p) s = Panic ''balloc: out of blocks''"
proof (cases "\<exists>b. bmap_free p s b")
  case True
  let ?n = "unat (sb_nblocks (psb p s))"
  obtain b0 where b0: "bmap_free p s b0" "bmap_free p s ?n \<longrightarrow> b0 = ?n" using True by metis
  have "ok (balloc (Some p) s) (\<lambda>r s'. unat (poff p s) + unat (sb_size (psb p s)) \<le> unat r \<and>
       bview s' (pdev p s, r) = replicate BSIZE 0 \<and> (bmap_free p s ?n \<longrightarrow> r = poff p s + sb_size (psb p s)))"
  proof (rule ok_mono [OF balloc_step [OF t g k u b0(1)]], elim exE conjE, intro conjI impI)
    fix r s' b assume b: "b \<le> b0" "bmap_free p s b" "r = datab p s b"
    have lt: "b < unat (sb_size (psb p s))" "?n \<le> b" using b(2) f block_bmap_free [OF g] by (auto simp: bmap_free_def not_less [symmetric])
    then show "unat (poff p s) + unat (sb_size (psb p s)) \<le> unat r" using datab_inside [OF g lt(1)] b(3) by simp
    assume "bmap_free p s ?n"
    with b0(2) b(1) lt(2) have "b = ?n" by simp
    then have "unat r = unat (poff p s) + unat (sb_size (psb p s))" "unat r < 2 ^ 32"
      using unat_datab [OF g lt(1)] b(3) g by (simp_all add: fs_geom_def)
    then show "r = poff p s + sb_size (psb p s)" by (simp add: word_unat_eq_iff unat_word_ariths)
  qed
  with True show ?thesis by simp
next
  case False
  with balloc_no_bit [OF t g _ u] show ?thesis by simp
qed

lemma byte_ones: "bit (255 :: uchar) (b mod 8)"
proof -
  have "bit (mask 8 :: uchar) (b mod 8)"
    by (simp add: bit_mask_iff)
  then show ?thesis
    by (simp add: mask_eq_exp_minus_1)
qed

text \<open>With the bits of the 20 data blocks set, the block after the partition, number 55, is handed out; with all bits set there is none.\<close>

theorem balloc_full_partition_witness:
  "ok (balloc (Some 0) (demo_fs (\<lambda>_. [255, 255, 15]))) (\<lambda>r s'. r = 55 \<and> bview s' (0, 55) = replicate BSIZE 0) \<and>
   balloc (Some 0) (demo_fs (\<lambda>_. replicate BSIZE 255)) = Panic ''balloc: out of blocks''"
proof
  let ?s = "demo_fs (\<lambda>_. [255, 255, 15])"
  have "bit (mask 4 :: uchar) (b mod 8)" if "16 \<le> b" "b < 20" for b :: nat
    using that by (simp add: bit_mask_iff) presburger
  then have nib: "bit (15 :: uchar) (b mod 8)" if "16 \<le> b" "b < 20" for b :: nat
    using that by (simp add: mask_eq_exp_minus_1)
  have "\<not> bit_free (take BSIZE ([255, 255, 15] @ replicate BSIZE 0)) b" if b: "b < 20" for b
  proof -
    have "b div 8 = 0 \<or> b div 8 = 1 \<or> b div 8 = 2 \<and> 16 \<le> b" using b by presburger
    with b byte_ones [of b] nib [of b] show ?thesis by (auto simp: bit_free_bit BSIZE_def numeral_2_eq_2)
  qed
  then have f: "\<forall>b. \<not> block_free 0 ?s b" by (simp add: demo_free)
  have n: "bmap_free 0 ?s 20" by (simp add: demo_bits bit_free_def BSIZE_def bit_mask_def)
  have "txn ?s {bmapk 0 ?s} (Suc 0)" "bmapk 0 ?s \<in> {bmapk 0 ?s}" by (simp_all add: demo_budget)
  from balloc_full_partition [OF this(1) demo_fs_geom this(2) demo_txn(2) f] n
  show "ok (balloc (Some 0) ?s) (\<lambda>r s'. r = 55 \<and> bview s' (0, 55) = replicate BSIZE 0)"
    by (auto simp: demo_geom ok_iff split: if_splits)
  let ?t = "demo_fs (\<lambda>_. replicate BSIZE 255)"
  have t: "\<not> bmap_free 0 ?t b" "\<not> block_free 0 ?t b" for b
    by (auto simp: demo_bits demo_free bit_free_bit BSIZE_def byte_ones [simplified])
  have "txn ?t {bmapk 0 ?t} (Suc 0)" "bmapk 0 ?t \<in> {bmapk 0 ?t}" by (simp_all add: demo_budget)
  from balloc_full_partition [OF this(1) demo_fs_geom this(2) demo_txn(2)] t
  show "balloc (Some 0) ?t = Panic ''balloc: out of blocks''" by simp
qed

end
