(* ===== verification/Console_Input.thy ===== *)
theory Console_Input
  imports Console Ring Block_Spec
begin

text \<open>
  The line discipline of the console: the circular input buffer of console.c implements two queues,
  the characters that are ready for a reader and those of the line that is still being edited. \<open>consoleread\<close> takes from the first one.
\<close>

section \<open>The input line\<close>

interpretation input_ring: ring_buffer INPUT_BUF
  by unfold_locales (simp_all add: INPUT_BUF_def)

definition ready :: "'a cons_state_scheme \<Rightarrow> uchar list" where
  "ready s = ring INPUT_BUF (in_buf s) (in_r s) (in_w s)"

definition editing :: "'a cons_state_scheme \<Rightarrow> uchar list" where
  "editing s = ring INPUT_BUF (in_buf s) (in_w s) (in_e s)"

definition input_ok :: "'a cons_state_scheme \<Rightarrow> bool" where
  "input_ok s \<longleftrightarrow> length (in_buf s) = INPUT_BUF \<and> length (ready s) + length (editing s) \<le> INPUT_BUF \<and>
     10 \<notin> set (editing s) \<and> screen_ok s \<and> \<not> panicked s"

text \<open>The line discipline: the characters ready for a reader and those of the line being edited.\<close>

definition line_char :: "cint \<Rightarrow> uchar list \<times> uchar list \<Rightarrow> uchar list \<times> uchar list" where
  "line_char c q =
     (let (rd, ed) = q
      in if c = 0x10 then q
         else if c = 0x15 then (rd, [])
         else if c = 8 \<or> c = 0x7f then (rd, butlast ed)
         else if c \<noteq> 0 \<and> length rd + length ed < INPUT_BUF
         then let c = (if c = 13 then 10 else c); ed = ed @ [ucast c]
              in if c = 10 \<or> c = 4 \<or> length rd + length ed = INPUT_BUF then (rd @ ed, []) else (rd, ed)
         else q)"

lemma length_ready [simp]: "length (ready s) = unat (in_w s - in_r s)"
  by (simp add: ready_def)

lemma length_editing [simp]: "length (editing s) = unat (in_e s - in_w s)"
  by (simp add: editing_def)

lemma input_cong:
  assumes "printed s s'"
  shows "ready s' = ready s" "editing s' = editing s"
  using assms by (simp_all add: ready_def editing_def)

text \<open>Erasing the last character of the line.\<close>

lemma editing_erase:
  assumes "in_e s \<noteq> in_w s"
  shows "editing (s\<lparr>in_e := in_e s - 1\<rparr>) = butlast (editing s)"
    and "in_buf s ! (unat (in_e s - 1) mod INPUT_BUF) = last (editing s)"
  using ring_erase [OF assms, where N = INPUT_BUF and buf = "in_buf s"] by (simp_all add: editing_def)

text \<open>Erasing on the screen as well.\<close>

lemma erase_ok:
  assumes "input_ok s" and "in_e s \<noteq> in_w s"
  shows "ok (consputc BACKSPACE (s\<lparr>in_e := in_e s - 1\<rparr>)) (\<lambda>_ s'. input_ok s' \<and> ready s' = ready s \<and>
    editing s' = butlast (editing s) \<and> procs s' = procs s)"
proof -
  let ?s = "s\<lparr>in_e := in_e s - 1\<rparr>"
  have ed: "editing ?s = butlast (editing s)" by (rule editing_erase(1) [OF assms(2)])
  have rd: "ready ?s = ready s" by (simp add: ready_def)
  have sc: "screen_ok ?s" "\<not> panicked ?s"
    using assms(1) by (simp_all add: input_ok_def screen_ok_def)
  have "input_ok s' \<and> ready s' = ready s \<and> editing s' = butlast (editing s) \<and> procs s' = procs s"
    if s': "screen_ok s'" "printed ?s s'" for s'
  proof -
    have e: "ready s' = ready s" "editing s' = butlast (editing s)"
      using input_cong [OF s'(2)] ed rd by simp_all
    then have "length (ready s') + length (editing s') \<le> INPUT_BUF" "10 \<notin> set (editing s')"
      using assms(1) by (auto simp only: input_ok_def length_butlast dest: in_set_butlastD)
    moreover have "length (in_buf s') = INPUT_BUF" "\<not> panicked s'" "procs s' = procs s"
      using printed_fields [OF s'(2)] assms(1) by (simp_all add: input_ok_def)
    ultimately show ?thesis
      using e s'(1) by (simp only: input_ok_def simp_thms)
  qed
  then show ?thesis
    by (intro ok_mono [OF consputc_ok [OF sc]]) blast
qed

lemma kill_line_ok:
  fixes s :: "'a cons_state_scheme"
  shows "input_ok s \<Longrightarrow> length (editing s) \<le> k \<Longrightarrow>
     ok (kill_line k s) (\<lambda>_ s'. input_ok s' \<and> ready s' = ready s \<and> editing s' = [] \<and> procs s' = procs s)"
proof (induction k arbitrary: s)
  case 0
  then show ?case by (simp add: ok_def flip: length_0_conv)
next
  case (Suc k)
  show ?case
  proof (cases "in_e s = in_w s")
    case True
    then show ?thesis
      using Suc.prems by (simp add: ok_def editing_def)
  next
    case False
    then have "editing s \<noteq> []"
      by (auto simp: editing_def ring_Nil_iff)
    then have "in_buf s ! (unat (in_e s - 1) mod INPUT_BUF) \<noteq> 10"
      using editing_erase(2) [OF False] Suc.prems(1) last_in_set unfolding input_ok_def by metis
    then have "kill_line (Suc k) s = bindk (consputc BACKSPACE (s\<lparr>in_e := in_e s - 1\<rparr>)) (\<lambda>_ s. kill_line k s)"
      using False by (simp add:)
    moreover have "ok (kill_line k s') (\<lambda>_ s''. input_ok s'' \<and> ready s'' = ready s \<and> editing s'' = [] \<and> procs s'' = procs s)"
      if "input_ok s' \<and> ready s' = ready s \<and> editing s' = butlast (editing s) \<and> procs s' = procs s" for s' :: "'a cons_state_scheme"
      using Suc.IH [of s'] that Suc.prems(2) length_butlast [of "editing s"] by (simp del: length_editing)
    ultimately show ?thesis
      unfolding ok_bindk by (simp only: ok_bindk) (rule ok_mono [OF erase_ok [OF Suc.prems(1) False]])
  qed
qed

subsection \<open>Appending a character\<close>

lemma input_append:
  fixes c :: uchar
  assumes "length (in_buf s) = INPUT_BUF" and "unat (in_w s - in_r s) + unat (in_e s - in_w s) < INPUT_BUF"
  defines "s1 \<equiv> s\<lparr>in_buf := (in_buf s)[unat (in_e s) mod INPUT_BUF := c], in_e := in_e s + 1\<rparr>"
  shows "ready s1 = ready s" "editing s1 = editing s @ [c]"
  using input_ring.put_behind [OF assms(1,2), of c] by (simp_all add: ready_def editing_def s1_def)

lemma input_span:
  assumes "unat (in_w s - in_r s) + unat (in_e s - in_w s) \<le> INPUT_BUF"
  shows "unat (in_e s - in_r s) = unat (in_w s - in_r s) + unat (in_e s - in_w s)"
  using assms by (intro unat_span) (simp add: INPUT_BUF_def)

lemma ready_commit:
  assumes "unat (in_w s - in_r s) + unat (in_e s - in_w s) \<le> INPUT_BUF"
  shows "ready (s\<lparr>in_w := in_e s\<rparr>) = ready s @ editing s" "editing (s\<lparr>in_w := in_e s\<rparr>) = []"
  using assms ring_append [of "in_w s" "in_r s" "in_e s" INPUT_BUF "in_buf s"]
  by (simp_all add: ready_def editing_def ring_Nil_iff INPUT_BUF_def)

subsection \<open>Refinement\<close>

text \<open>What one typed character does to the two queues, and the wakeup when a line is complete.\<close>

definition char_done :: "cint \<Rightarrow> 'a cons_state_scheme \<Rightarrow> 'a cons_state_scheme \<Rightarrow> bool" where
  "char_done c s s' \<longleftrightarrow> input_ok s' \<and> (ready s', editing s') = line_char c (ready s, editing s) \<and>
     procs s' = (if ready s' = ready s then procs s else map (wake (Some ChInput)) (procs s))"

lemma wakeup_queues [simp]:
  "ready (wakeup c s) = ready s" "editing (wakeup c s) = editing s" "screen_ok (wakeup c s) = screen_ok s"
  "in_buf (wakeup c s) = in_buf s" "panicked (wakeup c s) = panicked s"
  by (simp_all add: ready_def editing_def screen_ok_def wakeup_def wakeup1_def)

lemma console_append_ok:
  assumes s: "input_ok s" and room: "in_e s - in_r s < of_nat INPUT_BUF" and c: "unat c < 256" "c \<noteq> 13"
  defines "s1 \<equiv> s\<lparr>in_buf := (in_buf s)[unat (in_e s) mod INPUT_BUF := ucast c], in_e := in_e s + 1\<rparr>"
  shows "ok (bindk (consputc c s1) (\<lambda>_ s.
           if c = 10 \<or> c = 4 \<or> in_e s = in_r s + of_nat INPUT_BUF
           then Ok () (wakeup ChInput (s\<lparr>in_w := in_e s\<rparr>)) else Ok () s))
         (\<lambda>_ s'. input_ok s' \<and> (ready s', editing s') =
           (let ed = editing s @ [ucast c]
            in if c = 10 \<or> c = 4 \<or> length (ready s) + length ed = INPUT_BUF then (ready s @ ed, []) else (ready s, ed)) \<and>
           procs s' = (if ready s' = ready s then procs s else map (wake (Some ChInput)) (procs s)))"
proof -
  let ?m = "unat (in_w s - in_r s)" and ?n = "unat (in_e s - in_w s)"
  have le: "?m + ?n \<le> INPUT_BUF" and len: "length (in_buf s) = INPUT_BUF"
    using s by (simp_all add: input_ok_def)
  have lt: "?m + ?n < INPUT_BUF"
    using room input_span [OF le] by (simp add: word_less_nat_alt INPUT_BUF_def)
  have q: "ready s1 = ready s" "editing s1 = editing s @ [ucast c]"
    using input_append [OF len lt, of "ucast c"] by (simp_all add: s1_def)
  have sc: "screen_ok s1" "\<not> panicked s1"
    using s by (simp_all add: s1_def input_ok_def screen_ok_def)
  have full: "in_e s1 = in_r s1 + of_nat INPUT_BUF \<longleftrightarrow> length (ready s) + length (editing s @ [ucast c :: uchar]) = INPUT_BUF"
  proof -
    have "in_e s1 = in_r s1 + of_nat INPUT_BUF \<longleftrightarrow> in_e s - in_r s = 127"
      by (simp add: s1_def INPUT_BUF_def diff_eq_eq eq_diff_eq flip: add.assoc)
    also have "\<dots> \<longleftrightarrow> ?m + ?n = 127"
      using input_span [OF le] by (simp add: word_unat_eq_iff)
    finally show ?thesis by (simp add: INPUT_BUF_def)
  qed
  have c10: "ucast c = (10 :: uchar) \<longleftrightarrow> c = 10"
    using c(1) by (simp add: word_unat_eq_iff unsigned_ucast_eq take_bit_eq_mod)
  show ?thesis
    unfolding ok_bindk
  proof (rule ok_mono [OF consputc_ok [OF sc, of c]])
    fix a s2 assume "screen_ok s2 \<and> printed s1 s2 \<and> (\<forall>k\<ge>24 * 80. crt s2 k = crt s1 k)"
    then have s2: "screen_ok s2" "printed s1 s2" by simp_all
    note f = printed_fields [OF s2(2)] input_cong [OF s2(2)]
    show "ok (if c = 10 \<or> c = 4 \<or> in_e s2 = in_r s2 + of_nat INPUT_BUF
           then Ok () (wakeup ChInput (s2\<lparr>in_w := in_e s2\<rparr>)) else Ok () s2)
         (\<lambda>_ s'. input_ok s' \<and> (ready s', editing s') =
           (let ed = editing s @ [ucast c]
            in if c = 10 \<or> c = 4 \<or> length (ready s) + length ed = INPUT_BUF then (ready s @ ed, []) else (ready s, ed)) \<and>
           procs s' = (if ready s' = ready s then procs s else map (wake (Some ChInput)) (procs s)))"
    proof (cases "c = 10 \<or> c = 4 \<or> in_e s1 = in_r s1 + of_nat INPUT_BUF")
      case True
      let ?s = "wakeup ChInput (s2\<lparr>in_w := in_e s2\<rparr>)"
      have "unat (in_w s2 - in_r s2) + unat (in_e s2 - in_w s2) \<le> INPUT_BUF"
        using lt f q length_ready [of s2] length_editing [of s2] by simp
      note commit = ready_commit [OF this]
      have r: "ready ?s = ready s @ editing s @ [ucast c]" and e: "editing ?s = []"
        using commit f q by (simp_all add: wakeup_queues)
      have p: "procs ?s = map (wake (Some ChInput)) (procs s)"
        using f(6) by (simp add: wakeup_def wakeup1_def s1_def)
      have "length (ready ?s) + length (editing ?s) \<le> INPUT_BUF"
        unfolding r e using lt by simp
      moreover have "length (in_buf ?s) = INPUT_BUF" "screen_ok ?s" "\<not> panicked ?s"
        using f(1,5) s2(1) sc(2) len by (simp_all add: s1_def screen_ok_def wakeup_def wakeup1_def)
      ultimately have "input_ok ?s"
        unfolding input_ok_def e by simp
      then show ?thesis
        using True full f r e p by (simp add: Let_def)
    next
      case False
      have "input_ok s2"
        using f q s2(1) sc(2) s len lt c10 False by (simp add: input_ok_def s1_def)
      moreover have "procs s2 = procs s"
        using f(6) by (simp add: s1_def)
      ultimately show ?thesis
        using False full f q by (simp add: Let_def)
    qed
  qed
qed

lemma console_char_ok:
  assumes "input_ok s" and "unat c < 256"
  shows "ok (console_char c s) (\<lambda>_ s'. char_done c s s')"
proof -
  have le: "unat (in_w s - in_r s) + unat (in_e s - in_w s) \<le> INPUT_BUF"
    using assms(1) by (simp add: input_ok_def)
  consider (P) "c = 0x10" | (U) "c = 0x15" | (B) "c = 8 \<or> c = 0x7f" "in_e s \<noteq> in_w s" | (B0) "c = 8 \<or> c = 0x7f" "in_e s = in_w s"
    | (A) "c \<noteq> 0x10" "c \<noteq> 0x15" "c \<noteq> 8" "c \<noteq> 0x7f" "c \<noteq> 0" "in_e s - in_r s < of_nat INPUT_BUF"
    | (N) "c \<noteq> 0x10" "c \<noteq> 0x15" "c \<noteq> 8" "c \<noteq> 0x7f" "c = 0 \<or> \<not> in_e s - in_r s < of_nat INPUT_BUF"
    by blast
  then show ?thesis
  proof cases
    case P
    then show ?thesis using assms(1) by (simp add: console_char_def char_done_def line_char_def ok_def)
  next
    case U
    then show ?thesis
      using kill_line_ok [OF assms(1) order_refl] by (simp add: console_char_def) (erule ok_mono, simp add: char_done_def line_char_def)
  next
    case B
    then have "console_char c s = consputc BACKSPACE (s\<lparr>in_e := in_e s - 1\<rparr>)"
      "line_char c (ready s, editing s) = (ready s, butlast (editing s))"
      by (auto simp: console_char_def line_char_def)
    then show ?thesis
      using ok_mono [OF erase_ok [OF assms(1) B(2)]] by (simp add: char_done_def)
  next
    case B0
    then have "editing s = []" by (simp add: editing_def)
    then show ?thesis
      using B0 assms(1) by (auto simp: console_char_def char_done_def line_char_def ok_def)
  next
    case A
    define d where "d = (if c = 13 then 10 else c)"
    have d: "unat d < 256" "d \<noteq> 13" using assms(2) by (auto simp: d_def)
    have "length (ready s) + length (editing s) < INPUT_BUF"
      using A(6) input_span [OF le] by (simp add: word_less_nat_alt INPUT_BUF_def)
    then have lc: "line_char c (ready s, editing s) =
        (let ed = editing s @ [ucast d]
         in if d = 10 \<or> d = 4 \<or> length (ready s) + length ed = INPUT_BUF then (ready s @ ed, []) else (ready s, ed))"
      using A by (simp add: line_char_def Let_def d_def)
    have "console_char c s = bindk (consputc d (s\<lparr>in_buf := (in_buf s)[unat (in_e s) mod INPUT_BUF := ucast d],
          in_e := in_e s + 1\<rparr>)) (\<lambda>_ s.
           if d = 10 \<or> d = 4 \<or> in_e s = in_r s + of_nat INPUT_BUF
           then Ok () (wakeup ChInput (s\<lparr>in_w := in_e s\<rparr>)) else Ok () s)"
      using A by (simp add: console_char_def Let_def d_def)
    then show ?thesis
      using console_append_ok [OF assms(1) A(6) d] by (simp only: char_done_def lc)
  next
    case N
    then have "\<not> (c \<noteq> 0 \<and> length (ready s) + length (editing s) < INPUT_BUF)"
      using input_span [OF le] by (simp add: word_less_nat_alt INPUT_BUF_def)
    then have "line_char c (ready s, editing s) = (ready s, editing s)" "console_char c s = Ok () s"
      using N by (auto simp: line_char_def console_char_def)
    then show ?thesis
      using assms(1) by (simp add: char_done_def ok_def)
  qed
qed

text \<open>
  C25: The console's circular buffer with its three wrapping indices implements the line discipline
  \<open>line_char\<close> on two queues: a character that comes in goes to the line being edited, backspace
  removes the last one, control-U empties the line, and a newline, control-D or a full buffer moves the
  line to the characters a reader gets. \<open>consoleintr\<close> refines this for every sequence of input bytes, and
  never panics or overwrites a character that was not read.
\<close>

theorem consoleintr_refines_line_discipline:
  assumes "input_ok s" and "\<forall>c\<in>set cs. unat c < 256"
  shows "\<exists>s'. consoleintr cs s = Ok () s' \<and> input_ok s' \<and>
    (ready s', editing s') = foldl (\<lambda>q c. line_char c q) (ready s, editing s) cs"
  using assms
proof (induction cs arbitrary: s)
  case (Cons c cs)
  then obtain s1 where s1: "console_char c s = Ok () s1" "char_done c s s1"
    using console_char_ok [of s c] by (auto simp: ok_def split: outcome.splits)
  then obtain s' where "consoleintr cs s1 = Ok () s'" "input_ok s'"
      "(ready s', editing s') = foldl (\<lambda>q c. line_char c q) (ready s1, editing s1) cs"
    using Cons.IH [of s1] Cons.prems(2) by (auto simp: char_done_def)
  with s1 show ?case
    by (simp add: char_done_def)
qed simp

lemma cons_zero_input [simp]:
  "input_ok (cons_zero d)" "ready (cons_zero d) = []" "editing (cons_zero d) = []"
  by (simp_all add: input_ok_def ready_def editing_def screen_ok_def)

text \<open>Typing "ho", a backspace, "i" and return leaves the line "hi" ready.\<close>

theorem consoleintr_refines_line_discipline_witness:
  "\<exists>s'. consoleintr [104, 111, 8, 105, 13] (cons_zero (\<lambda>_ _. [])) = Ok () s' \<and> ready s' = [104, 105, 10] \<and> editing s' = []"
  using consoleintr_refines_line_discipline [of "cons_zero (\<lambda>_ _. [])" "[104, 111, 8, 105, 13]"]
  by (auto simp: line_char_def INPUT_BUF_def)

section \<open>Reading a line\<close>

text \<open>
  What a reader that wants \<open>n\<close> more characters gets from the queue of ready characters, and what stays
  there: up to a newline, or up to a control-D, which is left for the next read unless it comes first.
  \<open>None\<close> is a reader that has to wait.
\<close>

fun read_ready :: "nat \<Rightarrow> uchar list \<Rightarrow> uchar list \<Rightarrow> (uchar list \<times> uchar list) option" where
  "read_ready 0 acc xs = Some (acc, xs)"
| "read_ready (Suc n) acc [] = None"
| "read_ready (Suc n) acc (c # xs) =
     (if c = 4 then Some (acc, if acc = [] then xs else c # xs)
      else if c = 10 then Some (acc @ [c], xs)
      else read_ready n (acc @ [c]) xs)"

lemma ready_Nil: "ready s = [] \<longleftrightarrow> in_r s = in_w s"
  by (simp add: ready_def ring_Nil_iff)

lemma ready_next:
  assumes "in_r s \<noteq> in_w s"
  shows "ready s = in_buf s ! (unat (in_r s) mod INPUT_BUF) # ready (s\<lparr>in_r := in_r s + 1\<rparr>)"
  using ring_next [OF assms, where N = INPUT_BUF and buf = "in_buf s"] by (simp add: ready_def)

lemma consoleread_loop_ready:
  "read_ready n acc (ready s) = Some (bs, rest) \<Longrightarrow> target = length acc + n \<Longrightarrow>
     \<exists>r. consoleread_loop ip target acc n s =
           bindk (ilock (Some ip) (s\<lparr>in_r := r\<rparr>)) (\<lambda>_ s. Ok (of_nat (length bs), bs) s) \<and>
         ready (s\<lparr>in_r := r\<rparr>) = rest"
proof (induction n arbitrary: acc s)
  case 0
  then show ?case by (intro exI [of _ "in_r s"]) simp
next
  case (Suc n)
  then have ne: "in_r s \<noteq> in_w s"
    using ready_Nil [of s] by (metis option.distinct(1) read_ready.simps(2))
  let ?c = "in_buf s ! (unat (in_r s) mod INPUT_BUF)" and ?s = "s\<lparr>in_r := in_r s + 1\<rparr>"
  note nxt = ready_next [OF ne]
  consider "?c = 4" | "?c = 10" | "?c \<noteq> 4" "?c \<noteq> 10" by blast
  then show ?case
  proof cases
    case 1
    then show ?thesis
      using Suc.prems ne nxt by (intro exI [of _ "if acc = [] then in_r s + 1 else in_r s"])
        (auto simp: Let_def)
  next
    case 2
    then show ?thesis
      using Suc.prems ne nxt by (intro exI [of _ "in_r s + 1"]) (auto simp: Let_def)
  next
    case 3
    then have "read_ready n (acc @ [?c]) (ready ?s) = Some (bs, rest)" "target = length (acc @ [?c]) + n"
      using Suc.prems nxt by simp_all
    from Suc.IH [OF this] show ?thesis
      using ne 3 by (auto simp: Let_def)
  qed
qed

lemma iunlock_ready: "iunlock (Some ip) s = Ok () s1 \<Longrightarrow> ready s1 = ready s"
  by (auto simp: iunlock_def upd_inode_def ready_def wakeup_def wakeup1_def split: if_splits)

text \<open>
  Taking the inode's lock again reads the super block of its partition, which succeeds when the buffer cache is in order and has
  a buffer for it. The inode of an open console has been read from disk before.
\<close>

definition relockable :: "nat \<Rightarrow> 'a fs_state_scheme \<Rightarrow> bool" where
  "relockable ip s \<longleftrightarrow> ip < length (icache s) \<and> 1 \<le> sint (i_ref (ino s ip)) \<and> i_valid (ino s ip) \<and>
     (\<exists>p<length (partitions s). i_prt (ino s ip) = Some p \<and> baccept s (pdev p s, poff p s)) \<and>
     bio_inv s \<and> busy s = {} \<and> card (dirty s) < NBUF"

lemma readsb_frame:
  assumes "bio_inv s" "busy s = {}" "card (dirty s) < NBUF" "p < length (partitions s)" "baccept s (pdev p s, poff p s)"
  shows "ok (readsb (Some p) s) (\<lambda>_ s'. bio_state.more s' = bio_state.more s)"
proof -
  let ?k = "(pdev p s, poff p s)"
  have part: "part_at (Some p) s = Some (partitions s ! p)" using assms(4) by (simp add: part_at_def)
  have u: "unlocked s ?k" "bavail s ?k" using assms(1-3) by (auto simp: unlocked_def intro: bavailI)
  have cl: "?k \<in> dirty s \<or> bview s ?k = dsk s ?k"
    using bview_clean [OF assms(1), of ?k] assms(2) by (auto simp: dirty_iff busy_def)
  show ?thesis
    unfolding readsb_def part Let_def option.case ok_bindk pdev_def [symmetric] poff_def [symmetric]
  proof (rule ok_mono [OF bread_ok [OF assms(1,5) u]])
    fix i t assume t: "bread_post ?k s i t"
    then have "?k \<in> dirty t \<or> bdata t i = dsk t ?k" using cl dsk_cong [of t s] by (auto simp: bread_post_def)
    with t have "ok (brelse i t) (\<lambda>_ v. bio_frame t v)"
      by (intro ok_mono [OF brelse_ok]) (auto simp: bread_post_def)
    then show "ok (brelse i t) (\<lambda>_ v. ok (Ok (rebase_sb (poff p s) (dec_superblock (bdata t i))) v)
        (\<lambda>_ s'. bio_state.more s' = bio_state.more s))"
      by (rule ok_mono) (use t in \<open>simp add: bread_post_def bio_frame_def\<close>)
  qed
qed

lemma bio_upd_inode [simp]:
  "bio_inv (upd_inode i f s) = bio_inv s" "busy (upd_inode i f s) = busy s" "dirty (upd_inode i f s) = dirty s"
  "baccept (upd_inode i f s) = baccept s" "pdev p (upd_inode i f s) = pdev p s" "poff p (upd_inode i f s) = poff p s"
  by (simp_all add: upd_inode_def bio_inv_def buf_ok_def baccept_def dsk_def ide_ready_def busy_def dirty_def pdev_def poff_def fun_eq_iff)

lemma ilock_again:
  assumes "relockable ip s" "\<not> i_busy (ino s ip)"
  shows "ok (ilock (Some ip) s) (\<lambda>_ s'. bio_state.more s' = bio_state.more (upd_inode ip (\<lambda>ip. ip\<lparr>i_busy := True\<rparr>) s))"
proof -
  let ?s = "upd_inode ip (\<lambda>ip. ip\<lparr>i_busy := True\<rparr>) s"
  obtain p where p: "p < length (partitions s)" "i_prt (ino s ip) = Some p" "baccept s (pdev p s, poff p s)"
    using assms(1) unfolding relockable_def by blast
  have ino: "i_prt (ino ?s ip) = Some p" "i_valid (ino ?s ip)" "partitions ?s = partitions s"
    using assms(1) p(2) by (simp_all add: relockable_def upd_inode_def)
  have rd: "ok (readsb (Some p) ?s) (\<lambda>_ s'. bio_state.more s' = bio_state.more ?s)"
    using assms(1) p ino(3) by (intro readsb_frame) (simp_all add: relockable_def)
  then obtain sb t where t: "readsb (Some p) ?s = Ok sb t" "bio_state.more t = bio_state.more ?s" by (auto simp: ok_iff)
  then have "icache t = icache ?s" by (cases t, cases ?s) simp
  then have "i_valid (ino t ip)" using ino(2) by simp
  with assms t ino p(2) show ?thesis
    by (simp add: ilock_def relockable_def Let_def)
qed

lemma more_fields:
  assumes "bio_state.more s = bio_state.more (t :: 'a cons_state_scheme)"
  shows "in_buf s = in_buf t" "in_r s = in_r t" "in_w s = in_w t" "in_e s = in_e t" "icache s = icache t"
  using assms by (cases s, cases t, simp)+

lemma input_frame:
  fixes s :: "'a cons_state_scheme"
  shows "bio_inv (s\<lparr>in_r := r\<rparr>) = bio_inv s" "busy (s\<lparr>in_r := r\<rparr>) = busy s" "dirty (s\<lparr>in_r := r\<rparr>) = dirty s"
    "bio_inv (s\<lparr>in_w := r\<rparr>) = bio_inv s" "busy (s\<lparr>in_w := r\<rparr>) = busy s" "dirty (s\<lparr>in_w := r\<rparr>) = dirty s"
    "bio_inv (s\<lparr>in_e := r\<rparr>) = bio_inv s" "busy (s\<lparr>in_e := r\<rparr>) = busy s" "dirty (s\<lparr>in_e := r\<rparr>) = dirty s"
    "bio_inv (s\<lparr>in_buf := b\<rparr>) = bio_inv s" "busy (s\<lparr>in_buf := b\<rparr>) = busy s" "dirty (s\<lparr>in_buf := b\<rparr>) = dirty s"
    "bio_inv (s\<lparr>icache := c\<rparr>) = bio_inv s" "busy (s\<lparr>icache := c\<rparr>) = busy s" "dirty (s\<lparr>icache := c\<rparr>) = dirty s"
  by (simp_all add: bio_inv_def buf_ok_def baccept_def dsk_def ide_ready_def busy_def dirty_def)

lemma iunlock_relockable:
  assumes "iunlock (Some ip) s = Ok () s1" "relockable ip s"
  shows "relockable ip (s1\<lparr>in_r := r\<rparr>)" "\<not> i_busy (ino (s1\<lparr>in_r := r\<rparr>) ip)" "length (icache s1) = length (icache s)"
proof -
  let ?u = "upd_inode ip (\<lambda>ip. ip\<lparr>i_busy := False\<rparr>) s"
  have s1: "s1 = wakeup (ChInode ip) ?u" using assms(1) by (auto simp: iunlock_def split: if_splits)
  have ic: "icache s1 = (icache s)[ip := (icache s ! ip)\<lparr>i_busy := False\<rparr>]" "partitions s1 = partitions s" "havedisk1 s1 = havedisk1 s"
    by (simp_all add: s1 wakeup_def wakeup1_def upd_inode_def)
  have b: "bio_inv s1 = bio_inv s" "busy s1 = busy s" "dirty s1 = dirty s"
    by (simp_all add: s1) (simp_all add: busy_def dirty_def wakeup_def wakeup1_def upd_inode_def)
  have len: "ip < length (icache s)" using assms(2) by (simp add: relockable_def)
  then show "\<not> i_busy (ino (s1\<lparr>in_r := r\<rparr>) ip)" "length (icache s1) = length (icache s)" by (simp_all add: ic)
  show "relockable ip (s1\<lparr>in_r := r\<rparr>)"
    using assms(2) len b ic by (auto simp: relockable_def input_frame baccept_def pdev_def poff_def)
qed

lemma extend_fs:
  "bio_inv (fs_state.extend r m) = bio_inv r" "busy (fs_state.extend r m) = busy r" "dirty (fs_state.extend r m) = dirty r"
  by (simp_all add: bio_inv_def buf_ok_def baccept_def dsk_def ide_ready_def busy_def dirty_def fs_state.defs)

lemma cons_zero_bio:
  assumes "\<And>a n. length (d a n) = BSIZE"
  shows "bio_inv (cons_zero d)" "busy (cons_zero d) = {}" "dirty (cons_zero d) = {}" "partitions (cons_zero d) = replicate NPARTITIONS partition1"
  using log_zero_txn [of d, OF assms]
  by (simp_all add: cons_zero_def extend_fs fs_zero_def extend_log txn_ok_def) (simp add: fs_state.defs log_state.defs)

text \<open>
  C26: A read from the console gets the characters that are ready, in order and up to the end of a
  line: when the ready characters suffice (\<open>read_ready\<close> yields them and those that remain), \<open>consoleread\<close>
  on a locked inode does not wait: it releases the inode, takes exactly these bytes from the input buffer and leaves the rest for the next reader,
  then takes the inode's lock again and gives the bytes and their number. When the lock can be taken again (the inode has been read from disk,
  its partition is known, and the buffer cache can read the super block) the call returns, with the inode locked.
\<close>

theorem consoleread_takes_line:
  assumes "read_ready (nat (sint n)) [] (ready s) = Some (bs, rest)" and "iunlock (Some ip) s = Ok () s1"
  shows "(\<exists>r. consoleread ip n s = bindk (ilock (Some ip) (s1\<lparr>in_r := r\<rparr>)) (\<lambda>_ s. Ok (of_nat (length bs), bs) s) \<and>
      ready (s1\<lparr>in_r := r\<rparr>) = rest) \<and>
    (relockable ip s \<longrightarrow> ok (consoleread ip n s) (\<lambda>r s'. r = (of_nat (length bs), bs) \<and> ready s' = rest \<and> i_busy (ino s' ip)))"
proof -
  obtain r where r: "consoleread ip n s = bindk (ilock (Some ip) (s1\<lparr>in_r := r\<rparr>)) (\<lambda>_ s. Ok (of_nat (length bs), bs) s)"
      "ready (s1\<lparr>in_r := r\<rparr>) = rest"
    using consoleread_loop_ready [of "nat (sint n)" "[]" s1 bs rest "nat (sint n)" ip] assms iunlock_ready [OF assms(2)]
    by (auto simp: consoleread_def)
  moreover have "ok (consoleread ip n s) (\<lambda>r s'. r = (of_nat (length bs), bs) \<and> ready s' = rest \<and> i_busy (ino s' ip))"
    if rel: "relockable ip s"
  proof -
    let ?s = "s1\<lparr>in_r := r\<rparr>"
    have len: "ip < length (icache s)" using rel by (simp add: relockable_def)
    have "relockable ip ?s" "\<not> i_busy (ino ?s ip)" "ip < length (icache ?s)"
      using iunlock_relockable [OF assms(2) rel] len by simp_all
    from ilock_again [OF this(1,2)] obtain t where t: "ilock (Some ip) ?s = Ok () t"
      "bio_state.more t = bio_state.more (upd_inode ip (\<lambda>ip. ip\<lparr>i_busy := True\<rparr>) ?s)" by (auto simp: ok_iff)
    then have "ready t = ready ?s" "icache t = icache (upd_inode ip (\<lambda>ip. ip\<lparr>i_busy := True\<rparr>) ?s)"
      using more_fields [OF t(2)] by (simp_all add: upd_inode_def ready_def)
    then show ?thesis using r t(1) \<open>ip < length (icache ?s)\<close> by (simp add: upd_inode_def)
  qed
  ultimately show ?thesis by blast
qed

text \<open>A read of 100 characters with "hi" and a newline ready, through a locked inode of the first partition.\<close>

theorem consoleread_takes_line_witness:
  "let s = (cons_zero (demo_disk (\<lambda>_. [])))\<lparr>icache := [inode0\<lparr>i_ref := 1, i_busy := True, i_valid := True, i_prt := Some 0\<rparr>],
       in_buf := [104, 105, 10] @ replicate 125 0, in_w := 3, in_e := 3\<rparr>
   in ok (consoleread 0 100 s) (\<lambda>r s'. r = (3, [104, 105, 10]) \<and> ready s' = [])"
proof -
  let ?s = "(cons_zero (demo_disk (\<lambda>_. [])))\<lparr>icache := [inode0\<lparr>i_ref := 1, i_busy := True, i_valid := True, i_prt := Some 0\<rparr>],
       in_buf := [104, 105, 10] @ replicate 125 0, in_w := 3, in_e := 3\<rparr>"
  have "ready ?s = [104, 105, 10]"
    by (simp add: ready_def ring_def INPUT_BUF_def upt_rec)
  moreover have "nat (sint (100 :: cint)) = Suc (Suc (Suc 97))" by simp
  ultimately have "read_ready (nat (sint (100 :: cint))) [] (ready ?s) = Some ([104, 105, 10], [])"
    by (simp only: read_ready.simps) simp
  moreover obtain s1 where "iunlock (Some 0) ?s = Ok () s1"
    by (simp add: iunlock_def)
  ultimately have "relockable 0 ?s \<longrightarrow> ok (consoleread 0 100 ?s) (\<lambda>r s'. r = (3, [104, 105, 10]) \<and> ready s' = [])"
    using consoleread_takes_line [of 100 ?s "[104, 105, 10]" "[]" 0 s1] by (auto simp: ok_iff)
  moreover have "relockable 0 ?s"
    using cons_zero_bio [of "demo_disk (\<lambda>_. [])", OF length_demo_disk]
    by (simp add: relockable_def input_frame pdev_def poff_def partition1_def NPARTITIONS_def NBUF_def baccept_def)
  ultimately show ?thesis by (simp add: Let_def)
qed

end
