(* ===== verification/Userlib.thy ===== *)
theory Userlib
  imports Console
begin

text \<open>
  Formatted output of user programs (printf.c) next to the kernel's (console.c), and the reading of
  lines and numbers (ulib.c). \<open>printf\<close> writes one byte at a time to its file; its output is the list of
  these bytes, \<open>None\<close> when an argument is missing or of the wrong kind.
\<close>

section \<open>printf.c\<close>

definition upper_digits :: "uchar list" where
  "upper_digits = [48, 49, 50, 51, 52, 53, 54, 55, 56, 57, 65, 66, 67, 68, 69, 70]"

definition printf_printint :: "cint \<Rightarrow> uint \<Rightarrow> bool \<Rightarrow> uchar list" where
  "printf_printint xx base sg =
     (let neg = sg \<and> sint xx < 0;
          x = (if neg then - xx else xx);
          buf = print_digits upper_digits base x;
          buf = (if neg then buf @ [45] else buf)
      in rev buf)"

text \<open>The flag is the variable \<open>state\<close>: a percent sign was read.\<close>

fun printf_loop :: "bool \<Rightarrow> uchar list \<Rightarrow> fmt_arg list \<Rightarrow> uchar list option" where
  "printf_loop st [] args = Some []"
| "printf_loop False (c # fmt) args =
     (if c = 37 then printf_loop True fmt args else map_option ((#) c) (printf_loop False fmt args))"
| "printf_loop True (c # fmt) args =
     (if c = 100
      then (case args of
              ArgInt x # args \<Rightarrow> map_option ((@) (printf_printint x 10 True)) (printf_loop False fmt args)
            | _ \<Rightarrow> None)
      else if c = 120 \<or> c = 112
      then (case args of
              ArgInt x # args \<Rightarrow> map_option ((@) (printf_printint x 16 False)) (printf_loop False fmt args)
            | _ \<Rightarrow> None)
      else if c = 115
      then (case args of
              ArgStr p # args \<Rightarrow>
                map_option ((@) (case p of None \<Rightarrow> null_string | Some str \<Rightarrow> str)) (printf_loop False fmt args)
            | _ \<Rightarrow> None)
      else if c = 99
      then (case args of
              ArgInt x # args \<Rightarrow> map_option ((#) (ucast x)) (printf_loop False fmt args)
            | _ \<Rightarrow> None)
      else if c = 37 then map_option ((#) c) (printf_loop False fmt args)
      else map_option ((@) [37, c]) (printf_loop False fmt args))"

definition printf :: "uchar list \<Rightarrow> fmt_arg list \<Rightarrow> uchar list option" where
  "printf fmt args = printf_loop False fmt args"

section \<open>gets (ulib.c)\<close>

text \<open>\<open>gets\<close> with \<open>k = max - 1 - i\<close> places left; \<open>input\<close> are the bytes that one-byte reads deliver before end of file.\<close>

fun gets_loop :: "nat \<Rightarrow> uchar list \<Rightarrow> uchar list \<times> uchar list" where
  "gets_loop 0 input = ([], input)"
| "gets_loop (Suc k) [] = ([], [])"
| "gets_loop (Suc k) (c # input) =
     (if c = 10 \<or> c = 13 then ([c], input) else let (cs, rest) = gets_loop k input in (c # cs, rest))"

definition gets :: "cint \<Rightarrow> uchar list \<Rightarrow> uchar list \<times> uchar list" where
  "gets mx input = gets_loop (nat (sint mx - 1)) input"

section \<open>Printing and reading numbers\<close>

lemma printf_printint_str: "printf_printint x base sg = printint_str upper_digits x base sg"
  by (simp add: printf_printint_def printint_str_def)

text \<open>Tables of digits whose first ten are the decimal ones.\<close>

definition decimal :: "uchar list \<Rightarrow> bool" where
  "decimal ds \<longleftrightarrow> (\<forall>k<10. ds ! k = 48 + of_nat k)"

lemma decimal_tables [simp]: "decimal lower_digits" "decimal upper_digits"
  by (auto simp: decimal_def lower_digits_def upper_digits_def numeral_eq_Suc less_Suc_eq)

lemma atoi_digit:
  assumes "decimal ds"
  shows "atoi_loop (digit_char ds 10 x # cs) n = atoi_loop cs (n * 10 + x mod 10)"
proof -
  have lt: "unat (x mod 10) < 10"
    by (simp add: unat_mod)
  define k where "k = unat (x mod 10)"
  have d: "digit_char ds 10 x = 48 + of_nat k"
    using assms lt by (simp add: decimal_def digit_char_def k_def)
  have u: "unat (48 + of_nat k :: uchar) = 48 + k"
    using lt by (simp add: unat_word_ariths unat_of_nat k_def)
  have "ucast (48 + of_nat k :: uchar) = (48 + of_nat k :: cint)"
    using lt u by (simp add: word_unat_eq_iff unsigned_ucast_eq unat_word_ariths unat_of_nat take_bit_eq_mod k_def)
  moreover have "of_nat k = x mod 10"
    by (simp add: k_def)
  moreover have "48 \<le> (48 + of_nat k :: uchar)" "(48 + of_nat k :: uchar) \<le> 57"
    unfolding word_le_nat_alt u using lt by (simp_all add: k_def)
  ultimately show ?thesis
    by (simp add: d)
qed

lemma atoi_print_digits:
  assumes "decimal ds"
  shows "atoi_loop (rev (print_digits ds 10 x) @ cs) 0 = atoi_loop cs x"
proof (induction "unat x" arbitrary: x cs rule: less_induct)
  case less
  show ?case
  proof (cases "x div 10 = 0")
    case True
    then have "x mod 10 = x"
      using div_mult_mod_eq [of x 10] by simp
    then show ?thesis
      using True assms by (simp add: print_digits.simps [of ds 10 x] atoi_digit del: atoi_loop.simps)
  next
    case False
    then have "0 < unat x"
      by (auto simp: unat_gt_0)
    then have "unat (x div 10) < unat x"
      by (simp add: unat_div)
    note IH = less [OF this]
    have "\<not> (10 :: uint) \<le> 1"
      by (simp add: word_le_nat_alt)
    then show ?thesis
      using False assms div_mult_mod_eq [of x 10] by (simp add: print_digits.simps [of ds 10 x] IH atoi_digit del: atoi_loop.simps)
  qed
qed

text \<open>
  C30: Numbers survive printing and reading back: for every non-negative \<open>int\<close>, \<open>atoi\<close> (ulib.c) of the
  decimal digits that \<open>printint\<close> prints, in the kernel (console.c) or in a user program (printf.c), is the
  number itself.
\<close>

theorem atoi_printint:
  assumes "0 \<le> sint n"
  shows "atoi (printint_str lower_digits n 10 True) = n \<and> atoi (printf_printint n 10 True) = n"
  using assms atoi_print_digits [of lower_digits n "[]"] atoi_print_digits [of upper_digits n "[]"]
  by (simp add: atoi_def printint_str_def printf_printint_def)

theorem atoi_printint_witness: "atoi (printint_str lower_digits 2147483647 10 True) = 2147483647"
  using atoi_printint [of 2147483647] by simp

section \<open>The two formatters agree\<close>

text \<open>What the kernel's \<open>cprintf\<close> sends to the console.\<close>

fun cprintf_out :: "uchar list \<Rightarrow> fmt_arg list \<Rightarrow> cint list option" where
  "cprintf_out [] args = Some []"
| "cprintf_out [c] args = Some (if c \<noteq> 37 then [ucast c] else [])"
| "cprintf_out (c # d # fmt) args =
     (if c \<noteq> 37 then map_option ((#) (ucast c)) (cprintf_out (d # fmt) args)
      else if d = 100
      then (case args of
              ArgInt x # args \<Rightarrow> map_option ((@) (map ucast (printint_str lower_digits x 10 True))) (cprintf_out fmt args)
            | _ \<Rightarrow> None)
      else if d = 120 \<or> d = 112
      then (case args of
              ArgInt x # args \<Rightarrow> map_option ((@) (map ucast (printint_str lower_digits x 16 False))) (cprintf_out fmt args)
            | _ \<Rightarrow> None)
      else if d = 115
      then (case args of
              ArgStr p # args \<Rightarrow>
                map_option ((@) (map scast (case p of None \<Rightarrow> null_string | Some str \<Rightarrow> str))) (cprintf_out fmt args)
            | _ \<Rightarrow> None)
      else if d = 37 then map_option ((#) 37) (cprintf_out fmt args)
      else map_option ((@) [37, ucast d]) (cprintf_out fmt args))"

lemma bindk_return: "bindk m Ok = m"
  by (cases m) auto

lemma consputs_append: "consputs (xs @ ys) = (\<lambda>s. bindk (consputs xs s) (\<lambda>_. consputs ys))"
proof (induction xs)
  case (Cons x xs)
  then show ?case by (intro ext) (simp add: bindk_assoc)
qed (simp add: fun_eq_iff)

lemma consputs_Nil: "consputs [] = Ok ()"
  by (intro ext) simp

lemma consputs_Cons: "consputs (c # cs) = (\<lambda>s. bindk (consputc c s) (\<lambda>_. consputs cs))"
  by (intro ext) simp

lemma cprintf_loop_out: "cprintf_out fmt args = Some cs \<Longrightarrow> cprintf_loop fmt args = consputs cs"
proof (induction fmt args arbitrary: cs rule: cprintf_out.induct)
  case (3 c d fmt args)
  then show ?case
    by (intro ext) (auto simp: printint_def consputs_append consputs_Cons bindk_assoc split: if_splits list.splits fmt_arg.splits)
next
  case (2 c args)
  then show ?case
    by (intro ext) (auto simp: bindk_return consputs_Nil split: if_splits)
qed (simp add: fun_eq_iff)

text \<open>Formats without \<open>%x\<close>, \<open>%p\<close> and \<open>%c\<close>, on which the two differ.\<close>

fun plain_format :: "uchar list \<Rightarrow> bool" where
  "plain_format (c # d # fmt) \<longleftrightarrow>
     (if c \<noteq> 37 then plain_format (d # fmt) else d \<notin> {120, 112, 99} \<and> plain_format fmt)"
| "plain_format fmt \<longleftrightarrow> True"

lemma print_digits_decimal:
  assumes "decimal ds" "decimal es"
  shows "print_digits ds 10 x = print_digits es 10 x"
proof (induction "unat x" arbitrary: x rule: less_induct)
  case less
  have "digit_char ds 10 x = digit_char es 10 x"
    using assms by (simp add: decimal_def digit_char_def unat_mod)
  moreover have "print_digits ds 10 (x div 10) = print_digits es 10 (x div 10)" if "x div 10 \<noteq> 0"
  proof (rule less)
    have "0 < unat x" using that by (auto simp: unat_gt_0)
    then show "unat (x div 10) < unat x" by (simp add: unat_div)
  qed
  ultimately show ?case
    by (simp add: print_digits.simps [of _ 10 x])
qed

lemma ucast_char [simp]: "ucast (ucast c :: cint) = (c :: uchar)" "ucast (scast c :: cint) = (c :: uchar)"
  by (simp_all add: bit_eq_iff bit_simps)

lemma printint_decimal: "printint_str upper_digits x 10 sg = printint_str lower_digits x 10 sg"
  using print_digits_decimal [OF decimal_tables(2,1)] by (simp add: printint_str_def)

lemma printf_loop_out:
  "plain_format fmt \<Longrightarrow> printf_loop False fmt args = map_option (map ucast) (cprintf_out fmt args)"
proof (induction fmt args rule: cprintf_out.induct)
  case (3 c d fmt args)
  then show ?case
    by (auto simp: printf_printint_str printint_decimal option.map_comp comp_def
        split: list.splits fmt_arg.splits option.splits)
qed auto

text \<open>
  C31: The user library's \<open>printf\<close> (printf.c, a state machine over the format) and the kernel's \<open>cprintf\<close>
  (console.c) print the same bytes for every format and arguments, formats with \<open>%x\<close>, \<open>%p\<close> and \<open>%c\<close>
  apart: those print upper-case digits in one and lower-case digits in the other, and \<open>%c\<close> is known only to \<open>printf\<close>.
\<close>

theorem printf_agrees_with_cprintf:
  assumes "plain_format fmt" and "cprintf_out fmt args = Some cs"
  shows "cprintf (Some fmt) args s = consputs cs s \<and> printf fmt args = Some (map ucast cs)"
  using assms fun_cong [OF cprintf_loop_out [OF assms(2)], of s] printf_loop_out [OF assms(1), of args]
  by (simp add: cprintf_def printf_def)

theorem printf_agrees_with_cprintf_witness:
  "printf [37, 100, 58, 37, 115, 37, 122] [ArgInt (- 12), ArgStr (Some [97, 98])] = Some [45, 49, 50, 58, 97, 98, 37, 122]"
proof -
  let ?fmt = "[37, 100, 58, 37, 115, 37, 122] :: uchar list" and ?args = "[ArgInt (- 12), ArgStr (Some [97, 98])]"
  have "printint_str lower_digits (- 12) 10 True = [45, 49, 50]"
    by (simp add: printint_str_def print_digits.simps digit_char_def lower_digits_def word_le_nat_alt)
  then have "cprintf_out ?fmt ?args = Some [45, 49, 50, 58, 97, 98, 37, 122]"
    by simp
  then show ?thesis
    using printf_agrees_with_cprintf [of ?fmt ?args "[45, 49, 50, 58, 97, 98, 37, 122]"
      "cons_zero (\<lambda>_ _. [])"] by simp
qed

end
