(* ===== verification/Pages.thy ===== *)
theory Pages
  imports Vm
begin

text \<open>
  Pages of memory: the arithmetic of page addresses, offsets and table indices as facts about the bits of words, the words
  of a page, and the relation \<open>mem_same\<close> between memories that differ only on given pages.
\<close>

lemma mask12: "(0xFFF :: uint) = mask 12"
  by (simp add: mask_numeral)

lemma mask10: "(0x3FF :: uint) = mask 10"
  by (simp add: mask_numeral)

lemma bit_offset: "bit (a AND 0xFFF :: uint) n \<longleftrightarrow> n < 12 \<and> bit a n"
  by (auto simp: mask12 bit_simps dest: bit_imp_le_length)

lemma bit_page: "bit (PGROUNDDOWN a) n \<longleftrightarrow> 12 \<le> n \<and> bit a n"
  unfolding PGROUNDDOWN_def PGSIZE_def
  by (auto simp: mask12 bit_simps dest: bit_imp_le_length)

lemma aligned_page: "a mod 4096 = 0 \<longleftrightarrow> PGROUNDDOWN a = a"
proof -
  have "a mod 4096 = take_bit 12 a" by (simp add: take_bit_eq_mod)
  moreover have "take_bit 12 a = 0 \<longleftrightarrow> PGROUNDDOWN a = a"
    by (auto simp: bit_eq_iff bit_page bit_simps)
  ultimately show ?thesis by simp
qed

lemma page_split: "PGROUNDDOWN a + (a AND 0xFFF) = a"
  using PGROUNDDOWN_offset [of a] by (simp add: algebra_simps)

lemma aligned_PGROUNDDOWN: "PGROUNDDOWN a mod 4096 = 0"
  unfolding aligned_page by (auto simp: bit_eq_iff bit_page)

lemma small_offset: "i < 4096 \<Longrightarrow> i AND 0xFFF = (i :: uint)"
  unfolding mask12 by (simp add: take_bit_eq_mask [symmetric] take_bit_eq_mod mod_word_less)

lemma aligned_bit: "\<lbrakk>v mod 4096 = (0 :: uint); bit v n\<rbrakk> \<Longrightarrow> 12 \<le> n"
  unfolding aligned_page by (metis bit_page)

lemma small_bit: "\<lbrakk>i < (4096 :: uint); bit i n\<rbrakk> \<Longrightarrow> n < 12"
  by (metis bit_offset small_offset)

lemma page_or:
  assumes "v mod 4096 = 0" "i < (4096 :: uint)"
  shows "v OR i = v + i"
  by (subst disjunctive_add) (use aligned_bit [OF assms(1)] small_bit [OF assms(2)] in \<open>meson not_le, simp\<close>)

lemma page_plus:
  assumes "v mod 4096 = 0" "i < (4096 :: uint)"
  shows "PGROUNDDOWN (v + i) = v" "(v + i) AND 0xFFF = i"
proof -
  have s: "bit (v + i) n \<longleftrightarrow> bit v n \<or> bit i n" for n
    unfolding page_or [OF assms, symmetric] by (rule bit_or_iff)
  show "PGROUNDDOWN (v + i) = v" "(v + i) AND 0xFFF = i"
    by (auto simp: bit_eq_iff bit_page bit_offset s)
      (use aligned_bit [OF assms(1)] small_bit [OF assms(2)] in \<open>force+\<close>)
qed

lemma in_page_iff:
  assumes "v mod 4096 = 0"
  shows "a - v < 4096 \<longleftrightarrow> PGROUNDDOWN a = v"
proof
  assume "a - v < 4096"
  with page_plus(1) [OF assms this] show "PGROUNDDOWN a = v" by simp
next
  assume "PGROUNDDOWN a = v"
  then have "a - v = a AND 0xFFF" using PGROUNDDOWN_offset by auto
  moreover have "a AND 0xFFF < 4096"
    unfolding mask12 using and_mask_less_size [of 12 a] by (simp add: word_size)
  ultimately show "a - v < 4096" by simp
qed

lemma bit_PDX: "bit (PDX va) n \<longleftrightarrow> n < 10 \<and> bit va (n + 22)"
  unfolding PDX_def mask10 by (auto simp: bit_simps add.commute dest: bit_imp_le_length)

lemma bit_PTX: "bit (PTX va) n \<longleftrightarrow> n < 10 \<and> bit va (n + 12)"
  unfolding PTX_def mask10 by (auto simp: bit_simps add.commute dest: bit_imp_le_length)

lemma PDX_less: "PDX va < 1024" 
  unfolding PDX_def mask10 using and_mask_less_size [of 10 "drop_bit 22 va"] by (simp add: word_size)

lemma PTX_less: "PTX va < 1024"
  unfolding PTX_def mask10 using and_mask_less_size [of 10 "drop_bit 12 va"] by (simp add: word_size)

lemma same_page_iff: "PGROUNDDOWN a = PGROUNDDOWN b \<longleftrightarrow> PDX a = PDX b \<and> PTX a = PTX b"
proof
  assume "PGROUNDDOWN a = PGROUNDDOWN b"
  then have "bit a n = bit b n" if "12 \<le> n" for n
    using that by (metis bit_page)
  then show "PDX a = PDX b \<and> PTX a = PTX b"
    by (auto simp: bit_eq_iff bit_PDX bit_PTX)
next
  assume *: "PDX a = PDX b \<and> PTX a = PTX b"
  have "bit a n = bit b n" if "12 \<le> n" for n
  proof (cases "n < 22")
    case True
    have "bit (PTX a) (n - 12) = bit (PTX b) (n - 12)" using * by simp
    moreover have "n - 12 < 10" using True that by simp
    ultimately show ?thesis using that by (simp add: bit_PTX)
  next
    case False
    have "bit (PDX a) (n - 22) = bit (PDX b) (n - 22)" using * by simp
    with False show ?thesis
      using bit_imp_le_length [of a n] bit_imp_le_length [of b n] by (fastforce simp: bit_PDX)
  qed
  then show "PGROUNDDOWN a = PGROUNDDOWN b" by (auto simp: bit_eq_iff bit_page)
qed


lemma aligned_add_iff:
  assumes "b mod 4096 = (0 :: uint)"
  shows "(a + b) mod 4096 = a mod 4096"
proof -
  have b: "unat b mod 4096 = 0" using arg_cong [OF assms, of unat] by (simp add: unat_mod)
  have "unat (a + b) mod 4096 = (unat a + unat b) mod 4096"
    by (simp add: unat_word_ariths mod_mod_cancel)
  also have "\<dots> = unat a mod 4096" using b by (metis add.right_neutral mod_add_right_eq)
  finally show ?thesis by (simp add: word_unat_eq_iff unat_mod)
qed

lemma offset_less: "a AND 0xFFF < (4096 :: uint)"
  unfolding mask12 using and_mask_less_size [of 12 a] by (simp add: word_size)

lemma PGROUNDDOWN_add:
  assumes "b mod 4096 = 0"
  shows "PGROUNDDOWN (x + b) = PGROUNDDOWN x + b"
proof -
  have "(PGROUNDDOWN x + b) mod 4096 = 0"
    using aligned_add_iff [OF assms] aligned_PGROUNDDOWN by simp
  then have "PGROUNDDOWN (PGROUNDDOWN x + b + (x AND 0xFFF)) = PGROUNDDOWN x + b"
    by (rule page_plus) (rule offset_less)
  moreover have "PGROUNDDOWN x + b + (x AND 0xFFF) = x + b"
    using page_split [of x] by (simp add: algebra_simps)
  ultimately show ?thesis by simp
qed

section \<open>Words of a page\<close>

lemma slot_offset:
  assumes "i < (1024 :: uint)" "k < 4"
  shows "unat (4 * i + k) = 4 * unat i + unat k" "4 * i + k < 4096"
proof -
  have "unat i < 1024" "unat k < 4" using assms by (simp_all add: word_less_nat_alt)
  then show "unat (4 * i + k) = 4 * unat i + unat k" by (simp add: unat_word_ariths)
  with \<open>unat i < 1024\<close> \<open>unat k < 4\<close> show "4 * i + k < 4096" by (simp add: word_less_nat_alt)
qed

lemma slot_inject:
  assumes "i < (1024 :: uint)" "k < 4" "j < 1024" "l < 4" "4 * i + k = 4 * j + l"
  shows "i = j"
proof -
  have "4 * unat i + unat k = 4 * unat j + unat l"
    using slot_offset(1) [OF assms(1,2)] slot_offset(1) [OF assms(3,4)] assms(5) by simp
  moreover have "unat k < 4" "unat l < 4" using assms by (simp_all add: word_less_nat_alt)
  ultimately have "unat i = unat j" by linarith
  then show ?thesis by (simp add: word_unat_eq_iff)
qed

lemma load32_cong:
  assumes "\<And>k. k < 4 \<Longrightarrow> m' (a + k) = m (a + k)"
  shows "load32 m' a = load32 m a"
  using assms [of 0] assms [of 1] assms [of 2] assms [of 3] by (simp add: load32_def)

lemma store32_other:
  assumes "\<And>k. k < 4 \<Longrightarrow> b \<noteq> a + k"
  shows "store32 m a w b = m b"
  using assms [of 0] assms [of 1] assms [of 2] assms [of 3] by (simp add: store32_def Let_def)

lemma load32_store32_slot:
  assumes "i < 1024" "j < 1024"
  shows "load32 (store32 m (v + 4 * i) w) (v + 4 * j) = (if i = j then w else load32 m (v + 4 * j))"
proof (cases "i = j")
  case False
  have "load32 (store32 m (v + 4 * i) w) (v + 4 * j) = load32 m (v + 4 * j)"
  proof (rule load32_cong, rule store32_other)
    fix k l :: uint assume "k < 4" "l < 4"
    then show "v + 4 * j + k \<noteq> v + 4 * i + l"
      using slot_inject [OF assms(2) _ assms(1), of k l] False by (auto simp: add.assoc)
  qed
  with False show ?thesis by simp
qed simp

subsection \<open>Changes confined to some pages\<close>

definition mem_same :: "uint set \<Rightarrow> memory \<Rightarrow> memory \<Rightarrow> bool" where
  "mem_same P m m' \<longleftrightarrow> (\<forall>a. PGROUNDDOWN a \<notin> P \<longrightarrow> m' a = m a)"

lemma mem_same_refl [simp]: "mem_same P m m"
  by (simp add: mem_same_def)

lemma mem_same_trans:
  "\<lbrakk>mem_same P m m'; mem_same Q m' m''; Q \<subseteq> P\<rbrakk> \<Longrightarrow> mem_same P m m''"
  unfolding mem_same_def by (metis in_mono)

lemma mem_same_mono: "\<lbrakk>mem_same P m m'; P \<subseteq> Q\<rbrakk> \<Longrightarrow> mem_same Q m m'"
  by (auto simp: mem_same_def)

lemma mem_same_slot:
  assumes "mem_same P m m'" "v mod 4096 = 0" "v \<notin> P" "i < 1024"
  shows "load32 m' (v + 4 * i) = load32 m (v + 4 * i)"
proof (rule load32_cong)
  fix k :: uint assume "k < 4"
  then have "PGROUNDDOWN (v + 4 * i + k) = v"
    using page_plus(1) [OF assms(2), of "4 * i + k"] slot_offset(2) [OF assms(4)] by (simp add: add.assoc)
  with assms show "m' (v + 4 * i + k) = m (v + 4 * i + k)" by (simp add: mem_same_def)
qed

lemma mem_same_store:
  assumes "v mod 4096 = 0" "i < 1024"
  shows "mem_same {v} m (store32 m (v + 4 * i) w)"
  unfolding mem_same_def
proof (intro allI impI, rule store32_other)
  fix a k :: uint assume "PGROUNDDOWN a \<notin> {v}" "k < 4"
  then show "a \<noteq> v + 4 * i + k"
    using page_plus(1) [OF assms(1), of "4 * i + k"] slot_offset(2) [OF assms(2)] by (auto simp: add.assoc)
qed

lemma mem_same_fill: "v mod 4096 = 0 \<Longrightarrow> mem_same {v} m (fill m v c 4096)"
  by (auto simp: mem_same_def fill_def in_page_iff)

lemma mem_same_outside: "v mod 4096 = 0 \<Longrightarrow> same_outside v m m' \<longleftrightarrow> mem_same {v} m m'"
  by (auto simp: mem_same_def same_outside_def in_page_iff)

lemma load32_zero_page:
  assumes "v mod 4096 = 0" "i < 1024"
  shows "load32 (fill m v 0 4096) (v + 4 * i) = 0"
proof -
  have "fill m v 0 4096 (v + 4 * i + k) = 0" if "k < 4" for k
    using page_plus(1) [OF assms(1), of "4 * i + k"] slot_offset(2) [OF assms(2) that]
    by (simp add: fill_def in_page_iff [OF assms(1)] add.assoc)
  from this [of 0] this [of 1] this [of 2] this [of 3] show ?thesis
    by (simp add: load32_def dec32_def)
qed

lemma Flist_mem_same:
  assumes "mem_same P m m'" "\<forall>x\<in>set xs. x mod 4096 = 0 \<and> x \<notin> P"
  shows "Flist m' a xs = Flist m a xs"
  using assms(2)
proof (induction xs arbitrary: a)
  case (Cons x xs)
  then have "load32 m' x = load32 m x"
    using mem_same_slot [OF assms(1), of x 0] by simp
  with Cons show ?case by simp
qed simp

definition only_mem :: "'a kmem_state_scheme \<Rightarrow> 'a kmem_state_scheme \<Rightarrow> bool" where
  "only_mem s s' \<longleftrightarrow> s' = s\<lparr>kmem_mem := kmem_mem s', kmem_freelist := kmem_freelist s'\<rparr>"

lemma only_mem_refl [simp]: "only_mem s s"
  by (simp add: only_mem_def)

lemma only_mem_trans: "\<lbrakk>only_mem s s'; only_mem s' s''\<rbrakk> \<Longrightarrow> only_mem s s''"
  by (cases s; cases s'; cases s'') (simp add: only_mem_def)

lemma only_mem_kend: "only_mem s s' \<Longrightarrow> kend s' = kend s"
  by (cases s; cases s') (simp add: only_mem_def)

lemma kmem_inv_mem_same:
  assumes "kmem_inv s xs" "mem_same P (kmem_mem s) m" "set xs \<inter> P = {}"
  shows "kmem_inv (s\<lparr>kmem_mem := m\<rparr>) xs"
  using assms Flist_mem_same [OF assms(2), of xs] by (auto simp: kmem_inv_def page_ok_def)

end
