(* ===== verification/Paging.thy ===== *)
theory Paging
  imports Pages
begin

text \<open>
  Page tables (vm.c) as a data structure in memory.

  \<open>pte\<close> is the entry that the two-level table has for a virtual address, \<open>own\<close> the set of pages the directory and its tables
  occupy, \<open>pt_inv\<close> the invariant that relates them to the allocator's free list and leaves the access rights to the entries of the
  tables: the entries of the directory allow everything (\<open>walkpgdir\<close> makes them with \<open>PTE_P\<close>, \<open>PTE_W\<close> and \<open>PTE_U\<close>, 7 in all). The step relation \<open>vstep\<close> says that an
  operation keeps the invariant, loses no page and changes no page of anybody else. \<open>walkpgdir\<close>, \<open>mappages\<close> and \<open>setupkvm\<close> are
  steps of that kind.
\<close>

section \<open>A page directory and its tables\<close>

definition pde :: "uint \<Rightarrow> uint \<Rightarrow> 'a kmem_state_scheme \<Rightarrow> uint" where
  "pde pgdir i s = mload s (pgdir + 4 * i)"

definition tab :: "uint \<Rightarrow> uint \<Rightarrow> 'a kmem_state_scheme \<Rightarrow> uint" where
  "tab pgdir i s = p2v (PTE_ADDR (pde pgdir i s))"

definition dirs :: "uint \<Rightarrow> 'a kmem_state_scheme \<Rightarrow> uint set" where
  "dirs pgdir s = {i. i < 1024 \<and> pde pgdir i s AND PTE_P \<noteq> 0}"

definition own :: "uint \<Rightarrow> 'a kmem_state_scheme \<Rightarrow> uint set" where
  "own pgdir s = insert pgdir ((\<lambda>i. tab pgdir i s) ` dirs pgdir s)"

definition pte :: "uint \<Rightarrow> uint \<Rightarrow> 'a kmem_state_scheme \<Rightarrow> uint" where
  "pte pgdir va s = (if PDX va \<in> dirs pgdir s then mload s (tab pgdir (PDX va) s + 4 * PTX va) else 0)"

definition pt_inv :: "uint \<Rightarrow> 'a kmem_state_scheme \<Rightarrow> uint list \<Rightarrow> bool" where
  "pt_inv pgdir s xs \<longleftrightarrow> kmem_inv s xs \<and> (\<forall>v\<in>own pgdir s. page_ok (kend s) v) \<and>
     inj_on (\<lambda>i. tab pgdir i s) (dirs pgdir s) \<and> pgdir \<notin> (\<lambda>i. tab pgdir i s) ` dirs pgdir s \<and>
     own pgdir s \<inter> set xs = {} \<and> (\<forall>i\<in>dirs pgdir s. pde pgdir i s AND 7 = 7)"

lemma translate_pte:
  "translate pgdir va s =
     (if pte pgdir va s AND PTE_P = 0 then None else Some (PTE_ADDR (pte pgdir va s) OR (va AND 0xFFF)))"
  using PDX_less [of va] by (simp add: translate_def pte_def dirs_def tab_def pde_def Let_def)

lemma pt_inv_page: "\<lbrakk>pt_inv pgdir s xs; v \<in> own pgdir s\<rbrakk> \<Longrightarrow> v mod 4096 = 0 \<and> v \<noteq> 0"
  by (auto simp: pt_inv_def page_ok_def)

lemma pt_inv_pgdir: "pt_inv pgdir s xs \<Longrightarrow> pgdir mod 4096 = 0"
  using pt_inv_page [of pgdir s xs pgdir] by (simp add: own_def)

text \<open>What only reads the pages of \<open>own\<close> is the same after a change elsewhere.\<close>

lemma pt_same:
  assumes m: "mem_same P (kmem_mem s) (kmem_mem s')" and d: "own pgdir s \<inter> P = {}"
    and al: "\<forall>v\<in>own pgdir s. v mod 4096 = 0"
  shows "i < 1024 \<Longrightarrow> pde pgdir i s' = pde pgdir i s" "dirs pgdir s' = dirs pgdir s"
    "i < 1024 \<Longrightarrow> tab pgdir i s' = tab pgdir i s" "own pgdir s' = own pgdir s" "pte pgdir va s' = pte pgdir va s"
proof -
  have e: "pde pgdir i s' = pde pgdir i s" if "i < 1024" for i
    unfolding pde_def by (rule mem_same_slot [OF m]) (use al d that in \<open>auto simp: own_def\<close>)
  then show "i < 1024 \<Longrightarrow> pde pgdir i s' = pde pgdir i s" by simp
  from e show ds: "dirs pgdir s' = dirs pgdir s" by (auto simp: dirs_def)
  from e show t: "i < 1024 \<Longrightarrow> tab pgdir i s' = tab pgdir i s" for i by (simp add: tab_def)
  then have "(\<lambda>i. tab pgdir i s') ` dirs pgdir s = (\<lambda>i. tab pgdir i s) ` dirs pgdir s"
    by (intro image_cong) (auto simp: dirs_def)
  then show "own pgdir s' = own pgdir s" by (simp add: own_def ds)
  show "pte pgdir va s' = pte pgdir va s"
  proof (cases "PDX va \<in> dirs pgdir s")
    case True
    then have "tab pgdir (PDX va) s \<in> own pgdir s" by (auto simp: own_def)
    with al d have "load32 (kmem_mem s') (tab pgdir (PDX va) s + 4 * PTX va) =
        load32 (kmem_mem s) (tab pgdir (PDX va) s + 4 * PTX va)"
      by (intro mem_same_slot [OF m]) (auto simp: PTX_less)
    then show ?thesis using t [of "PDX va"] PDX_less by (simp add: pte_def ds)
  qed (simp add: pte_def ds)
qed

lemma pt_inv_same:
  assumes inv: "pt_inv pgdir s xs" and m: "mem_same P (kmem_mem s) (kmem_mem s')" "own pgdir s \<inter> P = {}"
    and k: "kmem_inv s' xs'" "kend s' = kend s" "own pgdir s \<inter> set xs' = {}"
  shows "pt_inv pgdir s' xs'"
proof -
  have al: "\<forall>v\<in>own pgdir s. v mod 4096 = 0" using pt_inv_page [OF inv] by blast
  note same = pt_same [OF m al]
  have "tab pgdir i s' = tab pgdir i s" if "i \<in> dirs pgdir s" for i
    using that same(3) by (simp add: dirs_def)
  then have "(\<lambda>i. tab pgdir i s') ` dirs pgdir s = (\<lambda>i. tab pgdir i s) ` dirs pgdir s"
    "inj_on (\<lambda>i. tab pgdir i s') (dirs pgdir s) = inj_on (\<lambda>i. tab pgdir i s) (dirs pgdir s)"
    by (auto intro!: image_cong inj_on_cong)
  moreover have "\<forall>i\<in>dirs pgdir s. pde pgdir i s' AND 7 = 7" using inv same(1) by (auto simp: pt_inv_def dirs_def)
  ultimately show ?thesis using inv k unfolding pt_inv_def same(2,4) by auto
qed

definition vstep :: "uint \<Rightarrow> 'a kmem_state_scheme \<Rightarrow> uint list \<Rightarrow> 'a kmem_state_scheme \<Rightarrow> uint list \<Rightarrow> bool" where
  "vstep pgdir s xs s' xs' \<longleftrightarrow> pt_inv pgdir s' xs' \<and> only_mem s s' \<and> own pgdir s \<subseteq> own pgdir s' \<and>
     own pgdir s' \<union> set xs' = own pgdir s \<union> set xs \<and> mem_same (own pgdir s \<union> set xs) (kmem_mem s) (kmem_mem s')"

lemma vstep_refl: "pt_inv pgdir s xs \<Longrightarrow> vstep pgdir s xs s xs"
  by (simp add: vstep_def)

lemma vstep_trans:
  assumes "vstep pgdir s xs s' xs'" "vstep pgdir s' xs' s'' xs''"
  shows "vstep pgdir s xs s'' xs''"
proof -
  have "mem_same (own pgdir s \<union> set xs) (kmem_mem s) (kmem_mem s'')"
    using assms unfolding vstep_def by (metis mem_same_trans order_refl)
  with assms show ?thesis
    unfolding vstep_def by (auto intro: only_mem_trans)
qed

lemma only_mem_mstore [simp]: "only_mem s (mstore a w s)"
  by (simp add: only_mem_def mstore_def)

lemma mem_mstore: "kmem_mem (mstore a w s) = store32 (kmem_mem s) a w" "kend (mstore a w s) = kend s"
  by (simp_all add: mstore_def)

text \<open>Storing an entry of a table.\<close>

lemma pte_store:
  fixes pgdir va w v :: uint and s :: "'a kmem_state_scheme"
  assumes inv: "pt_inv pgdir s xs" and d: "PDX va \<in> dirs pgdir s"
  defines "s' \<equiv> mstore (tab pgdir (PDX va) s + 4 * PTX va) w s"
  shows "vstep pgdir s xs s' xs" "pte pgdir v s' = (if PGROUNDDOWN v = PGROUNDDOWN va then w else pte pgdir v s)"
    "own pgdir s' = own pgdir s" "dirs pgdir s' = dirs pgdir s" "\<And>i. i < 1024 \<Longrightarrow> tab pgdir i s' = tab pgdir i s"
proof -
  let ?t = "tab pgdir (PDX va) s"
  have t: "?t \<in> own pgdir s" using d by (auto simp: own_def)
  then have al: "?t mod 4096 = 0" using pt_inv_page [OF inv] by blast
  have ne: "pgdir \<noteq> ?t" using inv d by (auto simp: pt_inv_def)
  have ke: "kend s' = kend s" by (simp add: s'_def mem_mstore)
  have m: "mem_same {?t} (kmem_mem s) (kmem_mem s')"
    unfolding s'_def mem_mstore by (rule mem_same_store [OF al PTX_less])
  have p: "pde pgdir i s' = pde pgdir i s" if "i < 1024" for i
    unfolding pde_def by (rule mem_same_slot [OF m pt_inv_pgdir [OF inv]]) (use ne that in auto)
  then show ds: "dirs pgdir s' = dirs pgdir s" by (auto simp: dirs_def)
  from p show ts: "tab pgdir i s' = tab pgdir i s" if "i < 1024" for i using that by (simp add: tab_def)
  have im: "(\<lambda>i. tab pgdir i s') ` dirs pgdir s = (\<lambda>i. tab pgdir i s) ` dirs pgdir s"
    by (intro image_cong) (auto simp: dirs_def ts)
  then show os: "own pgdir s' = own pgdir s" by (simp add: own_def ds)
  have ts': "tab pgdir i s' = tab pgdir i s" if "i \<in> dirs pgdir s" for i
    using that ts by (simp add: dirs_def)
  have inj: "inj_on (\<lambda>i. tab pgdir i s') (dirs pgdir s)"
    using inv inj_on_cong [of "dirs pgdir s" "\<lambda>i. tab pgdir i s'" "\<lambda>i. tab pgdir i s"] ts'
    by (simp add: pt_inv_def)
  have "kmem_inv s' xs"
    using kmem_inv_mem_same [of s xs "{?t}" "kmem_mem s'"] inv m t
    by (auto simp: pt_inv_def s'_def mstore_def)
  moreover have "\<forall>i\<in>dirs pgdir s. pde pgdir i s' AND 7 = 7" using inv p by (auto simp: pt_inv_def dirs_def)
  ultimately have "pt_inv pgdir s' xs"
    using inv inj im ke by (simp add: pt_inv_def os ds)
  moreover have "only_mem s s'" by (simp add: s'_def)
  ultimately show "vstep pgdir s xs s' xs"
    using m t by (auto simp: vstep_def os intro: mem_same_mono)
  show "pte pgdir v s' = (if PGROUNDDOWN v = PGROUNDDOWN va then w else pte pgdir v s)"
  proof (cases "PDX v \<in> dirs pgdir s")
    case True
    note T = ts [OF PDX_less [of v]]
    show ?thesis
    proof (cases "PDX v = PDX va")
      case eq: True
      show ?thesis
        using True T unfolding same_page_iff pte_def ds
        by (simp add: s'_def mem_mstore eq load32_store32_slot PTX_less eq_commute)
    next
      case False
      with inv True d have "tab pgdir (PDX v) s \<noteq> ?t"
        by (auto simp: pt_inv_def dest: inj_onD)
      moreover have "tab pgdir (PDX v) s mod 4096 = 0"
        using True pt_inv_page [OF inv] by (auto simp: own_def)
      ultimately have "load32 (kmem_mem s') (tab pgdir (PDX v) s + 4 * PTX v) =
          load32 (kmem_mem s) (tab pgdir (PDX v) s + 4 * PTX v)"
        by (intro mem_same_slot [OF m]) (auto simp: PTX_less)
      with True False T show ?thesis by (simp add: same_page_iff pte_def ds)
    qed
  next
    case False
    with d have "PGROUNDDOWN v \<noteq> PGROUNDDOWN va" by (auto simp: same_page_iff)
    with False show ?thesis by (simp add: pte_def ds)
  qed
qed


text \<open>Entries: a page address with flags below the page size.\<close>

lemma PTE_ADDR_page: "PTE_ADDR x = PGROUNDDOWN x"
  by (simp add: PTE_ADDR_def PGROUNDDOWN_def PGSIZE_def)

lemma PTE_ADDR_flags:
  assumes "pa mod 4096 = 0" "f < (4096 :: uint)"
  shows "PTE_ADDR (pa OR f) = pa"
proof -
  show ?thesis
    unfolding PTE_ADDR_page bit_eq_iff
    by (auto simp: bit_page bit_or_iff dest: aligned_bit [OF assms(1)] small_bit [OF assms(2)])
qed

lemma or_less_page: "\<lbrakk>a < 4096; b < 4096\<rbrakk> \<Longrightarrow> a OR b < (4096 :: uint)"
  using small_offset [of a] small_offset [of b] offset_less [of "a OR b"]
  by (metis bit.conj_disj_distrib2)

lemma entry_present: "(x OR PTE_P) AND PTE_P \<noteq> 0"
proof
  assume "(x OR PTE_P) AND PTE_P = 0"
  then have "bit ((x OR PTE_P) AND PTE_P) 0 = bit (0 :: uint) 0" by simp
  then show False by (simp add: PTE_P_def bit_simps)
qed

lemma entry_present2: "(x OR y OR PTE_P) AND PTE_P \<noteq> 0"
  by (metis entry_present or.assoc)

lemma entry_addr:
  assumes "pa mod 4096 = 0" "perm < (4096 :: uint)"
  shows "PTE_ADDR (pa OR perm OR PTE_P) = pa"
proof -
  have "pa OR perm OR PTE_P = pa OR (perm OR PTE_P)" by (simp add: or.assoc)
  moreover have "perm OR PTE_P < 4096" by (rule or_less_page) (use assms in \<open>simp_all add: PTE_P_def\<close>)
  ultimately show ?thesis using PTE_ADDR_flags [OF assms(1)] by simp
qed

lemma v2p_aligned: "v mod 4096 = 0 \<Longrightarrow> v2p v mod 4096 = 0"
  using aligned_add_iff [of "v2p v" KERNBASE] aligned_add_iff [of KERNBASE "v2p v"]
  by (simp add: layout_defs)


section \<open>Walking\<close>

lemma walkpgdir_found:
  "PDX va \<in> dirs pgdir s \<Longrightarrow> walkpgdir pgdir va alloc s = Ok (tab pgdir (PDX va) s + 4 * PTX va) s"
  by (simp add: walkpgdir_def dirs_def tab_def pde_def Let_def)

lemma walkpgdir_none: "PDX va \<notin> dirs pgdir s \<Longrightarrow> walkpgdir pgdir va False s = Ok 0 s"
  using PDX_less [of va] by (simp add: walkpgdir_def dirs_def pde_def Let_def)

lemma slot_not_null:
  assumes "pt_inv pgdir s xs" "PDX va \<in> dirs pgdir s"
  shows "tab pgdir (PDX va) s + 4 * PTX va \<noteq> 0"
proof -
  have t: "tab pgdir (PDX va) s \<in> own pgdir s" using assms(2) by (auto simp: own_def)
  have "PGROUNDDOWN (tab pgdir (PDX va) s + 4 * PTX va) = tab pgdir (PDX va) s"
    using page_plus(1) [of _ "4 * PTX va"] slot_offset(2) [OF PTX_less, of 0 va] pt_inv_page [OF assms(1) t]
    by simp
  moreover have "PGROUNDDOWN 0 = 0" by (simp add: PGROUNDDOWN_def)
  ultimately show ?thesis using pt_inv_page [OF assms(1) t] by auto
qed

text \<open>A new table: the page \<open>p\<close> taken from the free list, cleared and entered in the directory.\<close>

definition new_table :: "uint \<Rightarrow> uint \<Rightarrow> uint \<Rightarrow> 'a kmem_state_scheme \<Rightarrow> 'a kmem_state_scheme" where
  "new_table pgdir i p s = mstore (pgdir + 4 * i) (v2p p OR PTE_P OR PTE_W OR PTE_U)
     (mzero_page p (s\<lparr>kmem_freelist := mload s p\<rparr>))"

lemma walkpgdir_new:
  assumes "pt_inv pgdir s (p # xs)" "PDX va \<notin> dirs pgdir s"
  shows "walkpgdir pgdir va True s = Ok (p + 4 * PTX va) (new_table pgdir (PDX va) p s)"
  using assms PDX_less [of va]
  by (simp add: walkpgdir_def pt_inv_def kmem_inv_def dirs_def pde_def kalloc_def Let_def new_table_def)

lemma walkpgdir_nomem:
  assumes "pt_inv pgdir s []" "PDX va \<notin> dirs pgdir s"
  shows "walkpgdir pgdir va True s = Ok 0 s"
  using assms PDX_less [of va]
  by (simp add: walkpgdir_def pt_inv_def kmem_inv_def dirs_def pde_def kalloc_def Let_def)

lemma new_table_step:
  fixes pgdir i p :: uint and s :: "'a kmem_state_scheme"
  assumes inv: "pt_inv pgdir s (p # xs)" and i: "i < 1024" "i \<notin> dirs pgdir s"
  defines "s' \<equiv> new_table pgdir i p s"
  shows "vstep pgdir s (p # xs) s' xs" "pte pgdir v s' = pte pgdir v s"
    "dirs pgdir s' = insert i (dirs pgdir s)" "tab pgdir i s' = p"
proof -
  have p: "p mod 4096 = 0" "p \<noteq> 0" "page_ok (kend s) p" "p \<notin> set xs" "p \<notin> own pgdir s"
    using inv by (auto simp: pt_inv_def kmem_inv_def page_ok_def)
  then have ne: "pgdir \<noteq> p" by (auto simp: own_def)
  note pg = pt_inv_pgdir [OF inv]
  let ?m1 = "fill (kmem_mem s) p 0 4096" and ?e = "v2p p OR PTE_P OR PTE_W OR PTE_U"
  have ke: "kend s' = kend s" by (simp add: s'_def new_table_def mstore_def mzero_page_def)
  have om: "only_mem s s'" by (simp add: s'_def new_table_def mstore_def mzero_page_def only_mem_def)
  have mem: "kmem_mem s' = store32 ?m1 (pgdir + 4 * i) ?e"
    by (simp add: s'_def new_table_def mstore_def mzero_page_def PGSIZE_def)
  have ms1: "mem_same {p} (kmem_mem s) ?m1" by (rule mem_same_fill [OF p(1)])
  have ms2: "mem_same {pgdir} ?m1 (kmem_mem s')" unfolding mem by (rule mem_same_store [OF pg i(1)])
  have ms: "mem_same {p, pgdir} (kmem_mem s) (kmem_mem s')"
    by (rule mem_same_trans [OF mem_same_mono [OF ms1] ms2]) auto
  have e: "PTE_ADDR ?e = v2p p" "?e AND PTE_P \<noteq> 0" "?e AND 7 = 7"
  proof -
    have "?e = v2p p OR 7" by (simp add: PTE_P_def PTE_W_def PTE_U_def or.assoc)
    then show "?e AND 7 = 7" by (simp only: and.commute [of _ 7] or.commute [of _ 7] word_ao_absorbs)
    have "PTE_ADDR (v2p p OR (PTE_P OR PTE_W OR PTE_U)) = v2p p"
      by (rule PTE_ADDR_flags [OF v2p_aligned [OF p(1)]]) (simp add: PTE_P_def PTE_W_def PTE_U_def)
    then show "PTE_ADDR ?e = v2p p" by simp
    have "?e = (v2p p OR PTE_W OR PTE_U) OR PTE_P" by (simp add: ac_simps)
    then show "?e AND PTE_P \<noteq> 0" using entry_present by metis
  qed
  have pd: "pde pgdir j s' = (if j = i then ?e else pde pgdir j s)" if "j < 1024" for j
  proof -
    have "load32 ?m1 (pgdir + 4 * j) = load32 (kmem_mem s) (pgdir + 4 * j)"
      by (rule mem_same_slot [OF ms1 pg _ that]) (use ne in auto)
    then show ?thesis unfolding pde_def mem by (simp add: load32_store32_slot i(1) that eq_commute)
  qed
  show ds: "dirs pgdir s' = insert i (dirs pgdir s)"
    using pd i e by (auto simp: dirs_def split: if_splits)
  show ti: "tab pgdir i s' = p" using pd [OF i(1)] e by (simp add: tab_def p2v_def v2p_def)
  have tj: "tab pgdir j s' = tab pgdir j s" if "j \<in> dirs pgdir s" for j
    using that pd [of j] i by (auto simp: tab_def dirs_def)
  have im: "(\<lambda>j. tab pgdir j s') ` dirs pgdir s = (\<lambda>j. tab pgdir j s) ` dirs pgdir s"
    by (intro image_cong) (simp_all add: tj)
  have os: "own pgdir s' = insert p (own pgdir s)"
    by (simp add: own_def ds ti im insert_commute)
  have inj: "inj_on (\<lambda>j. tab pgdir j s') (dirs pgdir s)"
    using inv inj_on_cong [of "dirs pgdir s" "\<lambda>j. tab pgdir j s'" "\<lambda>j. tab pgdir j s"] tj
    by (simp add: pt_inv_def)
  have fl: "kmem_freelist s' = load32 (kmem_mem s) p"
    by (simp add: s'_def new_table_def mstore_def mzero_page_def)
  have k: "kmem_inv s' xs"
  proof -
    have "Flist (kmem_mem s) (load32 (kmem_mem s) p) xs" "distinct xs" "\<forall>x\<in>set xs. page_ok (kend s) x"
      using inv by (auto simp: pt_inv_def kmem_inv_def)
    moreover have "Flist (kmem_mem s') a xs = Flist (kmem_mem s) a xs" for a
      by (rule Flist_mem_same [OF ms]) (use inv p in \<open>auto simp: pt_inv_def kmem_inv_def page_ok_def own_def\<close>)
    ultimately show ?thesis by (simp add: kmem_inv_def fl ke)
  qed
  have pn: "p \<notin> (\<lambda>j. tab pgdir j s) ` dirs pgdir s" using p(5) by (simp add: own_def)
  have fl7: "\<forall>j\<in>insert i (dirs pgdir s). pde pgdir j s' AND 7 = 7" using inv pd i e(3) by (auto simp: pt_inv_def dirs_def)
  have "pt_inv pgdir s' xs"
    using inv k p inj i(2) pn ne fl7 by (simp add: pt_inv_def os ke ds ti im)
  moreover have "pgdir \<in> own pgdir s" by (simp add: own_def)
  ultimately show "vstep pgdir s (p # xs) s' xs"
    using om ms by (auto simp: vstep_def os intro: mem_same_mono)
  show "pte pgdir v s' = pte pgdir v s"
  proof (cases "PDX v \<in> dirs pgdir s")
    case True
    then have "tab pgdir (PDX v) s \<in> (\<lambda>j. tab pgdir j s) ` dirs pgdir s" by blast
    then have "tab pgdir (PDX v) s \<in> own pgdir s" "tab pgdir (PDX v) s \<noteq> pgdir" "tab pgdir (PDX v) s \<noteq> p"
      using inv p(5) unfolding own_def pt_inv_def by (blast, metis, blast)
    then have "load32 (kmem_mem s') (tab pgdir (PDX v) s + 4 * PTX v) =
        load32 (kmem_mem s) (tab pgdir (PDX v) s + 4 * PTX v)"
      using pt_inv_page [OF inv] by (intro mem_same_slot [OF ms]) (auto simp: PTX_less)
    with True show ?thesis by (simp add: pte_def ds tj)
  next
    case False
    show ?thesis
    proof (cases "PDX v = i")
      case True
      have "load32 (kmem_mem s') (p + 4 * PTX v) = load32 ?m1 (p + 4 * PTX v)"
        by (rule mem_same_slot [OF ms2 p(1) _ PTX_less]) (use ne in auto)
      with True False show ?thesis by (simp add: pte_def ds ti load32_zero_page [OF p(1) PTX_less])
    qed (use False in \<open>simp add: pte_def ds\<close>)
  qed
qed

text \<open>The walk that may allocate: either the slot of \<open>va\<close> exists afterwards or memory is exhausted.\<close>

lemma walkpgdir_alloc:
  assumes inv: "pt_inv pgdir s xs"
  shows "ok (walkpgdir pgdir va True s) (\<lambda>r s'. \<exists>xs'. vstep pgdir s xs s' xs' \<and>
           (\<forall>v. pte pgdir v s' = pte pgdir v s) \<and> dirs pgdir s' \<subseteq> insert (PDX va) (dirs pgdir s) \<and>
           (if r = 0 then xs' = [] \<and> dirs pgdir s' = dirs pgdir s else PDX va \<in> dirs pgdir s' \<and> r = tab pgdir (PDX va) s' + 4 * PTX va))"
proof (cases "PDX va \<in> dirs pgdir s")
  case True
  then show ?thesis
    using slot_not_null [OF inv True] vstep_refl [OF inv] by (auto simp: walkpgdir_found)
next
  case False
  show ?thesis
  proof (cases xs)
    case Nil
    with False inv show ?thesis by (auto simp: walkpgdir_nomem vstep_refl)
  next
    case (Cons p ps)
    note n = new_table_step [OF inv [unfolded Cons] PDX_less False]
    have "pt_inv pgdir (new_table pgdir (PDX va) p s) ps" using n(1) by (simp add: vstep_def)
    then have "p + 4 * PTX va \<noteq> 0" using slot_not_null [of pgdir _ ps va] n(3,4) by fastforce
    with n inv False show ?thesis
      unfolding Cons by (auto simp: walkpgdir_new [OF inv [unfolded Cons]])
  qed
qed


section \<open>Mapping a range\<close>

text \<open>The first page of a range of \<open>Suc j\<close> pages from \<open>a\<close>, and the rest.\<close>

lemma range_split:
  assumes "a mod 4096 = 0" "4096 * Suc j \<le> 2 ^ 32"
  shows "unat (v - a) < 4096 * Suc j \<longleftrightarrow> PGROUNDDOWN v = a \<or> unat (v - (a + 4096)) < 4096 * j"
proof -
  have e: "v - (a + 4096) = (v - a) - 4096" by simp
  have "PGROUNDDOWN v = a \<longleftrightarrow> unat (v - a) < 4096"
    using in_page_iff [OF assms(1), of v] by (simp add: word_less_nat_alt)
  moreover have "unat (v - a) < 2 ^ 32" using unsigned_less [of "v - a"] by simp
  ultimately show ?thesis
    using assms(2) unfolding e by (auto simp: unat_sub_if' word_le_nat_alt)
qed

definition map_entry :: "uint \<Rightarrow> uint \<Rightarrow> uint \<Rightarrow> uint \<Rightarrow> uint" where
  "map_entry a pa perm v = (pa + PGROUNDDOWN (v - a)) OR perm OR PTE_P"

lemma map_entry_next: "map_entry (a + 4096) (pa + 4096) perm v = map_entry a pa perm v"
proof -
  have "PGROUNDDOWN (v - a + - 4096) = PGROUNDDOWN (v - a) + - 4096"
    by (rule PGROUNDDOWN_add) simp
  then show ?thesis by (simp add: map_entry_def algebra_simps)
qed

lemma map_entry_first: "\<lbrakk>a mod 4096 = 0; PGROUNDDOWN v = a\<rbrakk> \<Longrightarrow> map_entry a pa perm v = pa OR perm OR PTE_P"
proof -
  assume a: "a mod 4096 = 0" "PGROUNDDOWN v = a"
  then have "v - a < 4096" by (simp add: in_page_iff)
  then have "PGROUNDDOWN (v - a) = 0" using page_plus(1) [of 0 "v - a"] by simp
  then show ?thesis by (simp add: map_entry_def)
qed

lemma map_entry_present: "map_entry a pa perm v AND PTE_P \<noteq> 0"
  unfolding map_entry_def by (rule entry_present2)

definition mapped :: "uint \<Rightarrow> nat \<Rightarrow> uint \<Rightarrow> uint \<Rightarrow> uint \<Rightarrow> 'a kmem_state_scheme \<Rightarrow> 'a kmem_state_scheme \<Rightarrow> bool" where
  "mapped a n pa perm pgdir s s' \<longleftrightarrow> dirs pgdir s' \<subseteq> dirs pgdir s \<union> PDX ` {v. unat (v - a) < 4096 * n} \<and>
     (\<forall>v. pte pgdir v s' = (if unat (v - a) < 4096 * n then map_entry a pa perm v else pte pgdir v s))"

lemma mappages_first:
  assumes inv: "pt_inv pgdir s xs" and a: "a mod 4096 = 0" and np: "pte pgdir a s AND PTE_P = 0"
  obtains (nomem) s1 where "walkpgdir pgdir a True s = Ok 0 s1" "vstep pgdir s xs s1 []"
      "mapped a 0 pa perm pgdir s s1"
  | (entry) r s1 xs' where "walkpgdir pgdir a True s = Ok r s1" "r \<noteq> 0" "mload s1 r AND PTE_P = 0"
      "vstep pgdir s xs (mstore r (pa OR perm OR PTE_P) s1) xs'"
      "mapped a 1 pa perm pgdir s (mstore r (pa OR perm OR PTE_P) s1)"
proof -
  obtain r s1 xs' where w: "walkpgdir pgdir a True s = Ok r s1" "vstep pgdir s xs s1 xs'"
    "\<And>v. pte pgdir v s1 = pte pgdir v s" "dirs pgdir s1 \<subseteq> insert (PDX a) (dirs pgdir s)"
    "if r = 0 then xs' = [] \<and> dirs pgdir s1 = dirs pgdir s else PDX a \<in> dirs pgdir s1 \<and> r = tab pgdir (PDX a) s1 + 4 * PTX a"
    using walkpgdir_alloc [OF inv, of a] by (auto elim!: okE)
  show thesis
  proof (cases "r = 0")
    case True
    with w show thesis by (intro nomem [of s1]) (auto simp: mapped_def split: if_splits)
  next
    case False
    with w have d: "PDX a \<in> dirs pgdir s1" and r: "r = tab pgdir (PDX a) s1 + 4 * PTX a" by auto
    have inv1: "pt_inv pgdir s1 xs'" using w(2) by (simp add: vstep_def)
    note st = pte_store [OF inv1 d, where w = "pa OR perm OR PTE_P", folded r]
    have "mload s1 r AND PTE_P = 0" using np w(3) [of a] d by (simp add: pte_def r)
    moreover have "PGROUNDDOWN a = a" using a by (simp add: aligned_page)
    moreover have "unat (v - a) < 4096 \<longleftrightarrow> PGROUNDDOWN v = a" for v
      using in_page_iff [OF a, of v] by (simp add: word_less_nat_alt)
    moreover have "dirs pgdir s1 \<subseteq> dirs pgdir s \<union> PDX ` {v. unat (v - a) < 4096 * 1}" using w(4) by force
    ultimately show thesis
      using st(1,2,4) w(3) by (intro entry [OF w(1) False])
        (auto simp: mapped_def map_entry_first [OF a] intro: vstep_trans [OF w(2)])
  qed
qed

lemma mapped_Suc:
  assumes "mapped a 1 pa perm pgdir s s1" "mapped (a + 4096) n (pa + 4096) perm pgdir s1 s2"
    and "a mod 4096 = 0" "4096 * Suc n \<le> 2 ^ 32"
  shows "mapped a (Suc n) pa perm pgdir s s2"
proof -
  have "unat (v - a) < 4096 \<longleftrightarrow> PGROUNDDOWN v = a" for v
    using in_page_iff [OF assms(3), of v] by (simp add: word_less_nat_alt)
  then have e: "unat (v - a) < 4096 * Suc n \<longleftrightarrow> unat (v - a) < 4096 * 1 \<or> unat (v - (a + 4096)) < 4096 * n" for v
    using range_split [OF assms(3,4)] by simp
  have "dirs pgdir s2 \<subseteq> dirs pgdir s \<union> PDX ` {v. unat (v - a) < 4096 * Suc n}"
    using assms(1,2) unfolding mapped_def e by blast
  then show ?thesis
    using assms(1,2) unfolding mapped_def e by (auto simp: map_entry_next)
qed

lemma mappages_loop_ok:
  assumes "pt_inv pgdir s xs" "a mod 4096 = 0" "4096 * Suc k \<le> 2 ^ 32"
    and "\<forall>v. unat (v - a) < 4096 * Suc k \<longrightarrow> pte pgdir v s AND PTE_P = 0"
  shows "ok (mappages_loop k pgdir a pa perm s) (\<lambda>r s'. \<exists>xs' n. vstep pgdir s xs s' xs' \<and>
           mapped a n pa perm pgdir s s' \<and> (r = 0 \<and> n = Suc k \<or> r = - 1 \<and> n \<le> k \<and> xs' = []))"
  using assms
proof (induction k arbitrary: a pa s xs)
  case (0 a pa s xs)
  have "pte pgdir a s AND PTE_P = 0" using 0(4) by simp
  from mappages_first [OF 0(1,2) this, of pa perm] show ?case
    by cases (auto simp: mappages_loop.simps [of 0] Let_def)
next
  case (Suc k)
  have "pte pgdir a s AND PTE_P = 0" using Suc.prems(4) by simp
  then show ?case
  proof (cases rule: mappages_first [OF Suc.prems(1,2), of pa perm, consumes 1, case_names nomem entry])
    case (nomem s1)
    then show ?thesis by (auto simp: mappages_loop.simps [of "Suc k"])
  next
    case (entry r s1 xs')
    let ?s = "mstore r (pa OR perm OR PTE_P) s1"
    have a': "(a + 4096) mod 4096 = 0" using Suc.prems(2) aligned_add_iff [of 4096 a] by simp
    have inv: "pt_inv pgdir ?s xs'" using entry(4) by (simp add: vstep_def)
    have not_first: "\<not> unat (v - a) < 4096" if "unat (v - (a + 4096)) < 4096 * Suc k" for v
    proof
      assume *: "unat (v - a) < 4096"
      define d where "d = v - a"
      have e: "v - (a + 4096) = d - 4096" by (simp add: d_def)
      have "unat (d - 4096) < 4096 * Suc k" using that unfolding e .
      then show False using * [folded d_def] Suc.prems(3) by (simp add: unat_sub_if' word_le_nat_alt)
    qed
    have np: "pte pgdir v ?s AND PTE_P = 0" if "unat (v - (a + 4096)) < 4096 * Suc k" for v
    proof -
      have "unat (v - a) < 4096 * Suc (Suc k)" "\<not> unat (v - a) < 4096"
        using that Suc.prems(3) range_split [OF Suc.prems(2,3), of v] not_first [OF that] by simp_all
      then show ?thesis using Suc.prems(4) entry(5) by (auto simp: mapped_def)
    qed
    have "ok (mappages_loop k pgdir (a + 4096) (pa + 4096) perm ?s) (\<lambda>r s'. \<exists>xs'' n. vstep pgdir ?s xs' s' xs'' \<and>
           mapped (a + 4096) n (pa + 4096) perm pgdir ?s s' \<and> (r = 0 \<and> n = Suc k \<or> r = - 1 \<and> n \<le> k \<and> xs'' = []))"
      using Suc.prems(3) np by (intro Suc.IH [OF inv a']) auto
    then have "ok (mappages_loop k pgdir (a + 4096) (pa + 4096) perm ?s) (\<lambda>r s'. \<exists>xs'' n. vstep pgdir s xs s' xs'' \<and>
           mapped a n pa perm pgdir s s' \<and> (r = 0 \<and> n = Suc (Suc k) \<or> r = - 1 \<and> n \<le> Suc k \<and> xs'' = []))"
    proof (rule ok_mono, elim exE conjE)
      fix r' s' xs'' n
      assume n: "vstep pgdir ?s xs' s' xs''" "mapped (a + 4096) n (pa + 4096) perm pgdir ?s s'"
        "r' = 0 \<and> n = Suc k \<or> r' = - 1 \<and> n \<le> k \<and> xs'' = []"
      have "mapped a (Suc n) pa perm pgdir s s'"
        by (rule mapped_Suc [OF entry(5) n(2) Suc.prems(2)]) (use n(3) Suc.prems(3) in auto)
      then show "\<exists>xs'' n. vstep pgdir s xs s' xs'' \<and> mapped a n pa perm pgdir s s' \<and>
          (r' = 0 \<and> n = Suc (Suc k) \<or> r' = - 1 \<and> n \<le> Suc k \<and> xs'' = [])"
        using vstep_trans [OF entry(4) n(1)] n(3) by auto
    qed
    then show ?thesis
      using entry(1-3) by (simp add: mappages_loop.simps [of "Suc k"] Let_def PGSIZE_def)
  qed
qed


definition npages :: "uint \<Rightarrow> uint \<Rightarrow> nat" where
  "npages va sz = (unat (va AND 0xFFF) + unat sz + 4095) div 4096"

lemma page_number: "PGROUNDDOWN x div 4096 = x div 4096"
proof -
  have "x div 4096 = drop_bit 12 x" for x :: uint by (simp add: drop_bit_eq_div)
  moreover have "drop_bit 12 (PGROUNDDOWN x) = drop_bit 12 x"
    by (auto simp: bit_eq_iff bit_drop_bit_eq bit_page)
  ultimately show ?thesis by simp
qed

lemma mappages_count:
  assumes "0 < sz" "unat (va AND 0xFFF) + unat sz \<le> 2 ^ 32"
  shows "mappages pgdir va sz pa perm s = mappages_loop (npages va sz - 1) pgdir (PGROUNDDOWN va) pa perm s"
    "4096 * Suc (npages va sz - 1) \<le> 2 ^ 32" "0 < npages va sz"
proof -
  have sz: "0 < unat sz" using assms(1) by (simp add: word_less_nat_alt)
  let ?x = "(va AND 0xFFF) + sz - 1"
  have "PGROUNDDOWN (va + sz - 1) - PGROUNDDOWN va = PGROUNDDOWN ?x"
    using PGROUNDDOWN_add [OF aligned_PGROUNDDOWN, of ?x va] page_split [of va] by (simp add: algebra_simps)
  moreover have "unat ?x = unat (va AND 0xFFF) + unat sz - 1"
  proof -
    have "unat (sz - 1) = unat sz - 1" using assms(1) by (simp add: unat_minus_one word_neq_0_conv)
    moreover have "?x = (va AND 0xFFF) + (sz - 1)" by simp
    ultimately show ?thesis
      using assms(2) sz by (simp only: unat_word_ariths(1)) simp
  qed
  ultimately have "unat ((PGROUNDDOWN (va + sz - 1) - PGROUNDDOWN va) div PGSIZE) = (unat (va AND 0xFFF) + unat sz - 1) div 4096"
    by (simp add: PGSIZE_def page_number unat_div)
  moreover have "npages va sz - 1 = (unat (va AND 0xFFF) + unat sz - 1) div 4096"
    using sz by (simp add: npages_def) 
  ultimately show "mappages pgdir va sz pa perm s = mappages_loop (npages va sz - 1) pgdir (PGROUNDDOWN va) pa perm s"
    by (simp add: mappages_def Let_def)
  show p: "0 < npages va sz" using sz by (simp add: npages_def)
  show "4096 * Suc (npages va sz - 1) \<le> 2 ^ 32"
    using p assms(2) by (simp add: npages_def)
qed

lemma finite_dirs: "finite (dirs pgdir s)"
  by (rule finite)

lemma card_own_dirs:
  assumes "dirs pgdir s \<subseteq> D"
  shows "card (own pgdir s) \<le> Suc (card D)"
proof -
  have "card (dirs pgdir s) \<le> card D" by (rule card_mono [OF _ assms]) (rule finite)
  then have "card ((\<lambda>i. tab pgdir i s) ` dirs pgdir s) \<le> card D"
    using card_image_le [OF finite_dirs, of "\<lambda>i. tab pgdir i s" pgdir s] by linarith
  then show ?thesis unfolding own_def by (intro card_insert_le_m1) simp_all
qed

abbreviation all_dirs :: "uint set" where "all_dirs \<equiv> {0..<1024}"

lemma card_below: "m \<le> n \<Longrightarrow> card {m..<n :: uint} = unat n - unat m"
proof -
  assume "m \<le> n"
  have "{m..<n} = of_nat ` {unat m..<unat n}"
  proof (intro set_eqI iffI)
    fix x :: uint assume "x \<in> {m..<n}"
    then show "x \<in> of_nat ` {unat m..<unat n}"
      by (intro image_eqI [of _ _ "unat x"]) (simp_all add: word_le_nat_alt word_less_nat_alt)
  next
    fix x :: uint assume "x \<in> of_nat ` {unat m..<unat n}"
    then obtain k where k: "x = of_nat k" "unat m \<le> k" "k < unat n" by auto
    have "unat n < 2 ^ 32" using unsigned_less [of n] by simp
    then have "k < 2 ^ 32" using k(3) by simp
    then show "x \<in> {m..<n}" using k by (simp add: word_le_nat_alt word_less_nat_alt unat_of_nat)
  qed
  moreover have "inj_on (of_nat :: nat \<Rightarrow> uint) {unat m..<unat n}"
  proof (rule inj_onI)
    fix x y assume "x \<in> {unat m..<unat n}" "y \<in> {unat m..<unat n}" "(of_nat x :: uint) = of_nat y"
    moreover have "unat n < 2 ^ 32" using unsigned_less [of n] by simp
    ultimately show "x = y" by (auto simp: word_unat_eq_iff unat_of_nat)
  qed
  ultimately show ?thesis by (simp add: card_image)
qed

lemma card_all_dirs: "card all_dirs = 1024"
  using card_below [of 0 1024] by simp

lemma card_own: "card (own pgdir s) \<le> 1025"
proof -
  have "dirs pgdir s \<subseteq> all_dirs" by (auto simp: dirs_def)
  from card_own_dirs [OF this] show ?thesis by (simp add: card_all_dirs)
qed

lemma finite_own [simp]: "finite (own pgdir s)"
  by (rule finite)

text \<open>The pages that belong to the directory or are free; at most 1025 of them can become tables.\<close>

definition budget :: "uint \<Rightarrow> 'a kmem_state_scheme \<Rightarrow> uint list \<Rightarrow> nat" where
  "budget pgdir s xs = card (own pgdir s) + length xs"

lemma budget_card: "pt_inv pgdir s xs \<Longrightarrow> budget pgdir s xs = card (own pgdir s \<union> set xs)"
  by (auto simp: budget_def pt_inv_def kmem_inv_def card_Un_disjoint distinct_card)

lemma budget_pos: "length xs < budget pgdir s xs"
  by (simp add: budget_def own_def card_gt_0_iff)

lemma vstep_budget:
  "\<lbrakk>pt_inv pgdir s xs; vstep pgdir s xs s' xs'\<rbrakk> \<Longrightarrow> budget pgdir s' xs' = budget pgdir s xs"
  by (simp add: budget_card vstep_def)

lemma vstep_nomem:
  assumes "pt_inv pgdir s xs" "vstep pgdir s xs s' []"
  shows "budget pgdir s xs \<le> 1025"
  using vstep_budget [OF assms] card_own [of pgdir s'] by (simp add: budget_def)

lemma mappages_ok:
  assumes "pt_inv pgdir s xs" "0 < sz" "unat (va AND 0xFFF) + unat sz \<le> 2 ^ 32"
    and "\<forall>v. unat (v - PGROUNDDOWN va) < 4096 * npages va sz \<longrightarrow> pte pgdir v s AND PTE_P = 0"
  shows "ok (mappages pgdir va sz pa perm s) (\<lambda>r s'. \<exists>xs' n. vstep pgdir s xs s' xs' \<and>
           mapped (PGROUNDDOWN va) n pa perm pgdir s s' \<and>
           (r = 0 \<and> n = npages va sz \<or> r = - 1 \<and> n < npages va sz \<and> xs' = []))"
proof -
  note c = mappages_count [OF assms(2,3)]
  have "Suc (npages va sz - 1) = npages va sz" using c(3) by simp
  with assms(4) have "\<forall>v. unat (v - PGROUNDDOWN va) < 4096 * Suc (npages va sz - 1) \<longrightarrow> pte pgdir v s AND PTE_P = 0"
    by simp
  from mappages_loop_ok [OF assms(1) aligned_PGROUNDDOWN c(2) this, of pa perm]
  show ?thesis unfolding c(1) by (rule ok_mono) (use c(3) in force)
qed

lemma map_entry_addr:
  assumes "a mod 4096 = 0" "pa mod 4096 = 0" "perm < 4096"
  shows "PTE_ADDR (map_entry a pa perm v) OR (v AND 0xFFF) = pa + (v - a)"
proof -
  have al: "(pa + PGROUNDDOWN (v - a)) mod 4096 = 0"
    using aligned_add_iff [OF aligned_PGROUNDDOWN] assms(2) by simp
  have "v AND 0xFFF = v - (PGROUNDDOWN (v - a) + a)"
    using PGROUNDDOWN_add [OF assms(1), of "v - a"] PGROUNDDOWN_offset [of v] by simp
  also have "\<dots> = v - a - PGROUNDDOWN (v - a)" by simp
  also have "\<dots> = (v - a) AND 0xFFF" by (rule PGROUNDDOWN_offset)
  finally have o: "v AND 0xFFF = (v - a) AND 0xFFF" .
  have "PTE_ADDR (map_entry a pa perm v) OR (v AND 0xFFF) = (pa + PGROUNDDOWN (v - a)) + (v AND 0xFFF)"
    unfolding map_entry_def entry_addr [OF al assms(3)] by (rule page_or [OF al offset_less])
  also have "\<dots> = pa + (v - a)" using page_split [of "v - a"] o by (simp add: algebra_simps)
  finally show ?thesis .
qed

lemma translate_mapped:
  assumes "mapped a n pa perm pgdir s s'" "a mod 4096 = 0" "pa mod 4096 = 0" "perm < 4096"
  shows "translate pgdir v s' = (if unat (v - a) < 4096 * n then Some (pa + (v - a)) else translate pgdir v s)"
  using assms(1) map_entry_addr [OF assms(2-4)] by (simp add: translate_pte mapped_def map_entry_present)

section \<open>The kernel part of every address space\<close>

lemma npages_aligned:
  assumes "va mod 4096 = 0" "sz mod 4096 = 0"
  shows "4096 * npages va sz = unat sz"
proof -
  have "va AND 0xFFF = 0" using assms(1) PGROUNDDOWN_offset [of va] by (simp add: aligned_page)
  moreover have "unat sz mod 4096 = 0" using arg_cong [OF assms(2), of unat] by (simp add: unat_mod)
  then obtain k where "unat sz = 4096 * k" by auto
  ultimately show ?thesis by (simp add: npages_def)
qed

lemma mappages_aligned:
  assumes 0: "pt_inv pgdir s0 xs0" "Suc (card D) < budget pgdir s0 xs0" "vstep pgdir s0 xs0 s xs" "dirs pgdir s \<subseteq> D"
    and al: "va mod 4096 = 0" "sz mod 4096 = 0" "0 < sz"
    and np: "\<And>v. v - va < sz \<Longrightarrow> pte pgdir v s AND PTE_P = 0 \<and> PDX v \<in> D"
  obtains s' xs' where "mappages pgdir va sz pa perm s = Ok 0 s'" "vstep pgdir s0 xs0 s' xs'" "dirs pgdir s' \<subseteq> D"
    "\<forall>v. pte pgdir v s' = (if v - va < sz then map_entry va pa perm v else pte pgdir v s)"
proof -
  have off: "va AND 0xFFF = 0" "PGROUNDDOWN va = va"
    using al(1) PGROUNDDOWN_offset [of va] by (simp_all add: aligned_page)
  have inv: "pt_inv pgdir s xs" using 0(3) by (simp add: vstep_def)
  have le: "unat (va AND 0xFFF) + unat sz \<le> 2 ^ 32"
  proof -
    have "unat sz < 2 ^ 32" using unsigned_less [of sz] by simp
    then show ?thesis by (simp add: off)
  qed
  note n = npages_aligned [OF al(1,2)]
  have np': "\<forall>v. unat (v - PGROUNDDOWN va) < 4096 * npages va sz \<longrightarrow> pte pgdir v s AND PTE_P = 0"
    unfolding n off using np by (simp add: word_less_nat_alt)
  from mappages_ok [OF inv al(3) le np', of pa perm] obtain r s' xs' k where
    r: "mappages pgdir va sz pa perm s = Ok r s'" "vstep pgdir s xs s' xs'"
      "mapped va k pa perm pgdir s s'" "r = 0 \<and> k = npages va sz \<or> r = - 1 \<and> k < npages va sz \<and> xs' = []"
    unfolding off by (auto elim!: okE)
  have v: "vstep pgdir s0 xs0 s' xs'" by (rule vstep_trans [OF 0(3) r(2)])
  have d: "dirs pgdir s' \<subseteq> D"
  proof -
    have "dirs pgdir s' \<subseteq> dirs pgdir s \<union> PDX ` {v. unat (v - va) < 4096 * k}" using r(3) by (simp add: mapped_def)
    moreover have "unat (v - va) < unat sz" if "unat (v - va) < 4096 * k" for v
    proof -
      have "4096 * k \<le> 4096 * npages va sz" using r(4) by auto
      then show ?thesis using that n by linarith
    qed
    ultimately show ?thesis using 0(4) np by (fastforce simp: word_less_nat_alt)
  qed
  have "xs' \<noteq> []" using vstep_budget [OF 0(1) v] card_own_dirs [OF d] 0(2) by (auto simp: budget_def)
  with r(4) have "r = 0" "k = npages va sz" by auto
  then show thesis
    using r(1,3) v n d by (intro that) (auto simp: mapped_def word_less_nat_alt)
qed

text \<open>A fresh directory is an empty address space.\<close>

lemma fresh_dir:
  assumes "kmem_inv s (p # xs)"
  defines "s1 \<equiv> mzero_page p (s\<lparr>kmem_freelist := mload s p\<rparr>)"
  shows "pt_inv p s1 xs" "pte p v s1 = 0" "dirs p s1 = {}"
proof -
  have p: "p mod 4096 = 0" "page_ok (kend s) p" "p \<notin> set xs"
    using assms(1) by (auto simp: kmem_inv_def page_ok_def)
  have m: "kmem_mem s1 = fill (kmem_mem s) p 0 4096" "kend s1 = kend s" "kmem_freelist s1 = mload s p"
    by (simp_all add: s1_def mzero_page_def PGSIZE_def)
  show d: "dirs p s1 = {}"
    by (auto simp: dirs_def pde_def m load32_zero_page [OF p(1)])
  then show "pte p v s1 = 0" by (simp add: pte_def)
  have "Flist (kmem_mem s1) a xs = Flist (kmem_mem s) a xs" for a
    by (rule Flist_mem_same [of "{p}"])
      (use assms(1) p mem_same_fill [OF p(1)] in \<open>auto simp: m kmem_inv_def page_ok_def\<close>)
  then have "kmem_inv s1 xs" using assms(1) by (simp add: kmem_inv_def m)
  with p d show "pt_inv p s1 xs" by (simp add: pt_inv_def own_def m)
qed


lemma aligned_diff: "\<lbrakk>a mod 4096 = 0; b mod 4096 = (0 :: uint)\<rbrakk> \<Longrightarrow> (a - b) mod 4096 = 0"
  using aligned_add_iff [of b "a - b"] by simp

lemma range_iff: "a \<le> b \<Longrightarrow> v - a < b - a \<longleftrightarrow> a \<le> v \<and> v < (b :: uint)"
proof -
  assume "a \<le> b"
  moreover have "unat v < 2 ^ 32" "unat a < 2 ^ 32" "unat b < 2 ^ 32"
    using unsigned_less [of v] unsigned_less [of a] unsigned_less [of b] by simp_all
  ultimately show ?thesis by (auto simp: word_less_nat_alt word_le_nat_alt unat_sub_if')
qed
lemma range_top_iff: "a \<noteq> 0 \<Longrightarrow> v - a < 0 - a \<longleftrightarrow> a \<le> (v :: uint)"
proof -
  assume "a \<noteq> 0"
  then have "0 < unat a" by (simp add: unat_gt_0)
  moreover from this have "unat (- a) = 2 ^ 32 - unat a" using unat_sub_if' [of 0 a] by simp
  moreover have "unat v < 2 ^ 32" "unat a < 2 ^ 32"
    using unsigned_less [of v] unsigned_less [of a] by simp_all
  ultimately show ?thesis by (auto simp: word_less_nat_alt word_le_nat_alt unat_sub_if')
qed
definition kvm_entry :: "uint \<Rightarrow> uint \<Rightarrow> uint" where
  "kvm_entry data v = (if KERNBASE \<le> v \<and> v < KERNLINK then map_entry KERNBASE 0 PTE_W v
       else if KERNLINK \<le> v \<and> v < data then map_entry KERNLINK EXTMEM 0 v
       else if data \<le> v \<and> v < p2v PHYSTOP then map_entry data (v2p data) PTE_W v
       else if DEVSPACE \<le> v then map_entry DEVSPACE DEVSPACE PTE_W v else 0)"

lemma kmap_ranges:
  assumes "data mod 4096 = 0" "KERNLINK < data" "data < p2v PHYSTOP"
  shows "v - KERNBASE < KERNLINK - KERNBASE \<longleftrightarrow> KERNBASE \<le> v \<and> v < KERNLINK"
    "v - KERNLINK < data - KERNLINK \<longleftrightarrow> KERNLINK \<le> v \<and> v < data"
    "v - data < p2v PHYSTOP - data \<longleftrightarrow> data \<le> v \<and> v < p2v PHYSTOP"
    "v - DEVSPACE < 0 - DEVSPACE \<longleftrightarrow> DEVSPACE \<le> v"
  using assms(2,3) by (intro range_iff range_top_iff; simp add: KERNLINK_def EXTMEM_def DEVSPACE_def layout_defs)+

lemma kmap_sizes:
  assumes "data mod 4096 = 0" "KERNLINK < data" "data < p2v PHYSTOP"
  shows "(data - KERNLINK) mod 4096 = 0" "(p2v PHYSTOP - data) mod 4096 = 0"
    "KERNBASE mod 4096 = 0" "KERNLINK mod 4096 = 0" "DEVSPACE mod 4096 = 0"
    "(KERNLINK - KERNBASE) mod 4096 = 0" "(0 - DEVSPACE) mod 4096 = 0"
    "0 < KERNLINK - KERNBASE" "0 < data - KERNLINK" "0 < p2v PHYSTOP - data" "0 < 0 - DEVSPACE"
proof -
  note c = KERNLINK_def EXTMEM_def DEVSPACE_def layout_defs
  show k: "KERNLINK mod 4096 = 0" "KERNBASE mod 4096 = 0" "DEVSPACE mod 4096 = 0"
    "(KERNLINK - KERNBASE) mod 4096 = 0" "(0 - DEVSPACE) mod 4096 = 0"
    by (simp_all add: c)
  show "(data - KERNLINK) mod 4096 = 0" by (rule aligned_diff [OF assms(1) k(1)])
  show "(p2v PHYSTOP - data) mod 4096 = 0" by (rule aligned_diff [OF _ assms(1)]) (simp add: c)
  show "0 < KERNLINK - KERNBASE" "0 < 0 - DEVSPACE" by (simp_all add: c word_gt_0)
  show "0 < data - KERNLINK" "0 < p2v PHYSTOP - data" using assms(2,3) by (auto simp: word_gt_0)
qed

text \<open>The directory entries of the kernel part: 224 MB of memory from \<open>KERNBASE\<close> and the device space take 64 tables.\<close>

definition kvm_dirs :: "uint set" where
  "kvm_dirs = {512..<568} \<union> {1016..<1024}"

lemma card_kvm_dirs: "card kvm_dirs \<le> 64"
  using card_Un_le [of "{512..<568 :: uint}" "{1016..<1024}"] by (simp add: kvm_dirs_def card_below)

lemma unat_PDX: "unat (PDX v) = unat v div 0x400000"
proof -
  have "PDX v = drop_bit 22 v"
    by (auto simp: bit_eq_iff bit_PDX bit_drop_bit_eq add.commute dest: bit_imp_le_length)
  then show ?thesis by (simp add: drop_bit_eq_div unat_div)
qed

lemma PDX_kvm: "KERNBASE \<le> v \<and> v < p2v PHYSTOP \<or> DEVSPACE \<le> v \<Longrightarrow> PDX v \<in> kvm_dirs"
proof -
  assume v: "KERNBASE \<le> v \<and> v < p2v PHYSTOP \<or> DEVSPACE \<le> v"
  have "unat v < 2 ^ 32" using unsigned_less [of v] by simp
  moreover note unat_PDX [of v]
  ultimately show ?thesis using v
    by (auto simp: kvm_dirs_def DEVSPACE_def layout_defs word_le_nat_alt word_less_nat_alt)
qed

lemma setupkvm_ok:
  assumes inv: "kmem_inv s (p # xs)" and len: "64 < length xs"
    and d: "data mod 4096 = 0" "KERNLINK < data" "data < p2v PHYSTOP"
  obtains s' xs' where "setupkvm data s = Ok p s'" "vstep p (mzero_page p (s\<lparr>kmem_freelist := mload s p\<rparr>)) xs s' xs'"
    "\<forall>v. pte p v s' = kvm_entry data v"
proof -
  let ?s = "mzero_page p (s\<lparr>kmem_freelist := mload s p\<rparr>)"
  note f = fresh_dir [OF inv]
  have len': "Suc (card kvm_dirs) < budget p ?s xs" using len budget_pos [of xs p ?s] card_kvm_dirs by simp
  note c = KERNLINK_def EXTMEM_def DEVSPACE_def layout_defs
  have sz: "EXTMEM - 0 = KERNLINK - KERNBASE" "v2p data - v2p KERNLINK = data - KERNLINK"
      "PHYSTOP - v2p data = p2v PHYSTOP - data" "v2p KERNLINK = EXTMEM"
    by (simp_all add: c)
  have kd: "KERNBASE \<le> KERNLINK" "p2v PHYSTOP \<le> DEVSPACE" by (simp_all add: c)
  note r = kmap_ranges [OF d] and r4 = kmap_ranges(4) [OF d, simplified] and z = kmap_sizes [OF d]
  have ord: "KERNLINK < p2v PHYSTOP" "KERNBASE < data" using d(2,3) kd by (auto intro: le_less_trans less_trans)
  have dv: "\<lbrakk>KERNBASE \<le> v \<or> KERNLINK \<le> v \<or> data \<le> v; v < KERNLINK \<or> v < data \<or> v < p2v PHYSTOP\<rbrakk> \<Longrightarrow> PDX v \<in> kvm_dirs" "DEVSPACE \<le> v \<Longrightarrow> PDX v \<in> kvm_dirs" for v
    using ord d(3) kd(1) by (auto intro!: PDX_kvm simp: word_le_nat_alt word_less_nat_alt)
  have ds: "dirs p ?s \<subseteq> kvm_dirs" by (simp add: f(3))
  have np1: "pte p v ?s AND PTE_P = 0 \<and> PDX v \<in> kvm_dirs" if "v - KERNBASE < KERNLINK - KERNBASE" for v
    using that by (auto simp: f(2) r dv)
  obtain s1 xs1 where 1: "mappages p KERNBASE (KERNLINK - KERNBASE) 0 PTE_W ?s = Ok 0 s1" "vstep p ?s xs s1 xs1" "dirs p s1 \<subseteq> kvm_dirs"
    "\<forall>v. pte p v s1 = (if v - KERNBASE < KERNLINK - KERNBASE then map_entry KERNBASE 0 PTE_W v else pte p v ?s)"
    by (rule mappages_aligned [where pa = 0 and perm = PTE_W, OF f(1) len' vstep_refl [OF f(1)] ds z(3,6,8) np1])
  have np2: "pte p v s1 AND PTE_P = 0 \<and> PDX v \<in> kvm_dirs" if "v - KERNLINK < data - KERNLINK" for v
    using that by (auto simp: 1(4) r f(2) not_less dv)
  obtain s2 xs2 where 2: "mappages p KERNLINK (data - KERNLINK) (v2p KERNLINK) 0 s1 = Ok 0 s2" "vstep p ?s xs s2 xs2" "dirs p s2 \<subseteq> kvm_dirs"
    "\<forall>v. pte p v s2 = (if v - KERNLINK < data - KERNLINK then map_entry KERNLINK (v2p KERNLINK) 0 v else pte p v s1)"
    by (rule mappages_aligned [where pa = "v2p KERNLINK" and perm = 0, OF f(1) len' 1(2,3) z(4,1,9) np2])
  have np3: "pte p v s2 AND PTE_P = 0 \<and> PDX v \<in> kvm_dirs" if "v - data < p2v PHYSTOP - data" for v
    using that d(2) by (auto simp: 1(4) 2(4) r f(2) not_less dv)
  obtain s3 xs3 where 3: "mappages p data (p2v PHYSTOP - data) (v2p data) PTE_W s2 = Ok 0 s3" "vstep p ?s xs s3 xs3" "dirs p s3 \<subseteq> kvm_dirs"
    "\<forall>v. pte p v s3 = (if v - data < p2v PHYSTOP - data then map_entry data (v2p data) PTE_W v else pte p v s2)"
    by (rule mappages_aligned [where pa = "v2p data" and perm = PTE_W, OF f(1) len' 2(2,3) d(1) z(2,10) np3])
  have np4: "pte p v s3 AND PTE_P = 0 \<and> PDX v \<in> kvm_dirs" if "v - DEVSPACE < 0 - DEVSPACE" for v
    using that d kd by (auto simp: 1(4) 2(4) 3(4) r r4 f(2) not_less dv)
  obtain s4 xs4 where 4: "mappages p DEVSPACE (0 - DEVSPACE) DEVSPACE PTE_W s3 = Ok 0 s4" "vstep p ?s xs s4 xs4" "dirs p s4 \<subseteq> kvm_dirs"
    "\<forall>v. pte p v s4 = (if v - DEVSPACE < 0 - DEVSPACE then map_entry DEVSPACE DEVSPACE PTE_W v else pte p v s3)"
    by (rule mappages_aligned [where pa = DEVSPACE and perm = PTE_W, OF f(1) len' 3(2,3) z(5,7,11) np4])
  have k: "kalloc s = Ok p (s\<lparr>kmem_freelist := mload s p\<rparr>)"
    using inv by (simp add: kalloc_def kmem_inv_def Let_def)
  have nz: "p \<noteq> 0" using inv by (simp add: kmem_inv_def)
  have "setupkvm data s = Ok p s4"
    using k nz 1(1) 2(1) 3(1) 4(1) kd(2) unfolding sz(1-3) [symmetric]
    by (simp add: setupkvm_def kmap_def Let_def not_less)
  moreover have "\<forall>v. pte p v s4 = kvm_entry data v"
    using d kd sz(4) by (auto simp: 1(4) 2(4) 3(4) 4(4) r r4 f(2) kvm_entry_def)
  ultimately show thesis using 4(2) by (intro that [of s4 xs4])
qed

text \<open>The memory map that the comment on \<open>kmap\<close> in vm.c describes.\<close>

definition kvm_map :: "uint \<Rightarrow> uint option" where
  "kvm_map v = (if KERNBASE \<le> v \<and> v < p2v PHYSTOP then Some (v2p v) else if DEVSPACE \<le> v then Some v else None)"

text \<open>A pool of free pages above the first four megabytes, as \<open>freerange\<close> makes it.\<close>

definition pool :: "nat \<Rightarrow> kmem_state" where
  "pool n = (case freerange_from 0x80400000 (0x80400000 + 4096 * of_nat n)
       \<lparr>kmem_mem = (\<lambda>_. 0), kmem_freelist = 0, kmem_use_lock = False, kend = 0x80200000\<rparr>
     of Ok _ s \<Rightarrow> s)"

lemma pool_inv:
  assumes "n \<le> 4096"
  shows "kmem_inv (pool n) (rev (pages n 0x80400000))" "kend (pool n) = 0x80200000"
proof -
  let ?s = "\<lparr>kmem_mem = (\<lambda>_. 0), kmem_freelist = 0, kmem_use_lock = False, kend = 0x80200000\<rparr> :: kmem_state"
  have u: "unat (0x80400000 + 4096 * of_nat n :: uint) = 0x80400000 + 4096 * n"
    using assms by (simp add: unat_word_ariths unat_of_nat)
  have d: "distinct (pages n 0x80400000)" by (rule distinct_pages) (use assms in simp)
  have p: "\<forall>v\<in>set (pages n 0x80400000). page_ok (kend ?s) v \<and> v \<notin> set []"
  proof
    fix v assume "v \<in> set (pages n 0x80400000)"
    then obtain i where "i < n" "unat v = 0x80400000 + 4096 * i"
      using set_pages [of "0x80400000" n] assms by auto
    then show "page_ok (kend ?s) v \<and> v \<notin> set []"
      using assms
      by (auto simp: page_ok_def word_le_nat_alt word_less_nat_alt word_unat_eq_iff unat_mod unat_sub_if')

  qed
  have "kmem_inv ?s []" by (simp add: kmem_inv_def)
  from freerange_from_inv [OF this d p, where vend = "0x80400000 + 4096 * of_nat n"]
  show "kmem_inv (pool n) (rev (pages n 0x80400000))" "kend (pool n) = 0x80200000"
    using assms u by (auto simp: pool_def ok_iff)
qed

lemma length_pages [simp]: "length (pages n p) = n"
  by (induction n arbitrary: p) simp_all

lemma fresh_exists:
  assumes "n < 4096"
  obtains s :: kmem_state and d xs where "pt_inv d s xs" "length xs = n" "\<forall>v. pte d v s = 0"
proof -
  have k: "kmem_inv (pool (Suc n)) (rev (pages (Suc n) 0x80400000))" by (rule pool_inv) (use assms in simp)
  obtain d xs where e: "rev (pages (Suc n) 0x80400000) = d # xs"
    by (cases "rev (pages (Suc n) 0x80400000)") auto
  have "length (d # xs) = Suc n" unfolding e [symmetric] by simp
  then have "length xs = n" by simp
  then show thesis using fresh_dir [OF k [unfolded e]] that by blast
qed

lemma flag_bits:
  "x AND PTE_P = 0 \<longleftrightarrow> \<not> bit x 0" "x AND PTE_W = 0 \<longleftrightarrow> \<not> bit x 1" "x AND PTE_U = 0 \<longleftrightarrow> \<not> bit x 2"
proof -
  have e: "PTE_P = 2 ^ 0" "PTE_W = 2 ^ 1" "PTE_U = 2 ^ 2" by (simp_all add: PTE_P_def PTE_W_def PTE_U_def)
  show "x AND PTE_P = 0 \<longleftrightarrow> \<not> bit x 0" unfolding e by (rule and_exp_eq_0_iff_not_bit)
  show "x AND PTE_W = 0 \<longleftrightarrow> \<not> bit x 1" unfolding e by (rule and_exp_eq_0_iff_not_bit)
  show "x AND PTE_U = 0 \<longleftrightarrow> \<not> bit x 2" unfolding e by (rule and_exp_eq_0_iff_not_bit)
qed

lemma map_entry_bit:
  assumes "a mod 4096 = 0" "pa mod 4096 = 0" "n < 12"
  shows "bit (map_entry a pa perm v) n \<longleftrightarrow> bit perm n \<or> n = 0"
proof -
  have al: "(pa + PGROUNDDOWN (v - a)) mod 4096 = 0"
    using aligned_add_iff [OF aligned_PGROUNDDOWN] assms(2) by simp
  then have "\<not> bit (pa + PGROUNDDOWN (v - a)) n" using aligned_bit [OF al, of n] assms(3) by auto
  then show ?thesis by (simp add: map_entry_def bit_or_iff PTE_P_def bit_1_iff)
qed

lemma map_entry_flags:
  assumes "a mod 4096 = 0" "pa mod 4096 = 0" "perm < 4096"
  shows "PTE_FLAGS (map_entry a pa perm v) = perm OR PTE_P"
proof -
  have "bit (PTE_FLAGS (map_entry a pa perm v)) n \<longleftrightarrow> bit (perm OR PTE_P) n" for n
    using map_entry_bit [OF assms(1,2), of n perm v] small_bit [OF assms(3), of n]
    by (auto simp: PTE_FLAGS_def bit_offset bit_or_iff PTE_P_def bit_1_iff)
  then show ?thesis by (simp add: bit_eq_iff)
qed

section \<open>Properties\<close>

text \<open>
  C7: \<open>mappages\<close> (vm.c) maps a range of \<open>sz\<close> > 0 bytes of virtual addresses, which need not start or end on a page boundary, to
  consecutive physical pages from the page address \<open>pa\<close>. If no page that meets the range is mapped yet (the code panics
  on one that is), it returns 0 and afterwards the processor translates exactly the addresses on these pages
  to the physical range, with the access rights \<open>perm\<close>, and all other addresses as before; or it returns \<open>-1\<close> because the allocator has no
  page left for a page table, which cannot happen with more than 1024 free pages.
\<close>

theorem mappages_translates:
  assumes "pt_inv pgdir s xs" "0 < sz" "unat (va AND 0xFFF) + unat sz \<le> 2 ^ 32"
    and "pa mod 4096 = 0" "perm < 4096"
    and "\<forall>v. unat (v - PGROUNDDOWN va) < 4096 * npages va sz \<longrightarrow> translate pgdir v s = None"
  shows "ok (mappages pgdir va sz pa perm s) (\<lambda>r s'. \<exists>xs'. pt_inv pgdir s' xs' \<and>
           (r = 0 \<and> (\<forall>v. if unat (v - PGROUNDDOWN va) < 4096 * npages va sz
                       then translate pgdir v s' = Some (pa + (v - PGROUNDDOWN va)) \<and> PTE_FLAGS (pte pgdir v s') = perm OR PTE_P
                       else translate pgdir v s' = translate pgdir v s \<and> pte pgdir v s' = pte pgdir v s) \<or>
            r = - 1 \<and> xs' = [] \<and> length xs \<le> 1024))"
proof -
  have np: "\<forall>v. unat (v - PGROUNDDOWN va) < 4096 * npages va sz \<longrightarrow> pte pgdir v s AND PTE_P = 0"
    using assms(6) by (auto simp: translate_pte split: if_splits)
  have full: "length xs \<le> 1024" if "vstep pgdir s xs s' []" for s'
    using vstep_nomem [OF assms(1) that] budget_pos [of xs pgdir s] by simp
  show ?thesis
    using mappages_ok [OF assms(1-3) np, of pa perm]
  proof (rule ok_mono, elim exE conjE)
    fix r s' xs' n
    assume v: "vstep pgdir s xs s' xs'" and m: "mapped (PGROUNDDOWN va) n pa perm pgdir s s'"
      and r: "r = 0 \<and> n = npages va sz \<or> r = - 1 \<and> n < npages va sz \<and> xs' = []"
    have "pt_inv pgdir s' xs'" using v by (simp add: vstep_def)
    moreover have "if unat (w - PGROUNDDOWN va) < 4096 * n
        then translate pgdir w s' = Some (pa + (w - PGROUNDDOWN va)) \<and> PTE_FLAGS (pte pgdir w s') = perm OR PTE_P
        else translate pgdir w s' = translate pgdir w s \<and> pte pgdir w s' = pte pgdir w s" for w
      using m translate_mapped [OF m aligned_PGROUNDDOWN assms(4,5)] map_entry_flags [OF aligned_PGROUNDDOWN assms(4,5)]
      by (simp add: mapped_def)
    ultimately show "\<exists>xs'. pt_inv pgdir s' xs' \<and>
           (r = 0 \<and> (\<forall>v. if unat (v - PGROUNDDOWN va) < 4096 * npages va sz
                       then translate pgdir v s' = Some (pa + (v - PGROUNDDOWN va)) \<and> PTE_FLAGS (pte pgdir v s') = perm OR PTE_P
                       else translate pgdir v s' = translate pgdir v s \<and> pte pgdir v s' = pte pgdir v s) \<or>
            r = - 1 \<and> xs' = [] \<and> length xs \<le> 1024)"
      using r v full by blast
  qed
qed

theorem mappages_translates_witness:
  "\<exists>(s :: kmem_state) d. ok (mappages d 0x1234 0x10 0x5000 PTE_W s) (\<lambda>r s'. r = 0 \<and>
     translate d 0x1238 s' = Some 0x5238 \<and> PTE_FLAGS (pte d 0x1238 s') = 3 \<and> translate d 0x3000 s' = None)"
proof -
  obtain s :: kmem_state and d xs where s: "pt_inv d s xs" "length xs = 1025" "\<forall>v. pte d v s = 0"
    by (rule fresh_exists [of 1025]) simp_all
  have n: "\<forall>v. translate d v s = None" using s(3) by (simp add: translate_pte)
  have c: "PGROUNDDOWN 0x1234 = 0x1000" "npages 0x1234 0x10 = 1"
    by (simp_all add: PGROUNDDOWN_def PGSIZE_def npages_def)
  have "ok (mappages d 0x1234 0x10 0x5000 PTE_W s) (\<lambda>r s'. \<exists>xs'. pt_inv d s' xs' \<and>
           (r = 0 \<and> (\<forall>v. if unat (v - PGROUNDDOWN 0x1234) < 4096 * npages 0x1234 0x10
                       then translate d v s' = Some (0x5000 + (v - PGROUNDDOWN 0x1234)) \<and> PTE_FLAGS (pte d v s') = PTE_W OR PTE_P
                       else translate d v s' = translate d v s \<and> pte d v s' = pte d v s) \<or>
            r = - 1 \<and> xs' = [] \<and> length xs \<le> 1024))"
    by (rule mappages_translates [OF s(1)]) (use n in \<open>simp_all add: PTE_W_def\<close>)
  then have "ok (mappages d 0x1234 0x10 0x5000 PTE_W s) (\<lambda>r s'. r = 0 \<and>
      translate d 0x1238 s' = Some 0x5238 \<and> PTE_FLAGS (pte d 0x1238 s') = 3 \<and> translate d 0x3000 s' = None)"
  proof (rule ok_mono, elim exE conjE disjE)
    fix r s' xs'
    assume r: "r = 0" and v: "\<forall>v. if unat (v - PGROUNDDOWN 0x1234) < 4096 * npages 0x1234 0x10
        then translate d v s' = Some (0x5000 + (v - PGROUNDDOWN 0x1234)) \<and> PTE_FLAGS (pte d v s') = PTE_W OR PTE_P
        else translate d v s' = translate d v s \<and> pte d v s' = pte d v s"
    show "r = 0 \<and> translate d 0x1238 s' = Some 0x5238 \<and> PTE_FLAGS (pte d 0x1238 s') = 3 \<and> translate d 0x3000 s' = None"
      using r v [rule_format, of "0x1238"] v [rule_format, of "0x3000"] n by (simp add: c PTE_W_def PTE_P_def)
  qed (use s(2) in simp)
  then show ?thesis by blast
qed

lemma kvm_translate:
  assumes d: "data mod 4096 = 0" "KERNLINK < data" "data < p2v PHYSTOP" and e: "\<forall>v. pte p v s' = kvm_entry data v"
  shows "translate p v s' = kvm_map v" "pte p v s' AND PTE_U = 0"
    "pte p v s' AND PTE_W \<noteq> 0 \<longleftrightarrow> kvm_map v \<noteq> None \<and> \<not> (KERNLINK \<le> v \<and> v < data)"
proof -
  note c = KERNLINK_def EXTMEM_def DEVSPACE_def layout_defs
  have al: "EXTMEM mod 4096 = 0" "(0 :: uint) mod 4096 = 0" "v2p data mod 4096 = 0" "PTE_W < 4096" "(0 :: uint) < 4096"
    using v2p_aligned [OF d(1)] by (simp_all add: c PTE_W_def)
  note z = kmap_sizes [OF d]
  note A = map_entry_addr [OF z(3) al(2,4)] map_entry_addr [OF z(4) al(1,5)]
    map_entry_addr [OF d(1) al(3,4)] map_entry_addr [OF z(5,5) al(4)]
  note F = map_entry_bit [OF z(3) al(2)] map_entry_bit [OF z(4) al(1)] map_entry_bit [OF d(1) al(3)] map_entry_bit [OF z(5,5)]
  have ord: "KERNBASE \<le> KERNLINK" "p2v PHYSTOP \<le> DEVSPACE" by (simp_all add: c)
  have "EXTMEM + (v - KERNLINK) = v2p v" "v2p data + (v - data) = v2p v" "0 + (v - KERNBASE) = v2p v" for v
    by (simp_all add: v2p_def KERNLINK_def)
  note A' = A [unfolded this]
  show "translate p v s' = kvm_map v"
    using e ord d(2,3) by (auto simp: translate_pte kvm_map_def kvm_entry_def A' map_entry_present)
  show "pte p v s' AND PTE_U = 0"
    unfolding flag_bits using e by (simp add: kvm_entry_def F PTE_W_def bit_simps)
  show "pte p v s' AND PTE_W \<noteq> 0 \<longleftrightarrow> kvm_map v \<noteq> None \<and> \<not> (KERNLINK \<le> v \<and> v < data)"
    unfolding flag_bits using e ord d(2,3) by (auto simp: kvm_map_def kvm_entry_def F PTE_W_def bit_simps)
qed

text \<open>
  C8: \<open>setupkvm\<close> (vm.c) builds exactly the kernel memory map that the comment on \<open>kmap\<close> describes: \<open>KERNBASE\<close> up
  to \<open>KERNBASE+PHYSTOP\<close> is mapped to physical memory from 0, the device space at the top of the address
  space to itself, and nothing else is mapped. No entry is accessible from user mode, and the kernel's text and
  read-only data, and only they, are not writable. It takes 66 free pages, of which the directory and
  its 64 tables use 65; \<open>kinit1\<close> leaves many more when \<open>main\<close> builds the first address space. The linker's symbol \<open>data\<close> is page aligned and inside the mapped memory.
\<close>

theorem setupkvm_memory_map:
  assumes "kmem_inv s xs" "65 < length xs" "data mod 4096 = 0" "KERNLINK < data" "data < p2v PHYSTOP"
  shows "ok (setupkvm data s) (\<lambda>d s'. d \<noteq> 0 \<and> (\<forall>v. translate d v s' = kvm_map v) \<and>
           (\<forall>v. pte d v s' AND PTE_U = 0) \<and>
           (\<forall>v. pte d v s' AND PTE_W \<noteq> 0 \<longleftrightarrow> kvm_map v \<noteq> None \<and> \<not> (KERNLINK \<le> v \<and> v < data)))"
proof -
  obtain p ys where xs: "xs = p # ys" using assms(2) by (cases xs) auto
  have len: "64 < length ys" using assms(2) by (simp add: xs)
  obtain s' zs where s': "setupkvm data s = Ok p s'"
      "vstep p (mzero_page p (s\<lparr>kmem_freelist := mload s p\<rparr>)) ys s' zs" "\<forall>v. pte p v s' = kvm_entry data v"
    by (rule setupkvm_ok [OF assms(1) [unfolded xs] len assms(3-5)])
  have "p \<noteq> 0" using assms(1) by (simp add: xs kmem_inv_def)
  with s'(1) show ?thesis using kvm_translate [OF assms(3-5) s'(3)] by simp
qed

theorem setupkvm_memory_map_witness:
  "ok (setupkvm 0x80108000 (pool 66)) (\<lambda>d s'. translate d 0x80100004 s' = Some 0x100004 \<and>
     translate d 0xFEC00000 s' = Some 0xFEC00000 \<and> translate d 0x1000 s' = None)"
proof -
  have k: "kmem_inv (pool 66) (rev (pages 66 0x80400000))" by (rule pool_inv) simp
  have "ok (setupkvm 0x80108000 (pool 66)) (\<lambda>d s'. d \<noteq> 0 \<and> (\<forall>v. translate d v s' = kvm_map v) \<and>
      (\<forall>v. pte d v s' AND PTE_U = 0) \<and>
      (\<forall>v. pte d v s' AND PTE_W \<noteq> 0 \<longleftrightarrow> kvm_map v \<noteq> None \<and> \<not> (KERNLINK \<le> v \<and> v < 0x80108000)))"
    by (rule setupkvm_memory_map [OF k]) (simp_all add: KERNLINK_def EXTMEM_def layout_defs)
  then show ?thesis
    by (rule ok_mono) (simp add: kvm_map_def KERNLINK_def EXTMEM_def DEVSPACE_def layout_defs)
qed

end
