(* ===== verification/Uspace.thy ===== *)
theory Uspace
  imports Paging
begin

text \<open>
  The user part of an address space: the pages that are mapped below \<open>KERNBASE\<close>, the frames they are on, the invariant
  \<open>uvm_inv\<close> (no frame is mapped twice, free, or used for a table) and \<open>umem\<close>, the bytes that the addresses are mapped to. What user code may do is decided by
  the access rights: \<open>uread\<close> is what it reads at an address (\<open>None\<close> is a page fault), \<open>uwrite\<close> where it may write.
\<close>

section \<open>An address space\<close>

definition upages :: "uint \<Rightarrow> 'a kmem_state_scheme \<Rightarrow> uint set" where
  "upages pgdir s = {v. v < KERNBASE \<and> PGROUNDDOWN v = v \<and> pte pgdir v s AND PTE_P \<noteq> 0}"

definition frame :: "uint \<Rightarrow> uint \<Rightarrow> 'a kmem_state_scheme \<Rightarrow> uint" where
  "frame pgdir v s = p2v (PTE_ADDR (pte pgdir v s))"

definition frames :: "uint \<Rightarrow> 'a kmem_state_scheme \<Rightarrow> uint set" where
  "frames pgdir s = (\<lambda>v. frame pgdir v s) ` upages pgdir s"

definition uvm_inv :: "uint \<Rightarrow> 'a kmem_state_scheme \<Rightarrow> uint list \<Rightarrow> bool" where
  "uvm_inv pgdir s xs \<longleftrightarrow> pt_inv pgdir s xs \<and> KERNBASE < kend s \<and> (\<forall>f\<in>frames pgdir s. page_ok (kend s) f) \<and>
     inj_on (\<lambda>v. frame pgdir v s) (upages pgdir s) \<and> frames pgdir s \<inter> (own pgdir s \<union> set xs) = {}"

abbreviation aspace :: "uint \<Rightarrow> 'a kmem_state_scheme \<Rightarrow> uint set" where
  "aspace pgdir s \<equiv> own pgdir s \<union> frames pgdir s"

definition umem :: "uint \<Rightarrow> 'a kmem_state_scheme \<Rightarrow> uint \<Rightarrow> uchar option" where
  "umem pgdir s va = map_option (\<lambda>pa. kmem_mem s (p2v pa)) (translate pgdir va s)"

text \<open>The processor grants an access if the entries of both levels do.\<close>

definition uread :: "uint \<Rightarrow> 'a kmem_state_scheme \<Rightarrow> uint \<Rightarrow> uchar option" where
  "uread pgdir s va = (if pde pgdir (PDX va) s AND pte pgdir va s AND PTE_U = 0 then None else umem pgdir s va)"

definition uwrite :: "uint \<Rightarrow> 'a kmem_state_scheme \<Rightarrow> uint \<Rightarrow> bool" where
  "uwrite pgdir s va \<longleftrightarrow> uread pgdir s va \<noteq> None \<and> pde pgdir (PDX va) s AND pte pgdir va s AND PTE_W \<noteq> 0"

definition ustep :: "uint \<Rightarrow> 'a kmem_state_scheme \<Rightarrow> uint list \<Rightarrow> 'a kmem_state_scheme \<Rightarrow> uint list \<Rightarrow> bool" where
  "ustep pgdir s xs s' xs' \<longleftrightarrow> uvm_inv pgdir s' xs' \<and> only_mem s s' \<and>
     aspace pgdir s' \<union> set xs' = aspace pgdir s \<union> set xs \<and> own pgdir s' \<union> set xs' \<subseteq> own pgdir s \<union> set xs \<and>
     mem_same (own pgdir s \<union> set xs) (kmem_mem s) (kmem_mem s')"

lemma ustep_refl: "uvm_inv pgdir s xs \<Longrightarrow> ustep pgdir s xs s xs"
  by (simp add: ustep_def)

lemma ustep_trans:
  assumes "ustep pgdir s xs s' xs'" "ustep pgdir s' xs' s'' xs''"
  shows "ustep pgdir s xs s'' xs''"
proof -
  have "mem_same (own pgdir s \<union> set xs) (kmem_mem s) (kmem_mem s'')"
    using assms unfolding ustep_def by (blast intro: mem_same_trans)
  with assms show ?thesis
    unfolding ustep_def by (blast intro: only_mem_trans)
qed

lemma pte_page: "pte pgdir (PGROUNDDOWN v) s = pte pgdir v s"
proof -
  have "PGROUNDDOWN (PGROUNDDOWN v) = PGROUNDDOWN v"
    using aligned_PGROUNDDOWN [of v] by (simp add: aligned_page)
  then have "PDX (PGROUNDDOWN v) = PDX v" "PTX (PGROUNDDOWN v) = PTX v"
    by (simp_all add: same_page_iff)
  then show ?thesis by (simp add: pte_def)
qed

lemma PGROUNDDOWN_le: "PGROUNDDOWN v \<le> v"
  by (simp add: PGROUNDDOWN_def word_and_le2)

text \<open>A byte of user memory lies on the frame of its page.\<close>

lemma umem_frame:
  "umem pgdir s v = (if pte pgdir v s AND PTE_P = 0 then None
     else Some (kmem_mem s (frame pgdir v s + (v AND 0xFFF))))"
proof -
  have "PTE_ADDR (pte pgdir v s) OR (v AND 0xFFF) = PTE_ADDR (pte pgdir v s) + (v AND 0xFFF)"
    by (rule page_or [OF _ offset_less]) (simp add: PTE_ADDR_page aligned_PGROUNDDOWN)
  then show ?thesis by (simp add: umem_def translate_pte frame_def p2v_def algebra_simps)
qed

lemma dir_rights: "\<lbrakk>pt_inv pgdir s xs; i \<in> dirs pgdir s\<rbrakk> \<Longrightarrow> bit (pde pgdir i s) 1 \<and> bit (pde pgdir i s) 2"
proof -
  assume "pt_inv pgdir s xs" "i \<in> dirs pgdir s"
  then have "bit (pde pgdir i s AND 7) 1" "bit (pde pgdir i s AND 7) 2" by (simp_all add: pt_inv_def bit_numeral_rec)
  then show ?thesis by (simp_all add: bit_and_iff)
qed

text \<open>In a well-formed address space the rights are those of the table entry.\<close>

lemma user_rights:
  assumes "pt_inv pgdir s xs"
  shows "uread pgdir s v = (if bit (pte pgdir v s) 2 then umem pgdir s v else None)"
    "uwrite pgdir s v \<longleftrightarrow> bit (pte pgdir v s) 2 \<and> bit (pte pgdir v s) 1 \<and> umem pgdir s v \<noteq> None"
proof -
  have e: "bit (pde pgdir (PDX v) s AND pte pgdir v s) n \<longleftrightarrow> bit (pte pgdir v s) n" if "n = 1 \<or> n = 2" for n
    using that dir_rights [OF assms, of "PDX v"] by (auto simp: bit_and_iff pte_def)
  have "uread pgdir s v = (if (pde pgdir (PDX v) s AND pte pgdir v s) AND PTE_U = 0 then None else umem pgdir s v)"
    by (simp add: uread_def and.assoc)
  then show r: "uread pgdir s v = (if bit (pte pgdir v s) 2 then umem pgdir s v else None)"
    by (simp only: flag_bits e simp_thms) simp
  have "uwrite pgdir s v \<longleftrightarrow> uread pgdir s v \<noteq> None \<and> (pde pgdir (PDX v) s AND pte pgdir v s) AND PTE_W \<noteq> 0"
    by (simp add: uwrite_def and.assoc)
  then show "uwrite pgdir s v \<longleftrightarrow> bit (pte pgdir v s) 2 \<and> bit (pte pgdir v s) 1 \<and> umem pgdir s v \<noteq> None"
    unfolding flag_bits r by (auto simp: e)
qed

text \<open>What there is to know of an address: the byte, what user code reads there, whether it may write there.\<close>

definition uview :: "uint \<Rightarrow> 'a kmem_state_scheme \<Rightarrow> uint \<Rightarrow> uchar option \<times> uchar option \<times> bool" where
  "uview pgdir s v = (umem pgdir s v, uread pgdir s v, uwrite pgdir s v)"

lemma uview_flags:
  assumes "pt_inv d s' ys" "pt_inv pgdir s xs" "umem d s' v = umem pgdir s v" "PTE_FLAGS (pte d v s') = PTE_FLAGS (pte pgdir v s)"
  shows "uview d s' v = uview pgdir s v"
proof -
  have "bit (PTE_FLAGS (pte d v s')) n = bit (PTE_FLAGS (pte pgdir v s)) n" for n using assms(4) by simp
  from this [of 1] this [of 2] show ?thesis
    by (simp add: PTE_FLAGS_def bit_offset uview_def user_rights [OF assms(1)] user_rights [OF assms(2)] assms(3))
qed

lemma uview_unmapped:
  assumes "pt_inv d s' ys" "umem d s' v = None"
  shows "uview d s' v = (None, None, False)"
  by (simp add: uview_def user_rights [OF assms(1)] assms(2))

lemma frame_aligned: "frame pgdir v s mod 4096 = 0"
  using aligned_add_iff [of KERNBASE "PTE_ADDR (pte pgdir v s)"]
  by (simp add: frame_def p2v_def PTE_ADDR_page aligned_PGROUNDDOWN KERNBASE_def)

lemma frame_byte: "PGROUNDDOWN (frame pgdir v s + (v AND 0xFFF)) = frame pgdir v s"
  by (rule page_plus [OF frame_aligned offset_less])

lemma frame_in_frames:
  assumes "v < KERNBASE" "pte pgdir v s AND PTE_P \<noteq> 0"
  shows "frame pgdir v s \<in> frames pgdir s"
proof -
  have "PGROUNDDOWN v \<in> upages pgdir s"
    using assms PGROUNDDOWN_le [of v] aligned_PGROUNDDOWN [of v]
    by (auto simp: upages_def pte_page aligned_page)
  moreover have "frame pgdir (PGROUNDDOWN v) s = frame pgdir v s" by (simp add: frame_def pte_page)
  ultimately show ?thesis by (auto simp: frames_def intro: rev_image_eqI)
qed

text \<open>User memory does not change while only other pages do.\<close>

lemma umem_same:
  assumes "mem_same P (kmem_mem s) (kmem_mem s')" "frames pgdir s \<inter> P = {}"
    and "pte pgdir v s' = pte pgdir v s" "v < KERNBASE"
  shows "umem pgdir s' v = umem pgdir s v"
proof (cases "pte pgdir v s AND PTE_P = 0")
  case False
  then have "frame pgdir v s \<notin> P" using frame_in_frames [OF assms(4)] assms(2) by auto
  then have "kmem_mem s' (frame pgdir v s + (v AND 0xFFF)) = kmem_mem s (frame pgdir v s + (v AND 0xFFF))"
    using assms(1) by (simp add: mem_same_def frame_byte)
  moreover have "frame pgdir v s' = frame pgdir v s" using assms(3) by (simp add: frame_def)
  ultimately show ?thesis using assms(3) by (simp add: umem_frame)
qed (use assms(3) in \<open>simp add: umem_frame\<close>)

lemma umem_ustep:
  assumes "uvm_inv pgdir s xs" "ustep pgdir s xs s' xs'" "pte pgdir v s' = pte pgdir v s" "v < KERNBASE"
  shows "umem pgdir s' v = umem pgdir s v"
  by (rule umem_same [OF _ _ assms(3,4)]) (use assms(1,2) in \<open>auto simp: ustep_def uvm_inv_def\<close>)


section \<open>Adding a page\<close>

definition take_page :: "uint \<Rightarrow> memory \<Rightarrow> 'a kmem_state_scheme \<Rightarrow> 'a kmem_state_scheme" where
  "take_page f m s = s\<lparr>kmem_mem := m, kmem_freelist := mload s f\<rparr>"

lemma take_page_mem: "kmem_mem (take_page f m s) = m"
  by (simp add: take_page_def)

lemma take_page_pt:
  assumes inv: "pt_inv pgdir s (f # xs)" and m: "mem_same {f} (kmem_mem s) m"
  shows "pt_inv pgdir (take_page f m s) xs" "pte pgdir v (take_page f m s) = pte pgdir v s"
    "own pgdir (take_page f m s) = own pgdir s"
proof -
  let ?s = "take_page f m s"
  have f: "f \<notin> own pgdir s" "f \<notin> set xs" using inv by (auto simp: pt_inv_def kmem_inv_def)
  have ms: "mem_same {f} (kmem_mem s) (kmem_mem ?s)" using m by (simp add: take_page_def)
  have al: "\<forall>v\<in>own pgdir s. v mod 4096 = 0" using pt_inv_page [OF inv] by blast
  have d: "own pgdir s \<inter> {f} = {}" using f by simp
  note same = pt_same [OF ms d al]
  show o: "own pgdir ?s = own pgdir s" by (rule same(4))
  show "pte pgdir v ?s = pte pgdir v s" by (rule same(5))
  have k: "kend ?s = kend s" "kmem_freelist ?s = mload s f" "kmem_mem ?s = m" by (simp_all add: take_page_def)
  have "Flist m a xs = Flist (kmem_mem s) a xs" for a
    by (rule Flist_mem_same [OF m]) (use inv f in \<open>auto simp: pt_inv_def kmem_inv_def page_ok_def\<close>)
  then have "kmem_inv ?s xs" using inv by (simp add: pt_inv_def kmem_inv_def k)
  then show "pt_inv pgdir ?s xs"
    by (rule pt_inv_same [OF inv ms d]) (use inv k in \<open>auto simp: pt_inv_def\<close>)
qed

lemma user_page:
  assumes inv: "uvm_inv pgdir s (f # xs)" and len: "1026 < budget pgdir s (f # xs)"
    and a: "a mod 4096 = 0" "a < KERNBASE" "pte pgdir a s AND PTE_P = 0"
    and m: "mem_same {f} (kmem_mem s) m" and perm: "perm < 4096"
  obtains s' xs' where "mappages pgdir a PGSIZE (v2p f) perm (take_page f m s) = Ok 0 s'"
    "ustep pgdir s (f # xs) s' xs'"
    "\<forall>v. pte pgdir v s' = (if PGROUNDDOWN v = a then v2p f OR perm OR PTE_P else pte pgdir v s)"
    "mem_same (own pgdir s \<union> set xs) m (kmem_mem s')" "budget pgdir s' xs' + 1 = budget pgdir s (f # xs)"
proof -
  let ?s = "take_page f m s"
  have pt: "pt_inv pgdir s (f # xs)" using inv by (simp add: uvm_inv_def)
  note tp = take_page_pt [OF pt m]
  have len': "Suc (card all_dirs) < budget pgdir ?s xs" using len by (simp add: budget_def tp(3) card_all_dirs)
  have ds: "dirs pgdir ?s \<subseteq> all_dirs" by (auto simp: dirs_def)
  have r: "v - a < PGSIZE \<longleftrightarrow> PGROUNDDOWN v = a" for v using in_page_iff [OF a(1)] by (simp add: PGSIZE_def)
  have np: "pte pgdir v ?s AND PTE_P = 0 \<and> PDX v \<in> all_dirs" if "v - a < PGSIZE" for v
    using that a(3) pte_page [of pgdir v s] PDX_less unfolding r tp(2) by simp
  obtain s' xs' where s': "mappages pgdir a PGSIZE (v2p f) perm ?s = Ok 0 s'" "vstep pgdir ?s xs s' xs'"
    "\<forall>v. pte pgdir v s' = (if v - a < PGSIZE then map_entry a (v2p f) perm v else pte pgdir v ?s)"
    by (rule mappages_aligned [where pa = "v2p f" and perm = perm, OF tp(1) len' vstep_refl [OF tp(1)] ds a(1) _ _ np])
      (simp_all add: PGSIZE_def)
  have pte': "pte pgdir v s' = (if PGROUNDDOWN v = a then v2p f OR perm OR PTE_P else pte pgdir v s)" for v
    using s'(3) map_entry_first [OF a(1)] unfolding r tp(2) by auto
  have f: "f \<notin> own pgdir s" "f \<notin> set xs" "f \<notin> frames pgdir s" "page_ok (kend s) f" "f mod 4096 = 0"
    using inv by (auto simp: uvm_inv_def pt_inv_def kmem_inv_def page_ok_def)
  have fa: "frame pgdir a s' = f"
    using pte' [of a] a(1) perm v2p_aligned [OF f(5)]
    by (simp add: frame_def entry_addr aligned_page [symmetric] p2v_def v2p_def)
  have fo: "frame pgdir v s' = frame pgdir v s" if "v \<in> upages pgdir s" for v
    using that a(3) pte' [of v] by (auto simp: frame_def upages_def)
  have up: "upages pgdir s' = insert a (upages pgdir s)"
    using a pte' by (auto simp: upages_def entry_present2 aligned_page)
  have fr: "frames pgdir s' = insert f (frames pgdir s)"
    unfolding frames_def up by (simp add: fa fo cong: image_cong)
  have ow: "own pgdir s' \<union> set xs' = own pgdir s \<union> set xs" and ke: "kend s' = kend s"
    using s'(2) only_mem_kend [of ?s s'] by (auto simp: vstep_def tp(3)) (simp add: take_page_def)
  have "inj_on (\<lambda>v. frame pgdir v s') (upages pgdir s)"
    using inv inj_on_cong [of "upages pgdir s" "\<lambda>v. frame pgdir v s'" "\<lambda>v. frame pgdir v s"] fo
    by (simp add: uvm_inv_def)
  moreover have "frame pgdir a s' \<notin> (\<lambda>v. frame pgdir v s') ` upages pgdir s"
    using f(3) fo fa by (auto simp: frames_def)
  ultimately have "uvm_inv pgdir s' xs'"
    using inv s'(2) f unfolding uvm_inv_def vstep_def fr ow up ke by auto
  moreover have om: "only_mem s s'"
    using s'(2) only_mem_trans [of s ?s s'] by (simp add: vstep_def take_page_def only_mem_def)
  moreover have ms: "mem_same (own pgdir s \<union> set xs) m (kmem_mem s')"
    using s'(2) take_page_mem [of f m s] by (simp add: vstep_def tp(3))
  moreover have "mem_same (own pgdir s \<union> set (f # xs)) (kmem_mem s) (kmem_mem s')"
    by (rule mem_same_trans [OF mem_same_mono [OF m] ms]) auto
  ultimately have "ustep pgdir s (f # xs) s' xs'"
    using ow fr by (auto simp: ustep_def)
  moreover have "budget pgdir s' xs' + 1 = budget pgdir s (f # xs)"
    using vstep_budget [OF tp(1) s'(2)] by (simp add: budget_def tp(3))
  ultimately show thesis using s'(1) pte' ms by (intro that [of s' xs']) auto
qed


section \<open>An address space next to changes elsewhere\<close>

lemma uvm_same:
  assumes inv: "uvm_inv pgdir s xs" and m: "mem_same P (kmem_mem s) (kmem_mem s')" "aspace pgdir s \<inter> P = {}"
  shows "pte pgdir v s' = pte pgdir v s" "own pgdir s' = own pgdir s" "frames pgdir s' = frames pgdir s"
    "v < KERNBASE \<Longrightarrow> umem pgdir s' v = umem pgdir s v"
    "\<lbrakk>kmem_inv s' xs'; kend s' = kend s; aspace pgdir s \<inter> set xs' = {}\<rbrakk> \<Longrightarrow> uvm_inv pgdir s' xs'"
proof -
  have pt: "pt_inv pgdir s xs" using inv by (simp add: uvm_inv_def)
  have al: "\<forall>v\<in>own pgdir s. v mod 4096 = 0" using pt_inv_page [OF pt] by blast
  have d: "own pgdir s \<inter> P = {}" using m(2) by auto
  note same = pt_same [OF m(1) d al]
  show p: "pte pgdir v s' = pte pgdir v s" for v by (rule same(5))
  show o: "own pgdir s' = own pgdir s" by (rule same(4))
  have u: "upages pgdir s' = upages pgdir s" and f: "frame pgdir v s' = frame pgdir v s" for v
    by (simp_all add: upages_def frame_def p)
  then show fr: "frames pgdir s' = frames pgdir s" by (simp add: frames_def)
  show "v < KERNBASE \<Longrightarrow> umem pgdir s' v = umem pgdir s v"
    by (rule umem_same [OF m(1) _ p]) (use m(2) in auto)
  show "uvm_inv pgdir s' xs'" if "kmem_inv s' xs'" "kend s' = kend s" "aspace pgdir s \<inter> set xs' = {}"
    using inv that pt_inv_same [OF pt m(1) d that(1,2)] by (auto simp: uvm_inv_def u f fr o)
qed

end
