(* ===== verification/Uvm.thy ===== *)
theory Uvm
  imports Uspace
begin

text \<open>
  Growing, shrinking and freeing address spaces (\<open>allocuvm\<close>, \<open>deallocuvm\<close>, \<open>freevm\<close> in vm.c), and the address spaces that
  \<open>setupkvm\<close> creates.
\<close>

section \<open>Growing\<close>

lemma unat_PGROUNDDOWN: "unat (PGROUNDDOWN v) = 4096 * (unat v div 4096)"
proof -
  have "unat (PGROUNDDOWN v) mod 4096 = 0"
    using arg_cong [OF aligned_PGROUNDDOWN [of v], of unat] by (simp add: unat_mod)
  moreover have "unat (PGROUNDDOWN v) div 4096 = unat v div 4096"
    using arg_cong [OF page_number [of v], of unat] by (simp add: unat_div)
  ultimately show ?thesis by (metis add.right_neutral mult_div_mod_eq)
qed

lemma page_below: "PGROUNDDOWN v < KERNBASE \<Longrightarrow> v < KERNBASE"
  by (simp add: word_less_nat_alt unat_PGROUNDDOWN KERNBASE_def)

lemma page_addrs_nth:
  assumes "unat a \<le> unat b" "unat b \<le> 2 ^ 31" "k < (unat b - unat a + 4095) div 4096"
  shows "unat (a + of_nat k * PGSIZE) = unat a + 4096 * k"
proof -
  have "Suc k * 4096 \<le> unat b - unat a + 4095"
    using assms(3) by (simp add: less_eq_div_iff_mult_less_eq [symmetric] Suc_le_eq)
  then have "4096 * k < 2 ^ 32 - unat a" using assms(1,2) by simp
  then have "unat (of_nat k * PGSIZE) = 4096 * k" "unat a + 4096 * k < 2 ^ 32"
    by (simp_all add: PGSIZE_def unat_word_ariths unat_of_nat)
  then show ?thesis by (simp add: unat_word_ariths)
qed

lemma pages_between: "(b - 4096 * A + 4095) div 4096 = (b + 4095) div 4096 - (A :: nat)"
proof (cases "4096 * A \<le> b")
  case True
  then obtain c where "b = 4096 * A + c" by (auto dest: le_Suc_ex)
  then show ?thesis by (simp add: add.assoc)
next
  case False
  then have "(b + 4095) div 4096 \<le> A" by (simp add: less_Suc_eq_le [symmetric] div_less_iff_less_mult)
  with False show ?thesis by simp
qed

lemma page_addrs_props:
  assumes "a mod 4096 = 0" "unat b \<le> 2 ^ 31"
  shows "distinct (page_addrs a b)" "\<forall>p\<in>set (page_addrs a b). p mod 4096 = 0 \<and> p < b"
    "PGROUNDDOWN v \<in> set (page_addrs a b) \<longleftrightarrow> a \<le> v \<and> unat v < 4096 * ((unat b + 4095) div 4096)"
    "length (page_addrs a b) = (unat b - unat a + 4095) div 4096"
proof -
  show "length (page_addrs a b) = (unat b - unat a + 4095) div 4096" by (simp add: page_addrs_def)
  have am: "unat a mod 4096 = 0" using arg_cong [OF assms(1), of unat] by (simp add: unat_mod)
  then obtain A where A: "unat a = 4096 * A" by auto
  define n where "n = (unat b - unat a + 4095) div 4096"
  have pa: "set (page_addrs a b) = (\<lambda>k. a + of_nat k * PGSIZE) ` {..<n}"
    "page_addrs a b = map (\<lambda>k. a + of_nat k * PGSIZE) [0..<n]"
    by (simp_all add: page_addrs_def n_def lessThan_atLeast0)
  note nth = page_addrs_nth [OF _ assms(2)]
  have le: "unat a \<le> unat b" if "k < n" for k
    using that unfolding n_def by (cases "unat a \<le> unat b") simp_all
  have u: "unat (a + of_nat k * PGSIZE) = unat a + 4096 * k" if "k < n" for k
    using nth [OF le [OF that] that [unfolded n_def]] .
  have lt: "unat a + 4096 * k < unat b" if "k < n" for k
  proof -
    have "Suc k * 4096 \<le> unat b - unat a + 4095"
      using that unfolding n_def by (simp add: less_eq_div_iff_mult_less_eq [symmetric] Suc_le_eq)
    then show ?thesis using le [OF that] by simp
  qed
  have "inj_on (\<lambda>k. a + of_nat k * PGSIZE) (set [0..<n])"
  proof (rule inj_onI)
    fix x y assume xy: "x \<in> set [0..<n]" "y \<in> set [0..<n]" and e: "a + of_nat x * PGSIZE = a + of_nat y * PGSIZE"
    have "x < n" "y < n" using xy by (simp_all only: set_upt atLeastLessThan_iff)
    then have "unat a + 4096 * x = unat a + 4096 * y" using arg_cong [OF e, of unat] by (simp only: u)
    then show "x = y" by simp
  qed
  then show "distinct (page_addrs a b)" unfolding pa(2) distinct_map by simp
  show "\<forall>p\<in>set (page_addrs a b). p mod 4096 = 0 \<and> p < b"
  proof
    fix p assume "p \<in> set (page_addrs a b)"
    then obtain k where k: "k < n" "p = a + of_nat k * PGSIZE" unfolding pa(1) by blast
    then have p: "unat p = 4096 * (A + k)" using u A by simp
    then have "p mod 4096 = 0" by (simp add: word_unat_eq_iff unat_mod)
    moreover have "p < b" using lt [OF k(1)] p A by (simp add: word_less_nat_alt)
    ultimately show "p mod 4096 = 0 \<and> p < b" by blast
  qed
  show "PGROUNDDOWN v \<in> set (page_addrs a b) \<longleftrightarrow> a \<le> v \<and> unat v < 4096 * ((unat b + 4095) div 4096)"
    (is "?l \<longleftrightarrow> ?r")
  proof
    assume ?l
    then obtain k where k: "k < n" "PGROUNDDOWN v = a + of_nat k * PGSIZE" using \<open>?l\<close> unfolding pa(1) by blast
    then have "4096 * (unat v div 4096) = 4096 * A + 4096 * k"
      using u [OF k(1)] unat_PGROUNDDOWN [of v] A by simp
    then have v: "unat v div 4096 = A + k" by linarith
    have "A + k < (unat b + 4095) div 4096" using k(1) unfolding n_def A pages_between by linarith
    with v have "unat v < 4096 * ((unat b + 4095) div 4096)" by (simp add: div_less_iff_less_mult mult.commute)
    moreover have "A \<le> unat v div 4096" using v by linarith
    then have "unat a \<le> unat v" unfolding A by (simp add: less_eq_div_iff_mult_less_eq mult.commute)
    ultimately show ?r by (simp add: word_le_nat_alt)
  next
    assume r: ?r
    let ?k = "unat v div 4096 - A"
    have "A * 4096 \<le> unat v" using r A by (simp add: word_le_nat_alt)
    then have av: "A \<le> unat v div 4096" by (simp add: less_eq_div_iff_mult_less_eq)
    moreover have "unat v div 4096 < (unat b + 4095) div 4096"
      using r by (simp add: div_less_iff_less_mult mult.commute)
    ultimately have kn: "?k < n" unfolding n_def A pages_between by linarith
    have "PGROUNDDOWN v = a + of_nat ?k * PGSIZE"
    proof -
      have "unat a + 4096 * ?k = 4096 * (unat v div 4096)" using av A by simp
      then show ?thesis using u [OF kn] by (simp only: word_unat_eq_iff unat_PGROUNDDOWN)
    qed
    with kn show ?l unfolding pa(1) by blast
  qed
qed

definition user_ok :: "uint \<Rightarrow> uint \<Rightarrow> 'a kmem_state_scheme \<Rightarrow> bool" where
  "user_ok pgdir v s \<longleftrightarrow> pte pgdir v s AND 7 = 7"

lemma user_entry: "(x OR (PTE_W OR PTE_U) OR PTE_P) AND 7 = 7"
proof -
  have 7: "(7 :: uint) = mask 3" by (simp add: mask_numeral)
  have b: "bit ((PTE_W OR PTE_U) OR PTE_P) n" if "n < 3" for n
  proof -
    have "n = 0 \<or> n = 1 \<or> n = 2" using that by auto
    then show ?thesis by (auto simp: PTE_W_def PTE_U_def PTE_P_def bit_simps)
  qed
  show ?thesis
    unfolding 7 by (rule bit_word_eqI) (use b in \<open>auto simp: bit_simps\<close>)
qed

lemma user_ok_present: "user_ok pgdir v s \<Longrightarrow> pte pgdir v s AND PTE_P \<noteq> 0"
proof
  assume "user_ok pgdir v s" and *: "pte pgdir v s AND PTE_P = 0"
  then have "bit (pte pgdir v s AND 7) 0" by (simp add: user_ok_def)
  moreover have "\<not> bit (pte pgdir v s AND PTE_P) 0" using * by simp
  ultimately show False by (simp add: PTE_P_def bit_simps)
qed

lemma allocuvm_loop_ok:
  assumes "uvm_inv pgdir s xs" "distinct as" "1025 + length as < budget pgdir s xs"
    and "\<forall>a\<in>set as. a mod 4096 = 0 \<and> a < KERNBASE \<and> pte pgdir a s AND PTE_P = 0"
  shows "ok (allocuvm_loop as pgdir oldsz newsz s) (\<lambda>r s'. r = newsz \<and> (\<exists>xs'. ustep pgdir s xs s' xs' \<and>
           (\<forall>v. if PGROUNDDOWN v \<in> set as then user_ok pgdir v s' \<and> umem pgdir s' v = Some 0
                else pte pgdir v s' = pte pgdir v s)))"
  using assms
proof (induction as arbitrary: s xs)
  case Nil
  then show ?case using ustep_refl by fastforce
next
  case (Cons a as)
  have "card (own pgdir s) \<le> 1025" by (rule card_own)
  with Cons.prems(3) obtain f ys where xs: "xs = f # ys" by (cases xs) (auto simp: budget_def)
  note inv = Cons.prems(1) [unfolded xs]
  have a: "a mod 4096 = 0" "a < KERNBASE" "pte pgdir a s AND PTE_P = 0" using Cons.prems(4) by auto
  have f: "f \<notin> own pgdir s" "f \<notin> set ys" "f \<noteq> 0" "f mod 4096 = 0"
    using inv by (auto simp: uvm_inv_def pt_inv_def kmem_inv_def page_ok_def)
  let ?m = "fill (kmem_mem s) f 0 4096"
  have len: "1026 < budget pgdir s (f # ys)" using Cons.prems(3) by (simp add: xs)
  have perm: "PTE_W OR PTE_U < 4096" by (simp add: PTE_W_def PTE_U_def)
  obtain s1 ys1 where 1: "mappages pgdir a PGSIZE (v2p f) (PTE_W OR PTE_U) (take_page f ?m s) = Ok 0 s1"
    "ustep pgdir s (f # ys) s1 ys1"
    "\<forall>v. pte pgdir v s1 = (if PGROUNDDOWN v = a then v2p f OR (PTE_W OR PTE_U) OR PTE_P else pte pgdir v s)"
    "mem_same (own pgdir s \<union> set ys) ?m (kmem_mem s1)" "budget pgdir s1 ys1 + 1 = budget pgdir s (f # ys)"
    by (rule user_page [OF inv len a mem_same_fill [OF f(4)] perm])
  have k: "kalloc s = Ok f (s\<lparr>kmem_freelist := mload s f\<rparr>)"
    using inv f(3) by (simp add: kalloc_def uvm_inv_def pt_inv_def kmem_inv_def Let_def)
  have z: "mzero_page f (s\<lparr>kmem_freelist := mload s f\<rparr>) = take_page f ?m s"
    by (simp add: mzero_page_def take_page_def PGSIZE_def)
  have step: "allocuvm_loop (a # as) pgdir oldsz newsz s = allocuvm_loop as pgdir oldsz newsz s1"
    using k f(3) 1(1) by (simp add: z)
  have new: "user_ok pgdir v s1 \<and> umem pgdir s1 v = Some 0" if "PGROUNDDOWN v = a" for v
  proof -
    have p: "pte pgdir v s1 = v2p f OR (PTE_W OR PTE_U) OR PTE_P" using 1(3) that by simp
    then have u: "user_ok pgdir v s1" unfolding user_ok_def using user_entry by metis
    have fr: "frame pgdir v s1 = f"
      using entry_addr [OF v2p_aligned [OF f(4)] perm] by (simp add: frame_def p p2v_def v2p_def)
    have "PGROUNDDOWN (f + (v AND 0xFFF)) = f" by (rule page_plus [OF f(4) offset_less])
    then have "kmem_mem s1 (f + (v AND 0xFFF)) = ?m (f + (v AND 0xFFF))" "?m (f + (v AND 0xFFF)) = 0"
      using 1(4) f(1,2) by (simp_all add: mem_same_def fill_def in_page_iff [OF f(4)])
    with u fr user_ok_present [OF u] show ?thesis by (simp add: umem_frame)
  qed
  have inv1: "uvm_inv pgdir s1 ys1" using 1(2) by (simp add: ustep_def)
  have "ok (allocuvm_loop as pgdir oldsz newsz s1) (\<lambda>r s'. r = newsz \<and> (\<exists>xs'. ustep pgdir s1 ys1 s' xs' \<and>
           (\<forall>v. if PGROUNDDOWN v \<in> set as then user_ok pgdir v s' \<and> umem pgdir s' v = Some 0
                else pte pgdir v s' = pte pgdir v s1)))"
  proof (rule Cons.IH [OF inv1])
    show "distinct as" "1025 + length as < budget pgdir s1 ys1" using Cons.prems(2,3) 1(5) by (simp_all add: xs)
    show "\<forall>a\<in>set as. a mod 4096 = 0 \<and> a < KERNBASE \<and> pte pgdir a s1 AND PTE_P = 0"
      using Cons.prems(2,4) 1(3) by (auto simp: aligned_page)
  qed
  then show ?case unfolding step
  proof (rule ok_mono, elim conjE exE)
    fix r s' xs'
    assume r: "r = newsz" and u: "ustep pgdir s1 ys1 s' xs'"
      and v: "\<forall>v. if PGROUNDDOWN v \<in> set as then user_ok pgdir v s' \<and> umem pgdir s' v = Some 0
                else pte pgdir v s' = pte pgdir v s1"
    have "user_ok pgdir v s' \<and> umem pgdir s' v = Some 0" if "PGROUNDDOWN v = a" for v
    proof -
      have "pte pgdir v s' = pte pgdir v s1" using v that Cons.prems(2) by (metis distinct.simps(2))
      moreover have "v < KERNBASE" using a(2) that page_below by blast
      ultimately show ?thesis
        using new [OF that] umem_ustep [OF inv1 u] by (simp add: user_ok_def)
    qed
    with r v 1(3) show "r = newsz \<and> (\<exists>xs'. ustep pgdir s xs s' xs' \<and>
           (\<forall>v. if PGROUNDDOWN v \<in> set (a # as) then user_ok pgdir v s' \<and> umem pgdir s' v = Some 0
                else pte pgdir v s' = pte pgdir v s))"
      using ustep_trans [OF 1(2) u] unfolding xs by (metis (no_types, lifting) set_ConsD list.set_intros)
  qed
qed


section \<open>Shrinking\<close>

definition dstep :: "uint \<Rightarrow> 'a kmem_state_scheme \<Rightarrow> uint list \<Rightarrow> 'a kmem_state_scheme \<Rightarrow> uint list \<Rightarrow> bool" where
  "dstep pgdir s xs s' xs' \<longleftrightarrow> uvm_inv pgdir s' xs' \<and> only_mem s s' \<and> own pgdir s' = own pgdir s \<and>
     dirs pgdir s' = dirs pgdir s \<and>
     frames pgdir s' \<subseteq> frames pgdir s \<and> frames pgdir s' \<union> set xs' = frames pgdir s \<union> set xs \<and>
     mem_same (own pgdir s \<union> set xs \<union> (frames pgdir s - frames pgdir s')) (kmem_mem s) (kmem_mem s')"

lemma dstep_refl: "uvm_inv pgdir s xs \<Longrightarrow> dstep pgdir s xs s xs"
  by (simp add: dstep_def)

lemma dstep_trans:
  assumes "dstep pgdir s xs s' xs'" "dstep pgdir s' xs' s'' xs''"
  shows "dstep pgdir s xs s'' xs''"
proof -
  let ?P = "own pgdir s \<union> set xs \<union> (frames pgdir s - frames pgdir s'')"
  have inv: "frames pgdir s'' \<inter> set xs' = {}"
    using assms unfolding dstep_def uvm_inv_def by blast
  have 1: "mem_same ?P (kmem_mem s) (kmem_mem s')"
    by (rule mem_same_mono [of "own pgdir s \<union> set xs \<union> (frames pgdir s - frames pgdir s')"])
      (use assms in \<open>auto simp: dstep_def\<close>)
  have 2: "mem_same (own pgdir s' \<union> set xs' \<union> (frames pgdir s' - frames pgdir s'')) (kmem_mem s') (kmem_mem s'')"
    using assms(2) by (simp add: dstep_def)
  have "own pgdir s' \<union> set xs' \<union> (frames pgdir s' - frames pgdir s'') \<subseteq> ?P"
    using assms inv unfolding dstep_def uvm_inv_def by blast
  then have "mem_same ?P (kmem_mem s) (kmem_mem s'')" by (rule mem_same_trans [OF 1 2])
  with assms show ?thesis unfolding dstep_def by (auto intro: only_mem_trans)
qed

lemma kfree_only_mem: "kfree v s = Ok u t \<Longrightarrow> only_mem s t"
  by (auto simp: kfree_def only_mem_def Let_def split: if_splits)

lemma free_page:
  assumes inv: "uvm_inv pgdir s xs" and a: "a \<in> upages pgdir s"
  obtains s1 where "kfree (frame pgdir a s) s = Ok () s1"
    "dstep pgdir s xs (mstore (tab pgdir (PDX a) s + 4 * PTX a) 0 s1) (frame pgdir a s # xs)"
    "\<forall>v. pte pgdir v (mstore (tab pgdir (PDX a) s + 4 * PTX a) 0 s1) = (if PGROUNDDOWN v = a then 0 else pte pgdir v s)"
proof -
  let ?f = "frame pgdir a s"
  have pt: "pt_inv pgdir s xs" and ff: "?f \<in> frames pgdir s"
    using inv a by (auto simp: uvm_inv_def frames_def)
  have f: "page_ok (kend s) ?f" "?f \<notin> set xs" "?f \<notin> own pgdir s" "?f mod 4096 = 0"
    using inv ff frame_aligned by (auto simp: uvm_inv_def)
  obtain s1 where s1: "kfree ?f s = Ok () s1" "kmem_inv s1 (?f # xs)" "kend s1 = kend s"
    "same_outside ?f (kmem_mem s) (kmem_mem s1)"
    using kfree_inv [of s xs ?f] pt f(1,2) by (auto simp: pt_inv_def elim!: okE)
  have m1: "mem_same {?f} (kmem_mem s) (kmem_mem s1)" using s1(4) mem_same_outside [OF f(4)] by blast
  have d1: "own pgdir s \<inter> {?f} = {}" using f(3) by simp
  have al: "\<forall>v\<in>own pgdir s. v mod 4096 = 0" using pt_inv_page [OF pt] by blast
  note same = pt_same [OF m1 d1 al]
  have pt1: "pt_inv pgdir s1 (?f # xs)"
    by (rule pt_inv_same [OF pt m1 d1 s1(2,3)]) (use pt f(3) in \<open>auto simp: pt_inv_def\<close>)
  have pa: "PGROUNDDOWN a = a" "a < KERNBASE" "pte pgdir a s AND PTE_P \<noteq> 0" using a by (auto simp: upages_def)
  then have d: "PDX a \<in> dirs pgdir s" by (auto simp: pte_def split: if_splits)
  then have d': "PDX a \<in> dirs pgdir s1" by (simp add: same(2))
  have t: "tab pgdir (PDX a) s1 = tab pgdir (PDX a) s" by (rule same(3) [OF PDX_less])
  let ?s2 = "mstore (tab pgdir (PDX a) s + 4 * PTX a) 0 s1"
  note st = pte_store [OF pt1 d', where w = 0, unfolded t]
  have p2: "pte pgdir v ?s2 = (if PGROUNDDOWN v = a then 0 else pte pgdir v s)" for v
    using st(2) by (simp add: pa(1) same(5))
  have o2: "own pgdir ?s2 = own pgdir s" by (simp add: st(3) same(4))
  have u2: "upages pgdir ?s2 = upages pgdir s - {a}" using pa by (auto simp: upages_def p2)
  have fr: "frame pgdir v ?s2 = frame pgdir v s" if "v \<in> upages pgdir s - {a}" for v
    using that by (auto simp: frame_def p2 upages_def)
  have inj: "inj_on (\<lambda>v. frame pgdir v s) (upages pgdir s)" using inv by (simp add: uvm_inv_def)
  have f2: "frames pgdir ?s2 = frames pgdir s - {?f}"
  proof -
    have "frames pgdir ?s2 = (\<lambda>v. frame pgdir v s) ` (upages pgdir s - {a})"
      unfolding frames_def u2 by (rule image_cong [OF refl fr])
    also have "\<dots> = frames pgdir s - {?f}" unfolding frames_def using inj_on_image_set_diff [OF inj, of "upages pgdir s" "{a}"] a by auto
    finally show ?thesis .
  qed
  have i2: "inj_on (\<lambda>v. frame pgdir v ?s2) (upages pgdir s - {a})"
    by (rule iffD2 [OF inj_on_cong [of _ _ "\<lambda>v. frame pgdir v s"] inj_on_subset [OF inj]]) (use fr in auto)
  have v2: "pt_inv pgdir ?s2 (?f # xs)" "only_mem s1 ?s2" "mem_same (own pgdir s \<union> set (?f # xs)) (kmem_mem s1) (kmem_mem ?s2)"
    using st(1) by (auto simp: vstep_def same(4))
  have ke: "kend ?s2 = kend s" using s1(3) by (simp add: mem_mstore)
  have "uvm_inv pgdir ?s2 (?f # xs)"
    using inv v2(1) i2 unfolding uvm_inv_def u2 f2 o2 ke by auto
  moreover have "only_mem s ?s2" by (rule only_mem_trans [OF kfree_only_mem [OF s1(1)] v2(2)])
  moreover have "mem_same (own pgdir s \<union> set xs \<union> {?f}) (kmem_mem s) (kmem_mem ?s2)"
    by (rule mem_same_trans [OF mem_same_mono [OF m1] v2(3)]) auto
  moreover have "frames pgdir s - (frames pgdir s - {?f}) = {?f}" using ff by auto
  ultimately have "dstep pgdir s xs ?s2 (?f # xs)"
    using ff by (auto simp: dstep_def o2 f2 st(4) same(2))
  then show thesis using s1(1) p2 by (intro that [of s1]) auto
qed

lemma next_page_dir:
  assumes "a mod 4096 = 0" "unat a + 4096 < 2 ^ 32"
  shows "PDX (a + 4096) = PDX a \<or> unat (a + 4096) mod 0x400000 = 0"
proof -
  have "unat a mod 4096 = 0" using arg_cong [OF assms(1), of unat] by (simp add: unat_mod)
  then obtain A where A: "unat a = 4096 * A" by auto
  have u: "unat (a + 4096) = 4096 * Suc A" using assms(2) A by (simp add: unat_word_ariths)
  have "4096 * Suc A div 0x400000 = Suc A div 1024" "4096 * A div 0x400000 = A div 1024"
    using div_mult_mult1 [of 4096 "Suc A" 1024] div_mult_mult1 [of 4096 A 1024] by simp_all
  moreover have "Suc A div 1024 = A div 1024 \<or> Suc A mod 1024 = 0" by (simp add: div_Suc)
  moreover have "Suc A mod 1024 = 0 \<Longrightarrow> 4096 * Suc A mod 0x400000 = 0"
    using mult_mod_right [of 4096 "Suc A" 1024] by simp
  ultimately show ?thesis unfolding word_unat_eq_iff unat_PDX u A by metis
qed

definition cleared :: "uint \<Rightarrow> uint \<Rightarrow> uint \<Rightarrow> 'a kmem_state_scheme \<Rightarrow> 'a kmem_state_scheme \<Rightarrow> bool" where
  "cleared a b pgdir s s' \<longleftrightarrow> (\<forall>v. pte pgdir v s' =
     (if a \<le> PGROUNDDOWN v \<and> PGROUNDDOWN v < b \<and> pte pgdir v s AND PTE_P \<noteq> 0 then 0 else pte pgdir v s))"

lemma aligned_next:
  assumes "a mod 4096 = 0" "unat a + 4096 < 2 ^ 32" 
  shows "a \<le> PGROUNDDOWN v \<longleftrightarrow> PGROUNDDOWN v = a \<or> a + 4096 \<le> PGROUNDDOWN v"
proof -
  have "unat a mod 4096 = 0" using arg_cong [OF assms(1), of unat] by (simp add: unat_mod)
  then obtain A where A: "unat a = 4096 * A" by auto
  have "unat (a + 4096) = 4096 * Suc A" using assms(2) A by (simp add: unat_word_ariths)
  then show ?thesis
    unfolding word_unat_eq_iff word_le_nat_alt unat_PGROUNDDOWN A by auto
qed

lemma cleared_next:
  assumes "a mod 4096 = 0" "unat a + 4096 < 2 ^ 32" "cleared (a + 4096) b pgdir s1 s2"
    and "\<forall>v. pte pgdir v s1 = (if PGROUNDDOWN v = a \<and> pte pgdir v s AND PTE_P \<noteq> 0 then 0 else pte pgdir v s)" "a < b"
  shows "cleared a b pgdir s s2"
  unfolding cleared_def
proof
  fix v
  have "PGROUNDDOWN v = a \<Longrightarrow> \<not> a + 4096 \<le> PGROUNDDOWN v"
    using assms(2) by (simp add: word_le_nat_alt unat_word_ariths)
  then show "pte pgdir v s2 = (if a \<le> PGROUNDDOWN v \<and> PGROUNDDOWN v < b \<and> pte pgdir v s AND PTE_P \<noteq> 0 then 0 else pte pgdir v s)"
    using assms(3-5) aligned_next [OF assms(1,2), of v] unfolding cleared_def by auto
qed

lemma skip_table:
  assumes "unat a < 2 ^ 31" "unat a mod 0x400000 = 0" "PDX a \<notin> dirs pgdir s"
  defines "a' \<equiv> a + of_nat (NPTENTRIES - 1) * PGSIZE + PGSIZE"
  shows "unat a' = unat a + 0x400000" "a' mod 4096 = 0" "cleared a' b pgdir s s' = cleared a b pgdir s s'"
proof -
  have "a' = a + 0x400000" by (simp add: a'_def NPTENTRIES_def PGSIZE_def)
  then show u: "unat a' = unat a + 0x400000" using assms(1) by (simp add: unat_word_ariths)
  obtain A where A: "unat a = 0x400000 * A" using assms(2) by auto
  then have "unat a' = 4096 * (1024 * A + 1024)" using u by simp
  then show "a' mod 4096 = 0" by (simp add: word_unat_eq_iff unat_mod)
  have skip: "pte pgdir v s = 0" if "a \<le> PGROUNDDOWN v" "\<not> a' \<le> PGROUNDDOWN v" for v
  proof -
    have "unat a \<le> unat v" using that(1) PGROUNDDOWN_le [of v] by (simp add: word_le_nat_alt)
    moreover have "unat v < 0x400000 * (A + 1)"
    proof -
      have "4096 * (unat v div 4096) < 4096 * (1024 * (A + 1))"
        using that(2) u A by (simp add: word_le_nat_alt unat_PGROUNDDOWN)
      then have "unat v div 4096 < 1024 * (A + 1)" by simp
      then show ?thesis by (simp add: div_less_iff_less_mult)
    qed
    ultimately have "unat v div 0x400000 = A" unfolding A
      by (intro div_nat_eqI) (simp_all add: mult.commute)
    then have "PDX v = PDX a" by (simp add: word_unat_eq_iff unat_PDX A)
    then show ?thesis using assms(3) by (simp add: pte_def)
  qed
  have le: "a' \<le> PGROUNDDOWN v \<Longrightarrow> a \<le> PGROUNDDOWN v" for v
    using u by (simp add: word_le_nat_alt)
  show "cleared a' b pgdir s s' = cleared a b pgdir s s'"
    unfolding cleared_def by (rule all_cong1) (use skip le in \<open>auto 0 3\<close>)
qed

lemma dealloc_one:
  assumes inv: "uvm_inv pgdir s xs" and d: "PDX a \<in> dirs pgdir s" and a: "a mod 4096 = 0" "a < KERNBASE"
    and a2: "a < b"
  obtains s1 xs1 where "deallocuvm_loop (Suc k) pgdir a b s = deallocuvm_loop k pgdir (a + 4096) b s1"
    "dstep pgdir s xs s1 xs1"
    "\<forall>v. pte pgdir v s1 = (if PGROUNDDOWN v = a \<and> pte pgdir v s AND PTE_P \<noteq> 0 then 0 else pte pgdir v s)"
proof -
  have pt: "pt_inv pgdir s xs" using inv by (simp add: uvm_inv_def)
  let ?slot = "tab pgdir (PDX a) s + 4 * PTX a"
  have slot: "walkpgdir pgdir a False s = Ok ?slot s" "?slot \<noteq> 0" "mload s ?slot = pte pgdir a s"
    using walkpgdir_found [OF d] slot_not_null [OF pt d] d by (simp_all add: pte_def)
  have pa: "PGROUNDDOWN a = a" using a(1) by (simp add: aligned_page)
  show thesis
  proof (cases "pte pgdir a s AND PTE_P = 0")
    case True
    have "pte pgdir v s AND PTE_P = 0" if "PGROUNDDOWN v = a" for v
      using that True pte_page [of pgdir v s] by simp
    then show thesis
      using slot a2 True dstep_refl [OF inv]
      by (intro that [of s xs]) (auto simp: deallocuvm_loop.simps [of "Suc k"] PGSIZE_def)
  next
    case False
    with a pa have u: "a \<in> upages pgdir s" by (simp add: upages_def)
    let ?f = "frame pgdir a s"
    have "page_ok (kend s) ?f" "KERNBASE < kend s" using inv u by (auto simp: uvm_inv_def frames_def)
    then have nz: "PTE_ADDR (pte pgdir a s) \<noteq> 0"
      by (auto simp: page_ok_def frame_def p2v_def)
    obtain s1 where s1: "kfree ?f s = Ok () s1" "dstep pgdir s xs (mstore ?slot 0 s1) (?f # xs)"
      "\<forall>v. pte pgdir v (mstore ?slot 0 s1) = (if PGROUNDDOWN v = a then 0 else pte pgdir v s)"
      by (rule free_page [OF inv u])
    have "pte pgdir v s AND PTE_P \<noteq> 0" if "PGROUNDDOWN v = a" for v
      using that False pte_page [of pgdir v s] by simp
    then show thesis
      using slot a2 False nz s1
      by (intro that [of "mstore ?slot 0 s1" "?f # xs"])
        (auto simp: deallocuvm_loop.simps [of "Suc k"] PGSIZE_def Let_def frame_def)
  qed
qed

lemma deallocuvm_loop_ok:
  assumes "uvm_inv pgdir s xs" "a mod 4096 = 0" "oldsz \<le> KERNBASE"
    and "unat oldsz \<le> unat a + 4096 * k" "unat a mod 0x400000 = 0 \<or> PDX a \<in> dirs pgdir s"
  shows "ok (deallocuvm_loop k pgdir a oldsz s) (\<lambda>_ s'. \<exists>xs'. dstep pgdir s xs s' xs' \<and> cleared a oldsz pgdir s s')"
  using assms
proof (induction k arbitrary: a s xs)
  case 0
  then have "\<not> a < oldsz" by (simp add: word_less_nat_alt)
  moreover from this have "cleared a oldsz pgdir s s" by (auto simp: cleared_def)
  ultimately show ?case using dstep_refl [OF 0(1)] by (auto simp: deallocuvm_loop.simps [of 0])
next
  case (Suc k)
  show ?case
  proof (cases "a < oldsz")
    case False
    then have "cleared a oldsz pgdir s s" by (auto simp: cleared_def)
    with False show ?thesis using dstep_refl [OF Suc.prems(1)] by (auto simp: deallocuvm_loop.simps [of "Suc k"])
  next
    case True
    have o: "unat oldsz \<le> 2 ^ 31" using Suc.prems(3) by (simp add: word_le_nat_alt KERNBASE_def)
    have ua: "unat a < unat oldsz" using True by (simp add: word_less_nat_alt)
    show ?thesis
    proof (cases "PDX a \<in> dirs pgdir s")
      case False
      then have al: "unat a mod 0x400000 = 0" using Suc.prems(5) by blast
      let ?a = "a + of_nat (NPTENTRIES - 1) * PGSIZE + PGSIZE"
      have lt: "unat a < 2 ^ 31" using ua o by simp
      note sk = skip_table [OF lt al False]
      have "ok (deallocuvm_loop k pgdir ?a oldsz s) (\<lambda>_ s'. \<exists>xs'. dstep pgdir s xs s' xs' \<and> cleared ?a oldsz pgdir s s')"
        by (rule Suc.IH [OF Suc.prems(1) sk(2) Suc.prems(3)]) (use Suc.prems(4) al in \<open>simp_all add: sk(1) del: One_nat_def\<close>)
      then show ?thesis
        using True False by (simp add: deallocuvm_loop.simps [of "Suc k"] walkpgdir_none sk(3) del: One_nat_def)
    next
      case d: True
      have ak: "a < KERNBASE" using True Suc.prems(3) by simp
      have nw: "unat a + 4096 < 2 ^ 32" using ua o by simp
      obtain s1 xs1 where 1: "deallocuvm_loop (Suc k) pgdir a oldsz s = deallocuvm_loop k pgdir (a + 4096) oldsz s1"
        "dstep pgdir s xs s1 xs1"
        "\<forall>v. pte pgdir v s1 = (if PGROUNDDOWN v = a \<and> pte pgdir v s AND PTE_P \<noteq> 0 then 0 else pte pgdir v s)"
        by (rule dealloc_one [OF Suc.prems(1) d Suc.prems(2) ak True])
      have inv1: "uvm_inv pgdir s1 xs1" and d1: "dirs pgdir s1 = dirs pgdir s" using 1(2) by (auto simp: dstep_def)
      have al: "(a + 4096) mod 4096 = 0" using Suc.prems(2) aligned_add_iff [of 4096 a] by simp
      have u: "unat (a + 4096) = unat a + 4096" using nw by (simp add: unat_word_ariths)
      have "ok (deallocuvm_loop k pgdir (a + 4096) oldsz s1)
          (\<lambda>_ s'. \<exists>xs'. dstep pgdir s1 xs1 s' xs' \<and> cleared (a + 4096) oldsz pgdir s1 s')"
      proof (rule Suc.IH [OF inv1 al Suc.prems(3)])
        show "unat oldsz \<le> unat (a + 4096) + 4096 * k" using Suc.prems(4) by (simp add: u)
        show "unat (a + 4096) mod 0x400000 = 0 \<or> PDX (a + 4096) \<in> dirs pgdir s1"
          using next_page_dir [OF Suc.prems(2) nw] d by (auto simp: d1)
      qed
      then show ?thesis unfolding 1(1)
        by (rule ok_mono) (use dstep_trans [OF 1(2)] cleared_next [OF Suc.prems(2) nw _ 1(3) True] in blast)
    qed
  qed
qed


section \<open>Freeing an address space\<close>

definition tabs :: "nat list \<Rightarrow> uint \<Rightarrow> 'a kmem_state_scheme \<Rightarrow> uint list" where
  "tabs is pgdir s = map (\<lambda>i. tab pgdir (of_nat i) s) (filter (\<lambda>i. of_nat i \<in> dirs pgdir s) is)"

lemma freevm_loop_ok:
  assumes "kmem_inv s xs" "pgdir mod 4096 = 0" "\<forall>i\<in>set is. i < 1024"
    and "distinct (tabs is pgdir s @ xs)" "\<forall>v\<in>set (tabs is pgdir s). page_ok (kend s) v \<and> v \<noteq> pgdir"
  shows "ok (freevm_loop is pgdir s) (\<lambda>_ s'. kmem_inv s' (rev (tabs is pgdir s) @ xs) \<and> only_mem s s' \<and>
           mem_same (set (tabs is pgdir s)) (kmem_mem s) (kmem_mem s'))"
  using assms
proof (induction "is" arbitrary: s xs)
  case Nil
  then show ?case by (simp add: tabs_def)
next
  case (Cons i "is")
  have i: "of_nat i < (1024 :: uint)" using Cons.prems(3) by (simp add: word_less_nat_alt unat_of_nat)
  have e: "mload s (pgdir + 4 * of_nat i) = pde pgdir (of_nat i) s" by (simp add: pde_def)
  show ?case
  proof (cases "of_nat i \<in> dirs pgdir s")
    case False
    then have "tabs (i # is) pgdir s = tabs is pgdir s" by (simp add: tabs_def)
    moreover have "pde pgdir (of_nat i) s AND PTE_P = 0" using False i by (simp add: dirs_def)
    ultimately show ?thesis using Cons by (simp add: e Let_def)
  next
    case True
    let ?t = "tab pgdir (of_nat i) s"
    have ts: "tabs (i # is) pgdir s = ?t # tabs is pgdir s" using True by (simp add: tabs_def)
    have p: "pde pgdir (of_nat i) s AND PTE_P \<noteq> 0" using True by (simp add: dirs_def)
    have t: "page_ok (kend s) ?t" "?t \<noteq> pgdir" "?t \<notin> set xs" "?t mod 4096 = 0"
      using Cons.prems(4,5) by (auto simp: ts page_ok_def)
    obtain s1 where s1: "kfree ?t s = Ok () s1" "kmem_inv s1 (?t # xs)" "kend s1 = kend s"
      "same_outside ?t (kmem_mem s) (kmem_mem s1)"
      using kfree_inv [OF Cons.prems(1) t(1,3)] by (auto elim!: okE)
    have m1: "mem_same {?t} (kmem_mem s) (kmem_mem s1)" using s1(4) mem_same_outside [OF t(4)] by blast
    have pd: "pde pgdir (of_nat j) s1 = pde pgdir (of_nat j) s" if "j \<in> set is" for j
      unfolding pde_def
      by (rule mem_same_slot [OF m1 Cons.prems(2)]) (use t(2) that Cons.prems(3) in \<open>auto simp: word_less_nat_alt unat_of_nat\<close>)
    have ts1: "tabs is pgdir s1 = tabs is pgdir s"
      unfolding tabs_def by (intro map_cong filter_cong) (auto simp: tab_def dirs_def pd)
    have "ok (freevm_loop is pgdir s1) (\<lambda>_ s'. kmem_inv s' (rev (tabs is pgdir s1) @ ?t # xs) \<and> only_mem s1 s' \<and>
           mem_same (set (tabs is pgdir s1)) (kmem_mem s1) (kmem_mem s'))"
      by (rule Cons.IH [OF s1(2) Cons.prems(2)]) (use Cons.prems(3-5) in \<open>auto simp: ts1 ts s1(3)\<close>)
    then have "ok (freevm_loop is pgdir s1) (\<lambda>_ s'. kmem_inv s' (rev (tabs (i # is) pgdir s) @ xs) \<and> only_mem s s' \<and>
           mem_same (set (tabs (i # is) pgdir s)) (kmem_mem s) (kmem_mem s'))"
    proof (rule ok_mono, elim conjE, intro conjI)
      fix s'
      assume s': "kmem_inv s' (rev (tabs is pgdir s1) @ ?t # xs)" "only_mem s1 s'"
        "mem_same (set (tabs is pgdir s1)) (kmem_mem s1) (kmem_mem s')"
      from s'(1) show "kmem_inv s' (rev (tabs (i # is) pgdir s) @ xs)" by (simp add: ts ts1)
      show "only_mem s s'" by (rule only_mem_trans [OF kfree_only_mem [OF s1(1)] s'(2)])
      show "mem_same (set (tabs (i # is) pgdir s)) (kmem_mem s) (kmem_mem s')"
        by (rule mem_same_trans [OF mem_same_mono [OF m1] s'(3)]) (auto simp: ts ts1)
    qed
    moreover have "freevm_loop (i # is) pgdir s = freevm_loop is pgdir s1"
      using p s1(1) by (simp add: e tab_def Let_def)
    ultimately show ?thesis by simp
  qed
qed

lemma tabs_all:
  assumes "pt_inv pgdir s xs"
  shows "set (tabs [0..<1024] pgdir s) = (\<lambda>i. tab pgdir i s) ` dirs pgdir s" "distinct (tabs [0..<1024] pgdir s)"
proof -
  have ds: "of_nat ` {i. i < 1024 \<and> of_nat i \<in> dirs pgdir s} = dirs pgdir s"
  proof (intro equalityI subsetI)
    fix i assume "i \<in> dirs pgdir s"
    moreover from this have "unat i < 1024" by (simp add: dirs_def word_less_nat_alt)
    ultimately show "i \<in> of_nat ` {i. i < 1024 \<and> of_nat i \<in> dirs pgdir s}"
      by (intro image_eqI [of _ _ "unat i"]) simp_all
  qed auto
  have "set (tabs [0..<1024] pgdir s) =
      (\<lambda>i. tab pgdir i s) ` of_nat ` {i. i < 1024 \<and> of_nat i \<in> dirs pgdir s}"
    unfolding image_image by (auto simp: tabs_def)
  then show "set (tabs [0..<1024] pgdir s) = (\<lambda>i. tab pgdir i s) ` dirs pgdir s" unfolding ds .
  have "inj_on (\<lambda>i. tab pgdir (of_nat i) s) {i. i < 1024 \<and> of_nat i \<in> dirs pgdir s}"
  proof (rule inj_onI, clarsimp)
    fix x y :: nat
    assume xy: "x < 1024" "y < 1024" "of_nat x \<in> dirs pgdir s" "of_nat y \<in> dirs pgdir s"
      "tab pgdir (of_nat x) s = tab pgdir (of_nat y) s"
    then have "(of_nat x :: uint) = of_nat y" using assms by (auto simp: pt_inv_def dest: inj_onD)
    then have "unat (of_nat x :: uint) = unat (of_nat y :: uint)" by simp
    with xy show "x = y" by (simp add: unat_of_nat)
  qed
  then show "distinct (tabs [0..<1024] pgdir s)" by (simp add: tabs_def distinct_map)
qed

lemma freevm_ok:
  assumes inv: "uvm_inv pgdir s xs"
  shows "ok (freevm pgdir s) (\<lambda>_ s'. \<exists>ys. kmem_inv s' ys \<and> set ys = set xs \<union> aspace pgdir s \<and>
           only_mem s s' \<and> mem_same (aspace pgdir s \<union> set xs) (kmem_mem s) (kmem_mem s'))"
proof -
  have nz: "pgdir \<noteq> 0" using inv pt_inv_page [of pgdir s xs pgdir] by (simp add: uvm_inv_def own_def)
  have "ok (deallocuvm_loop (unat KERNBASE div 4096 + 1) pgdir 0 KERNBASE s)
      (\<lambda>_ s'. \<exists>xs'. dstep pgdir s xs s' xs' \<and> cleared 0 KERNBASE pgdir s s')"
    by (rule deallocuvm_loop_ok [OF inv]) (simp_all add: KERNBASE_def)
  then obtain s1 xs1 where 1: "deallocuvm_loop (unat KERNBASE div 4096 + 1) pgdir 0 KERNBASE s = Ok () s1"
    "dstep pgdir s xs s1 xs1" "cleared 0 KERNBASE pgdir s s1"
    by (auto elim!: okE)
  have "PGROUNDUP 0 = 0" by (simp add: PGROUNDUP_def PGSIZE_def)
  then have d: "deallocuvm pgdir KERNBASE 0 s = Ok 0 s1" using 1(1) by (simp add: deallocuvm_def KERNBASE_def)
  have "upages pgdir s1 = {}" using 1(3) by (auto simp: upages_def cleared_def)
  then have fr: "frames pgdir s1 = {}" by (simp add: frames_def)
  have own: "own pgdir s1 = own pgdir s" and xs1: "set xs1 = frames pgdir s \<union> set xs" and om1: "only_mem s s1"
    and m1: "mem_same (aspace pgdir s \<union> set xs) (kmem_mem s) (kmem_mem s1)"
    using 1(2) fr by (auto simp: dstep_def Un_ac)
  have pt: "pt_inv pgdir s1 xs1" using 1(2) by (simp add: dstep_def uvm_inv_def)
  note ta = tabs_all [OF pt]
  let ?ts = "tabs [0..<1024] pgdir s1"
  have ot: "own pgdir s = insert pgdir (set ?ts)" unfolding own [symmetric] by (simp add: own_def ta(1))
  have pre: "distinct (?ts @ xs1)" "\<forall>v\<in>set ?ts. page_ok (kend s1) v \<and> v \<noteq> pgdir"
  proof -
    have "pgdir \<notin> set ?ts" "set ?ts \<subseteq> own pgdir s1" using pt ta(1) by (auto simp: pt_inv_def own_def)
    then show "distinct (?ts @ xs1)" "\<forall>v\<in>set ?ts. page_ok (kend s1) v \<and> v \<noteq> pgdir"
      using pt ta(2) by (auto simp: pt_inv_def kmem_inv_def)
  qed
  have k1: "kmem_inv s1 xs1" using pt by (simp add: pt_inv_def)
  have "\<forall>i\<in>set [0..<1024]. i < 1024" by simp
  from freevm_loop_ok [OF k1 pt_inv_pgdir [OF pt] this pre] obtain s2 where 2:
    "freevm_loop [0..<1024] pgdir s1 = Ok () s2" "kmem_inv s2 (rev ?ts @ xs1)" "only_mem s1 s2"
    "mem_same (set ?ts) (kmem_mem s1) (kmem_mem s2)"
    by (auto elim!: okE)
  have pg: "page_ok (kend s2) pgdir" "pgdir \<notin> set (rev ?ts @ xs1)" "pgdir mod 4096 = 0"
    using pt pre(2) only_mem_kend [OF 2(3)] pt_inv_pgdir [OF pt] by (auto simp: pt_inv_def own_def)
  obtain s3 where 3: "kfree pgdir s2 = Ok () s3" "kmem_inv s3 (pgdir # rev ?ts @ xs1)"
    "same_outside pgdir (kmem_mem s2) (kmem_mem s3)"
    using kfree_inv [OF 2(2) pg(1,2)] by (auto elim!: okE)
  have e: "freevm pgdir s = Ok () s3" using nz d 2(1) 3(1) by (simp add: freevm_def NPDENTRIES_def)
  have se: "set (pgdir # rev ?ts @ xs1) = set xs \<union> aspace pgdir s"
  proof -
    have "set (pgdir # rev ?ts @ xs1) = insert pgdir (set ?ts) \<union> set xs1" by simp
    also have "\<dots> = own pgdir s \<union> (frames pgdir s \<union> set xs)" unfolding ot xs1 ..
    finally show ?thesis by blast
  qed
  have om: "only_mem s s3" by (rule only_mem_trans [OF only_mem_trans [OF om1 2(3)] kfree_only_mem [OF 3(1)]])
  have ms: "mem_same (aspace pgdir s \<union> set xs) (kmem_mem s) (kmem_mem s3)"
  proof -
    have "mem_same (aspace pgdir s \<union> set xs) (kmem_mem s) (kmem_mem s2)"
      by (rule mem_same_trans [OF m1 2(4)]) (unfold ot, blast)
    moreover have "mem_same {pgdir} (kmem_mem s2) (kmem_mem s3)" using 3(3) mem_same_outside [OF pg(3)] by blast
    ultimately show ?thesis by (rule mem_same_trans) (simp add: own_def)
  qed
  show ?thesis
    unfolding e ok_Ok by (rule exI [of _ "pgdir # rev ?ts @ xs1"]) (intro conjI 3(2) se om ms)
qed


section \<open>A new address space\<close>

lemma setupkvm_space:
  assumes inv: "kmem_inv s (p # xs)" and len: "1024 < length xs" and ke: "KERNBASE < kend s"
    and d: "data mod 4096 = 0" "KERNLINK < data" "data < p2v PHYSTOP"
  obtains s' xs' where "setupkvm data s = Ok p s'" "uvm_inv p s' xs'" "\<forall>v<KERNBASE. pte p v s' = 0"
    "own p s' \<union> set xs' = insert p (set xs)" "budget p s' xs' = Suc (length xs)" "only_mem s s'"
    "mem_same (insert p (set xs)) (kmem_mem s) (kmem_mem s')" "\<forall>v. translate p v s' = kvm_map v"
    "frames p s' = {}"
proof -
  let ?s = "mzero_page p (s\<lparr>kmem_freelist := mload s p\<rparr>)"
  note f = fresh_dir [OF inv]
  obtain s' xs' where s': "setupkvm data s = Ok p s'" "vstep p ?s xs s' xs'"
    "\<forall>v. pte p v s' = kvm_entry data v"
    by (rule setupkvm_ok [OF inv _ d]) (use len in simp)
  have low: "pte p v s' = 0" if "v < KERNBASE" for v
  proof -
    have "KERNBASE \<le> KERNLINK" "KERNBASE \<le> DEVSPACE" by (simp_all add: KERNLINK_def EXTMEM_def DEVSPACE_def KERNBASE_def)
    with d that have "\<not> KERNBASE \<le> v" "\<not> KERNLINK \<le> v" "\<not> data \<le> v" "\<not> DEVSPACE \<le> v" by auto
    then show ?thesis using s'(3) by (simp add: kvm_entry_def)
  qed
  then have "upages p s' = {}" by (auto simp: upages_def)
  then have fr: "frames p s' = {}" by (simp add: frames_def)
  have o: "own p ?s = {p}" by (simp add: own_def f(3))
  have om: "only_mem s ?s" by (simp add: only_mem_def mzero_page_def)
  have oms: "only_mem s s'" using s'(2) only_mem_trans [OF om] by (simp add: vstep_def)
  have "uvm_inv p s' xs'"
    using s'(2) fr \<open>upages p s' = {}\<close> ke only_mem_kend [OF oms] by (simp add: uvm_inv_def vstep_def)
  moreover have "own p s' \<union> set xs' = insert p (set xs)" using s'(2) by (simp add: vstep_def o)
  moreover have "budget p s' xs' = Suc (length xs)"
    using vstep_budget [OF f(1) s'(2)] by (simp add: budget_def o)
  moreover have "mem_same (insert p (set xs)) (kmem_mem s) (kmem_mem s')"
  proof (rule mem_same_trans)
    have "p mod 4096 = 0" using inv by (simp add: kmem_inv_def page_ok_def)
    then have "mem_same {p} (kmem_mem s) (kmem_mem ?s)" by (simp add: mzero_page_def PGSIZE_def mem_same_fill)
    then show "mem_same (insert p (set xs)) (kmem_mem s) (kmem_mem ?s)" by (rule mem_same_mono) simp
    show "mem_same (insert p (set xs)) (kmem_mem ?s) (kmem_mem s')" using s'(2) by (simp add: vstep_def o)
  qed simp
  moreover have "\<forall>v. translate p v s' = kvm_map v"
    by (rule allI, rule kvm_translate [OF d s'(3)])
  ultimately show thesis using low oms fr by (intro that [OF s'(1)]) blast+
qed

section \<open>Properties\<close>

lemma PGROUNDUP_down: "PGROUNDUP sz = PGROUNDDOWN (sz + 0xFFF)"
  by (simp add: PGROUNDUP_def PGROUNDDOWN_def PGSIZE_def add.commute)

lemma allocuvm_ok:
  assumes inv: "uvm_inv pgdir s xs" and sz: "oldsz \<le> newsz" "newsz < KERNBASE"
    and len: "1024 + (unat newsz - unat (PGROUNDUP oldsz) + 4095) div 4096 < length xs"
    and free: "\<forall>v. PGROUNDUP oldsz \<le> v \<and> v < PGROUNDUP newsz \<longrightarrow> umem pgdir s v = None"
  shows "ok (allocuvm pgdir oldsz newsz s) (\<lambda>r s'. r = newsz \<and> (\<exists>xs'. ustep pgdir s xs s' xs' \<and>
           (\<forall>v. if PGROUNDUP oldsz \<le> v \<and> v < PGROUNDUP newsz then user_ok pgdir v s' \<and> umem pgdir s' v = Some 0
                else pte pgdir v s' = pte pgdir v s)))"
proof -
  let ?a = "PGROUNDUP oldsz"
  have al: "?a mod 4096 = 0" by (simp only: PGROUNDUP_down aligned_PGROUNDDOWN)
  have n: "unat newsz < 2 ^ 31" using sz(2) by (simp add: word_less_nat_alt KERNBASE_def)
  have r: "PGROUNDDOWN v \<in> set (page_addrs ?a newsz) \<longleftrightarrow> ?a \<le> v \<and> v < PGROUNDUP newsz" for v
    using page_addrs_props(3) [OF al, of newsz v] n PGROUNDUP_unat [of newsz]
    by (simp add: word_less_nat_alt mult.commute)
  note pa = page_addrs_props [OF al, of newsz]
  have bud: "1025 + length (page_addrs ?a newsz) < budget pgdir s xs"
    using len budget_pos [of xs pgdir s] pa(4) n by simp
  have pre: "\<forall>a\<in>set (page_addrs ?a newsz). a mod 4096 = 0 \<and> a < KERNBASE \<and> pte pgdir a s AND PTE_P = 0"
  proof
    fix a assume a: "a \<in> set (page_addrs ?a newsz)"
    then have "a mod 4096 = 0" "a < newsz" using pa(2) n by auto
    moreover from this have "?a \<le> a \<and> a < PGROUNDUP newsz" using a r [of a] by (simp add: aligned_page)
    then have "umem pgdir s a = None" using free by blast
    ultimately show "a mod 4096 = 0 \<and> a < KERNBASE \<and> pte pgdir a s AND PTE_P = 0"
      using sz(2) by (auto simp: umem_frame split: if_splits)
  qed
  have "distinct (page_addrs ?a newsz)" using pa(1) n by simp
  from allocuvm_loop_ok [OF inv this bud pre, of oldsz newsz]
  have "ok (allocuvm_loop (page_addrs ?a newsz) pgdir oldsz newsz s) (\<lambda>r s'. r = newsz \<and> (\<exists>xs'. ustep pgdir s xs s' xs' \<and>
           (\<forall>v. if PGROUNDUP oldsz \<le> v \<and> v < PGROUNDUP newsz then user_ok pgdir v s' \<and> umem pgdir s' v = Some 0
                else pte pgdir v s' = pte pgdir v s)))"
    unfolding r .
  moreover have "allocuvm pgdir oldsz newsz s = allocuvm_loop (page_addrs ?a newsz) pgdir oldsz newsz s"
  proof -
    have "\<not> newsz \<ge> KERNBASE" "\<not> newsz < oldsz" using sz by auto
    then show ?thesis unfolding allocuvm_def by (simp only: if_False)
  qed
  ultimately show ?thesis by simp
qed

text \<open>
  C5: Growing a process (\<open>allocuvm\<close> in vm.c) with enough free memory succeeds and adds exactly the pages from the
  old size, rounded up, to the new size: user code then reads zero there, may write there, and sees every other byte of its
  memory as before. No page is lost or shared: the pages of the address space and the free pages are together
  the same as before, and the address space stays well formed. The kernel's mappings do not change.
\<close>

theorem allocuvm_adds_zero_pages:
  assumes "uvm_inv pgdir s xs" "oldsz \<le> newsz" "newsz < KERNBASE"
    and "1024 + (unat newsz - unat (PGROUNDUP oldsz) + 4095) div 4096 < length xs"
    and "\<forall>v. PGROUNDUP oldsz \<le> v \<and> v < PGROUNDUP newsz \<longrightarrow> umem pgdir s v = None"
  shows "ok (allocuvm pgdir oldsz newsz s) (\<lambda>r s'. r = newsz \<and>
           (\<exists>xs'. uvm_inv pgdir s' xs' \<and> aspace pgdir s' \<union> set xs' = aspace pgdir s \<union> set xs) \<and>
           (\<forall>v. PGROUNDUP oldsz \<le> v \<and> v < PGROUNDUP newsz \<longrightarrow> user_ok pgdir v s' \<and> umem pgdir s' v = Some 0) \<and>
           (\<forall>v. v < KERNBASE \<and> \<not> (PGROUNDUP oldsz \<le> v \<and> v < PGROUNDUP newsz) \<longrightarrow> umem pgdir s' v = umem pgdir s v) \<and>
           (\<forall>v. KERNBASE \<le> v \<longrightarrow> translate pgdir v s' = translate pgdir v s))"
  using allocuvm_ok [OF assms]
proof (rule ok_mono, elim conjE exE)
  fix r s' xs'
  assume r: "r = newsz" and u: "ustep pgdir s xs s' xs'"
    and v: "\<forall>v. if PGROUNDUP oldsz \<le> v \<and> v < PGROUNDUP newsz then user_ok pgdir v s' \<and> umem pgdir s' v = Some 0
                else pte pgdir v s' = pte pgdir v s"
  have top: "v < KERNBASE" if "v < PGROUNDUP newsz" for v
  proof -
    have n: "unat newsz < 2 ^ 31" using assms(3) by (simp add: word_less_nat_alt KERNBASE_def)
    then have "(unat newsz + 4095) div 4096 < Suc (2 ^ 19)" by (subst div_less_iff_less_mult) simp_all
    then have "unat (PGROUNDUP newsz) \<le> 2 ^ 31" using n PGROUNDUP_unat [of newsz] by simp
    then show ?thesis using that by (simp add: word_less_nat_alt KERNBASE_def)
  qed
  have "umem pgdir s' v = umem pgdir s v" if "v < KERNBASE" "\<not> (PGROUNDUP oldsz \<le> v \<and> v < PGROUNDUP newsz)" for v
    by (rule umem_ustep [OF assms(1) u _ that(1)]) (use v that(2) in meson)
  moreover have "translate pgdir v s' = translate pgdir v s" if "KERNBASE \<le> v" for v
  proof -
    have "\<not> v < PGROUNDUP newsz" using top [of v] that by auto
    then have "pte pgdir v s' = pte pgdir v s" using v by meson
    then show ?thesis by (simp add: translate_pte)
  qed
  ultimately show "r = newsz \<and>
      (\<exists>xs'. uvm_inv pgdir s' xs' \<and> aspace pgdir s' \<union> set xs' = aspace pgdir s \<union> set xs) \<and>
      (\<forall>v. PGROUNDUP oldsz \<le> v \<and> v < PGROUNDUP newsz \<longrightarrow> user_ok pgdir v s' \<and> umem pgdir s' v = Some 0) \<and>
      (\<forall>v. v < KERNBASE \<and> \<not> (PGROUNDUP oldsz \<le> v \<and> v < PGROUNDUP newsz) \<longrightarrow> umem pgdir s' v = umem pgdir s v) \<and>
      (\<forall>v. KERNBASE \<le> v \<longrightarrow> translate pgdir v s' = translate pgdir v s)"
    using r u v unfolding ustep_def by meson
qed

lemma demo_space:
  obtains s :: kmem_state and d xs where "uvm_inv d s xs" "2900 < length xs" "\<forall>v<KERNBASE. pte d v s = 0"
proof -
  have k: "kmem_inv (pool 4000) (rev (pages 4000 0x80400000))" "kend (pool 4000) = 0x80200000"
    by (rule pool_inv, simp)+
  obtain p xs where e: "rev (pages 4000 0x80400000) = p # xs"
    by (cases "rev (pages 4000 0x80400000)") (simp_all flip: length_0_conv)
  have "length (p # xs) = 4000" unfolding e [symmetric] by simp
  then have len: "length xs = 3999" by simp
  have len': "1024 < length xs" by (simp add: len)
  have ke: "KERNBASE < kend (pool 4000)" by (simp add: k(2) KERNBASE_def)
  have dat: "0x80108000 mod 4096 = (0 :: uint)" "KERNLINK < 0x80108000" "0x80108000 < p2v PHYSTOP"
    by (simp_all add: KERNLINK_def EXTMEM_def layout_defs)
  show thesis
  proof (rule setupkvm_space [OF k(1) [unfolded e] len' ke dat])
    fix s' :: kmem_state and xs'
    assume s': "uvm_inv p s' xs'" "\<forall>v<KERNBASE. pte p v s' = 0" "budget p s' xs' = Suc (length xs)"
    have "2900 < length xs'" using s'(3) len card_own [of p s'] by (simp add: budget_def)
    with s' that show thesis by blast
  qed
qed

theorem allocuvm_adds_zero_pages_witness:
  "\<exists>(s :: kmem_state) d. ok (allocuvm d 0 5000 s) (\<lambda>r s'. r = 5000 \<and> umem d s' 4999 = Some 0 \<and>
     umem d s' 8191 = Some 0 \<and> umem d s' 8192 = None)"
proof -
  obtain s :: kmem_state and d xs where s: "uvm_inv d s xs" "2900 < length xs" "\<forall>v<KERNBASE. pte d v s = 0"
    by (rule demo_space)
  have um: "umem d s v = None" if "v < KERNBASE" for v using s(3) that by (simp add: umem_frame)
  have c: "PGROUNDUP 0 = 0" "PGROUNDUP 5000 = 8192" by (simp_all add: PGROUNDUP_def PGSIZE_def)
  have free: "\<forall>v. PGROUNDUP 0 \<le> v \<and> v < PGROUNDUP 5000 \<longrightarrow> umem d s v = None"
    unfolding c by (intro allI impI um) (simp add: KERNBASE_def word_less_nat_alt)
  have "ok (allocuvm d 0 5000 s) (\<lambda>r s'. r = 5000 \<and>
      (\<exists>xs'. uvm_inv d s' xs' \<and> aspace d s' \<union> set xs' = aspace d s \<union> set xs) \<and>
      (\<forall>v. PGROUNDUP 0 \<le> v \<and> v < PGROUNDUP 5000 \<longrightarrow> user_ok d v s' \<and> umem d s' v = Some 0) \<and>
      (\<forall>v. v < KERNBASE \<and> \<not> (PGROUNDUP 0 \<le> v \<and> v < PGROUNDUP 5000) \<longrightarrow> umem d s' v = umem d s v) \<and>
      (\<forall>v. KERNBASE \<le> v \<longrightarrow> translate d v s' = translate d v s))"
    by (rule allocuvm_adds_zero_pages [OF s(1) _ _ _ free]) (use s(2) in \<open>simp_all add: KERNBASE_def c\<close>)
  then have "ok (allocuvm d 0 5000 s) (\<lambda>r s'. r = 5000 \<and> umem d s' 4999 = Some 0 \<and>
      umem d s' 8191 = Some 0 \<and> umem d s' 8192 = None)"
    by (rule ok_mono) (use um [of 8192] in \<open>auto simp: c KERNBASE_def\<close>)
  then show ?thesis by blast
qed

end
