(* ===== verification/Ucopy.thy ===== *)
theory Ucopy
  imports Uvm
begin

text \<open>
  Copies between address spaces (vm.c): \<open>copyuvm\<close>, which \<open>fork\<close> uses, and \<open>copyout\<close>, which \<open>exec\<close> uses to fill
  the new stack. Both are described by what user code sees: the bytes of \<open>umem\<close>.
\<close>

section \<open>Copying a page\<close>

lemma page_ok_top: "page_ok e v \<Longrightarrow> unat v + 4096 < 2 ^ 32"
proof -
  assume "page_ok e v"
  then have "v - 0x80000000 < 0xE000000" by (simp add: page_ok_def)
  moreover have "v = (v - 0x80000000) + 0x80000000" by simp
  moreover define d where "d = v - 0x80000000"
  ultimately have "v = d + 0x80000000" "unat d < 0xE000000" by (simp_all add: word_less_nat_alt)
  then show ?thesis by (simp add: unat_word_ariths)
qed

lemma memmove_page:
  assumes "page_ok e f" "page_ok e' g"
  shows "mem_same {f} m (memmove m f g 4096)" "o' < 4096 \<Longrightarrow> memmove m f g 4096 (f + o') = m (g + o')"
proof -
  have al: "f mod 4096 = 0" using assms(1) by (simp add: page_ok_def)
  have at: "memmove m f g 4096 a = (if a - f < 4096 then m (g + (a - f)) else m a)" for a
    using memmove_at [of g 4096 f m a] page_ok_top [OF assms(1)] page_ok_top [OF assms(2)]
    by (simp add: word_less_nat_alt)
  show "mem_same {f} m (memmove m f g 4096)" by (simp add: mem_same_def at in_page_iff [OF al])
  show "o' < 4096 \<Longrightarrow> memmove m f g 4096 (f + o') = m (g + o')" by (simp add: at)
qed

lemma flags_less: "PTE_FLAGS x < 4096"
  unfolding PTE_FLAGS_def by (rule offset_less)

lemma flags_entry:
  assumes "pa mod 4096 = 0" "x AND PTE_P \<noteq> 0"
  shows "PTE_FLAGS (pa OR PTE_FLAGS x OR PTE_P) = PTE_FLAGS x"
proof -
  have "bit x 0" using assms(2) by (simp add: PTE_P_def and_one_eq bit_0 odd_iff_mod_2_eq_one)
  then show ?thesis
    unfolding PTE_FLAGS_def bit_eq_iff bit_offset bit_or_iff
    by (auto simp: PTE_P_def bit_1_iff dest: aligned_bit [OF assms(1)])
qed

section \<open>Two address spaces over one free list\<close>

lemma other_kept:
  assumes p: "uvm_inv pgdir s xs" and d: "aspace pgdir s \<inter> aspace d s = {}" and u: "ustep d s xs s' xs'"
  shows "uvm_inv pgdir s' xs'" "aspace pgdir s' \<inter> aspace d s' = {}" "pte pgdir v s' = pte pgdir v s"
    "v < KERNBASE \<Longrightarrow> umem pgdir s' v = umem pgdir s v"
proof -
  have m: "mem_same (own d s \<union> set xs) (kmem_mem s) (kmem_mem s')" and i: "uvm_inv d s' xs'" and om: "only_mem s s'"
    and c: "aspace d s' \<union> set xs' = aspace d s \<union> set xs" "own d s' \<union> set xs' \<subseteq> own d s \<union> set xs"
    using u by (auto simp: ustep_def)
  have x: "aspace pgdir s \<inter> set xs = {}" using p by (auto simp: uvm_inv_def pt_inv_def)
  then have P: "aspace pgdir s \<inter> (own d s \<union> set xs) = {}" using d by blast
  note same = uvm_same [OF p m P]
  show "pte pgdir v s' = pte pgdir v s" by (rule same)
  show "v < KERNBASE \<Longrightarrow> umem pgdir s' v = umem pgdir s v" by (rule same)
  show "aspace pgdir s' \<inter> aspace d s' = {}" unfolding same(2,3) using d x c by blast
  show "uvm_inv pgdir s' xs'"
    by (rule same(5)) (use i only_mem_kend [OF om] P c in \<open>auto simp: uvm_inv_def pt_inv_def\<close>)
qed

section \<open>Forking the memory\<close>

lemma copyuvm_loop_ok:
  assumes "uvm_inv pgdir s xs" "uvm_inv d s xs" "aspace pgdir s \<inter> aspace d s = {}" "distinct is"
    and "1025 + length is < budget d s xs"
    and "\<forall>i\<in>set is. i mod 4096 = 0 \<and> i < KERNBASE \<and> pte pgdir i s AND PTE_P \<noteq> 0 \<and> pte d i s AND PTE_P = 0"
  shows "ok (copyuvm_loop is pgdir d s) (\<lambda>r s'. r = d \<and> (\<exists>xs'. ustep d s xs s' xs' \<and>
           (\<forall>v. if PGROUNDDOWN v \<in> set is
                then PTE_FLAGS (pte d v s') = PTE_FLAGS (pte pgdir v s) \<and> umem d s' v = umem pgdir s v
                else pte d v s' = pte d v s)))"
  using assms
proof (induction "is" arbitrary: s xs)
  case Nil
  then show ?case using ustep_refl by fastforce
next
  case (Cons i "is")
  have "card (own d s) \<le> 1025" by (rule card_own)
  with Cons.prems(5) obtain f ys where xs: "xs = f # ys" by (cases xs) (auto simp: budget_def)
  note P = Cons.prems(1) and D = Cons.prems(2) [unfolded xs]
  have i: "i mod 4096 = 0" "i < KERNBASE" "pte pgdir i s AND PTE_P \<noteq> 0" "pte d i s AND PTE_P = 0"
    using Cons.prems(6) by auto
  have f: "f \<notin> own d s" "f \<notin> set ys" "f \<noteq> 0" "f mod 4096 = 0" "page_ok (kend s) f"
    using D by (auto simp: uvm_inv_def pt_inv_def kmem_inv_def page_ok_def)
  let ?g = "frame pgdir i s" and ?fl = "PTE_FLAGS (pte pgdir i s)"
  have gf: "?g \<in> frames pgdir s" by (rule frame_in_frames [OF i(2,3)])
  have g: "page_ok (kend s) ?g" using P gf by (auto simp: uvm_inv_def)
  let ?m = "memmove (kmem_mem s) f ?g 4096"
  note mm = memmove_page [OF f(5) g, where m = "kmem_mem s"]
  have len: "1026 < budget d s (f # ys)" using Cons.prems(5) by (simp add: xs)
  obtain s1 ys1 where 1: "mappages d i PGSIZE (v2p f) ?fl (take_page f ?m s) = Ok 0 s1"
    "ustep d s (f # ys) s1 ys1"
    "\<forall>v. pte d v s1 = (if PGROUNDDOWN v = i then v2p f OR ?fl OR PTE_P else pte d v s)"
    "mem_same (own d s \<union> set ys) ?m (kmem_mem s1)" "budget d s1 ys1 + 1 = budget d s (f # ys)"
    by (rule user_page [OF D len i(1,2,4) mm(1) flags_less])
  have step: "copyuvm_loop (i # is) pgdir d s = copyuvm_loop is pgdir d s1"
  proof -
    have dd: "PDX i \<in> dirs pgdir s" using i(3) by (auto simp: pte_def split: if_splits)
    have pt: "pt_inv pgdir s xs" using P by (simp add: uvm_inv_def)
    have slot: "walkpgdir pgdir i False s = Ok (tab pgdir (PDX i) s + 4 * PTX i) s"
      "tab pgdir (PDX i) s + 4 * PTX i \<noteq> 0" "mload s (tab pgdir (PDX i) s + 4 * PTX i) = pte pgdir i s"
      using walkpgdir_found [OF dd] slot_not_null [OF pt dd] dd by (simp_all add: pte_def)
    have k: "kalloc s = Ok f (s\<lparr>kmem_freelist := mload s f\<rparr>)"
      using D f(3) by (simp add: kalloc_def uvm_inv_def pt_inv_def kmem_inv_def Let_def)
    have "s\<lparr>kmem_freelist := mload s f, kmem_mem := memmove (kmem_mem s) f (p2v (PTE_ADDR (pte pgdir i s))) PGSIZE\<rparr> = take_page f ?m s"
      by (simp add: take_page_def PGSIZE_def frame_def)
    then show ?thesis using slot i(3) k f(3) 1(1) by (simp add: Let_def)
  qed
  have new: "PTE_FLAGS (pte d v s1) = PTE_FLAGS (pte pgdir v s) \<and> umem d s1 v = umem pgdir s v" if v: "PGROUNDDOWN v = i" for v
  proof -
    have p: "pte d v s1 = v2p f OR ?fl OR PTE_P" using 1(3) v by simp
    have vp: "pte pgdir v s = pte pgdir i s" using pte_page [of pgdir v s] v by simp
    note al = v2p_aligned [OF f(4)]
    have fg: "frame pgdir v s = ?g" by (simp add: frame_def vp)
    have fr: "frame d v s1 = f"
      using entry_addr [OF al flags_less] by (simp add: frame_def p p2v_def v2p_def)
    have "PGROUNDDOWN (f + (v AND 0xFFF)) = f" by (rule page_plus [OF f(4) offset_less])
    then have "kmem_mem s1 (f + (v AND 0xFFF)) = kmem_mem s (?g + (v AND 0xFFF))"
      using 1(4) f(1,2) mm(2) [OF offset_less] by (simp add: mem_same_def)
    then have "umem d s1 v = umem pgdir s v"
      using i(3) vp by (simp add: umem_frame fr p entry_present2 fg)
    with flags_entry [OF al i(3)] vp show ?thesis by (simp add: p)
  qed
  note kept = other_kept [OF P Cons.prems(3) 1(2) [folded xs]]
  have inv1: "uvm_inv d s1 ys1" using 1(2) by (simp add: ustep_def)
  have "ok (copyuvm_loop is pgdir d s1) (\<lambda>r s'. r = d \<and> (\<exists>xs'. ustep d s1 ys1 s' xs' \<and>
           (\<forall>v. if PGROUNDDOWN v \<in> set is
                then PTE_FLAGS (pte d v s') = PTE_FLAGS (pte pgdir v s1) \<and> umem d s' v = umem pgdir s1 v
                else pte d v s' = pte d v s1)))"
  proof (rule Cons.IH [OF kept(1) inv1 kept(2)])
    show "distinct is" "1025 + length is < budget d s1 ys1" using Cons.prems(4,5) 1(5) by (simp_all add: xs)
    show "\<forall>i\<in>set is. i mod 4096 = 0 \<and> i < KERNBASE \<and> pte pgdir i s1 AND PTE_P \<noteq> 0 \<and> pte d i s1 AND PTE_P = 0"
      using Cons.prems(4,6) 1(3) by (auto simp: aligned_page kept(3))
  qed
  then show ?case unfolding step
  proof (rule ok_mono, elim conjE exE)
    fix r s' xs'
    assume r: "r = d" and u: "ustep d s1 ys1 s' xs'"
      and v: "\<forall>v. if PGROUNDDOWN v \<in> set is
                then PTE_FLAGS (pte d v s') = PTE_FLAGS (pte pgdir v s1) \<and> umem d s' v = umem pgdir s1 v
                else pte d v s' = pte d v s1"
    have first: "PTE_FLAGS (pte d v s') = PTE_FLAGS (pte pgdir v s) \<and> umem d s' v = umem pgdir s v"
      if "PGROUNDDOWN v = i" for v
    proof -
      have "pte d v s' = pte d v s1" using v that Cons.prems(4) by (metis distinct.simps(2))
      moreover have "v < KERNBASE" using i(2) that page_below by blast
      ultimately show ?thesis using new [OF that] umem_ustep [OF inv1 u] by simp
    qed
    have rest: "PTE_FLAGS (pte d v s') = PTE_FLAGS (pte pgdir v s) \<and> umem d s' v = umem pgdir s v"
      if "PGROUNDDOWN v \<in> set is" for v
    proof -
      have "v < KERNBASE" using Cons.prems(6) that page_below by (metis list.set_intros(2))
      then show ?thesis using v that kept(3,4) [of v] by simp
    qed
    have "pte d v s' = pte d v s" if "PGROUNDDOWN v \<notin> set (i # is)" for v
      using v that 1(3) by simp
    with r first rest show "r = d \<and> (\<exists>xs'. ustep d s xs s' xs' \<and>
           (\<forall>v. if PGROUNDDOWN v \<in> set (i # is)
                then PTE_FLAGS (pte d v s') = PTE_FLAGS (pte pgdir v s) \<and> umem d s' v = umem pgdir s v
                else pte d v s' = pte d v s))"
      using ustep_trans [OF 1(2) u] unfolding xs by auto
  qed
qed


lemma copyuvm_ok:
  assumes P: "uvm_inv pgdir s xs" and sz: "sz \<le> KERNBASE"
    and d: "data mod 4096 = 0" "KERNLINK < data" "data < p2v PHYSTOP"
    and len: "1025 + (unat sz + 4095) div 4096 < length xs"
    and pres: "\<forall>v. v < sz \<longrightarrow> pte pgdir v s AND PTE_P \<noteq> 0"
  obtains c s' xs' where "copyuvm data pgdir sz s = Ok c s'" "c \<noteq> 0" "uvm_inv pgdir s' xs'" "uvm_inv c s' xs'"
    "aspace pgdir s' \<inter> aspace c s' = {}" "aspace c s' \<union> set xs' = set xs" "only_mem s s'"
    "\<forall>v. pte pgdir v s' = pte pgdir v s" "\<forall>v<KERNBASE. umem pgdir s' v = umem pgdir s v"
    "\<forall>v<KERNBASE. umem c s' v = (if unat v < 4096 * ((unat sz + 4095) div 4096) then umem pgdir s v else None)"
    "\<forall>v. KERNBASE \<le> v \<longrightarrow> translate c v s' = kvm_map v" "mem_same (set xs) (kmem_mem s) (kmem_mem s')"
    "\<forall>v<KERNBASE. uview pgdir s' v = uview pgdir s v"
    "\<forall>v<KERNBASE. uview c s' v = (if unat v < 4096 * ((unat sz + 4095) div 4096) then uview pgdir s v else (None, None, False))"
proof -
  let ?n = "(unat sz + 4095) div 4096"
  obtain p ys where xs: "xs = p # ys" using len by (cases xs) auto
  have szn: "unat sz \<le> 2 ^ 31" using sz by (simp add: word_le_nat_alt KERNBASE_def)
  have k: "kmem_inv s (p # ys)" "KERNBASE < kend s" "aspace pgdir s \<inter> set (p # ys) = {}"
    using P by (auto simp: uvm_inv_def pt_inv_def xs)
  have len1: "1024 < length ys" using len by (simp add: xs)
  obtain s1 xs1 where 1: "setupkvm data s = Ok p s1" "uvm_inv p s1 xs1" "\<forall>v<KERNBASE. pte p v s1 = 0"
    "own p s1 \<union> set xs1 = insert p (set ys)" "budget p s1 xs1 = Suc (length ys)" "only_mem s s1"
    "mem_same (insert p (set ys)) (kmem_mem s) (kmem_mem s1)" "\<forall>v. translate p v s1 = kvm_map v" "frames p s1 = {}"
    by (rule setupkvm_space [OF k(1) len1 k(2) d])
  have disj: "aspace pgdir s \<inter> insert p (set ys) = {}" using k(3) by auto
  note same = uvm_same [OF P 1(7) disj]
  have P1: "uvm_inv pgdir s1 xs1"
    by (rule same(5)) (use 1(2,4) only_mem_kend [OF 1(6)] disj in \<open>auto simp: uvm_inv_def pt_inv_def\<close>)
  have D1: "aspace pgdir s1 \<inter> aspace p s1 = {}" using disj 1(4,9) by (auto simp: same(2,3))
  have z: "(0 :: uint) mod 4096 = 0" by simp
  note pa = page_addrs_props [OF z szn]
  have in_pages: "PGROUNDDOWN v \<in> set (page_addrs 0 sz) \<longleftrightarrow> unat v < 4096 * ?n" for v
    using pa(3) by simp
  have bud: "1025 + length (page_addrs 0 sz) < budget p s1 xs1"
    using len 1(5) pa(4) by (simp add: xs)
  have pre: "\<forall>i\<in>set (page_addrs 0 sz). i mod 4096 = 0 \<and> i < KERNBASE \<and> pte pgdir i s1 AND PTE_P \<noteq> 0 \<and> pte p i s1 AND PTE_P = 0"
    using pa(2) sz pres 1(3) by (auto simp: same(1))
  from copyuvm_loop_ok [OF P1 1(2) D1 pa(1) bud pre] obtain s2 xs2 where 2:
    "copyuvm_loop (page_addrs 0 sz) pgdir p s1 = Ok p s2" "ustep p s1 xs1 s2 xs2"
    "\<forall>v. if PGROUNDDOWN v \<in> set (page_addrs 0 sz)
         then PTE_FLAGS (pte p v s2) = PTE_FLAGS (pte pgdir v s1) \<and> umem p s2 v = umem pgdir s1 v
         else pte p v s2 = pte p v s1"
    by (auto elim!: okE)
  note kept = other_kept [OF P1 D1 2(2)]
  have nz: "p \<noteq> 0" using k(1) by (simp add: kmem_inv_def)
  have e: "copyuvm data pgdir sz s = Ok p s2" using 1(1) 2(1) nz by (simp add: copyuvm_def)
  have U2: "uvm_inv p s2 xs2" using 2(2) by (simp add: ustep_def)
  have cons: "aspace p s2 \<union> set xs2 = set xs" using 2(2) 1(4,9) by (auto simp: ustep_def xs)
  have om: "only_mem s s2" using 1(6) 2(2) by (auto simp: ustep_def intro: only_mem_trans)
  have umP: "\<forall>v<KERNBASE. umem pgdir s2 v = umem pgdir s v" using kept(4) same(4) by simp
  have ptP: "\<forall>v. pte pgdir v s2 = pte pgdir v s" using kept(3) same(1) by simp
  have umC: "umem p s2 v = (if unat v < 4096 * ?n then umem pgdir s v else None)" if "v < KERNBASE" for v
    using 2(3) [rule_format, of v] same(4) [OF that] 1(3) that unfolding in_pages
    by (auto simp: umem_frame split: if_splits)
  have kv: "translate p v s2 = kvm_map v" if "KERNBASE \<le> v" for v
  proof -
    have "4096 * ?n \<le> 2 ^ 31"
    proof -
      have "?n < Suc (2 ^ 19)" using szn by (subst div_less_iff_less_mult) simp_all
      then show ?thesis by simp
    qed
    then have "\<not> unat v < 4096 * ?n" using that by (simp add: word_le_nat_alt KERNBASE_def)
    then have "pte p v s2 = pte p v s1" using 2(3) [rule_format, of v] by (simp add: in_pages)
    then have "translate p v s2 = translate p v s1" by (simp add: translate_pte)
    then show ?thesis using 1(8) by simp
  qed
  have ms: "mem_same (set xs) (kmem_mem s) (kmem_mem s2)"
  proof (rule mem_same_trans)
    show "mem_same (set xs) (kmem_mem s) (kmem_mem s1)" using 1(7) by (simp add: xs)
    show "mem_same (own p s1 \<union> set xs1) (kmem_mem s1) (kmem_mem s2)" using 2(2) by (simp add: ustep_def)
    show "own p s1 \<union> set xs1 \<subseteq> set xs" using 1(4) by (simp add: xs)
  qed
  have pt: "pt_inv pgdir s xs" "pt_inv pgdir s2 xs2" "pt_inv p s2 xs2" using P kept(1) U2 by (simp_all add: uvm_inv_def)
  have vP: "\<forall>v<KERNBASE. uview pgdir s2 v = uview pgdir s v"
    using uview_flags [OF pt(2,1)] umP ptP by simp
  have vC: "uview p s2 v = (if unat v < 4096 * ?n then uview pgdir s v else (None, None, False))" if "v < KERNBASE" for v
    using 2(3) [rule_format, of v] umC [OF that] uview_flags [OF pt(3,1)] uview_unmapped [OF pt(3)]
    by (simp add: in_pages same(1) split: if_splits)
  show thesis
    by (rule that [OF e nz kept(1) U2 kept(2) cons om ptP umP _ _ ms vP]) (use umC kv vC in blast)+
qed


section \<open>Writing user memory from the kernel\<close>

lemma mwrite_at:
  "length bs \<le> 2 ^ 32 \<Longrightarrow> mwrite a bs m x = (if unat (x - a) < length bs then bs ! unat (x - a) else m x)"
proof (induction bs arbitrary: a m)
  case (Cons b bs)
  have IH: "mwrite (a + 1) bs (m(a := b)) x =
      (if unat (x - (a + 1)) < length bs then bs ! unat (x - (a + 1)) else (m(a := b)) x)"
    using Cons by simp
  show ?case
  proof (cases "x = a")
    case True
    have "x - (a + 1) = - 1" using True by simp
    then have "unat (x - (a + 1)) = 2 ^ 32 - 1" by (simp add: unsigned_minus_1_eq_mask mask_eq_exp_minus_1)
    then show ?thesis using IH True Cons.prems by simp
  next
    case False
    then have "x - a \<noteq> 0" by simp
    then have u: "unat (x - a) = Suc (unat (x - (a + 1)))"
      using unat_minus_one [of "x - a"] by (simp add: diff_diff_eq [symmetric] unat_gt_0)
    show ?thesis using IH False by (simp add: u)
  qed
qed simp

lemma frame_write:
  assumes inv: "uvm_inv pgdir s xs" and f: "f \<in> frames pgdir s" and m: "mem_same {f} (kmem_mem s) m"
  shows "uvm_inv pgdir (s\<lparr>kmem_mem := m\<rparr>) xs" "pte pgdir v (s\<lparr>kmem_mem := m\<rparr>) = pte pgdir v s"
    "frames pgdir (s\<lparr>kmem_mem := m\<rparr>) = frames pgdir s"
proof -
  let ?s = "s\<lparr>kmem_mem := m\<rparr>"
  have pt: "pt_inv pgdir s xs" using inv by (simp add: uvm_inv_def)
  have d: "own pgdir s \<inter> {f} = {}" "set xs \<inter> {f} = {}" using inv f by (auto simp: uvm_inv_def)
  have al: "\<forall>v\<in>own pgdir s. v mod 4096 = 0" using pt_inv_page [OF pt] by blast
  have ms: "mem_same {f} (kmem_mem s) (kmem_mem ?s)" using m by simp
  note same = pt_same [OF ms d(1) al]
  show p: "pte pgdir v ?s = pte pgdir v s" for v by (rule same(5))
  have u: "upages pgdir ?s = upages pgdir s" and fr: "frame pgdir v ?s = frame pgdir v s" for v
    by (simp_all add: upages_def frame_def p)
  then show fs: "frames pgdir ?s = frames pgdir s" by (simp add: frames_def)
  have k: "kmem_inv ?s xs" by (rule kmem_inv_mem_same [OF _ m d(2)]) (use pt in \<open>simp add: pt_inv_def\<close>)
  have "pt_inv pgdir ?s xs"
    by (rule pt_inv_same [OF pt ms d(1) k]) (use pt in \<open>auto simp: pt_inv_def\<close>)
  then show "uvm_inv pgdir ?s xs" using inv unfolding uvm_inv_def fs u fr same(4) by simp
qed


definition ureach :: "uint \<Rightarrow> uint \<Rightarrow> 'a kmem_state_scheme \<Rightarrow> bool" where
  "ureach pgdir v s \<longleftrightarrow> pte pgdir v s AND PTE_P \<noteq> 0 \<and> pte pgdir v s AND PTE_U \<noteq> 0"

lemma frame_inj:
  assumes inv: "uvm_inv pgdir s xs" and "frame pgdir v s = frame pgdir w s" "v < KERNBASE" "w < KERNBASE"
    and "pte pgdir v s AND PTE_P \<noteq> 0" "pte pgdir w s AND PTE_P \<noteq> 0"
  shows "PGROUNDDOWN v = PGROUNDDOWN w"
proof -
  have up: "PGROUNDDOWN x \<in> upages pgdir s" if "x < KERNBASE" "pte pgdir x s AND PTE_P \<noteq> 0" for x
    using that PGROUNDDOWN_le [of x] aligned_PGROUNDDOWN [of x] by (auto simp: upages_def pte_page aligned_page)
  have "frame pgdir (PGROUNDDOWN v) s = frame pgdir (PGROUNDDOWN w) s"
    using assms(2) by (simp add: frame_def pte_page)
  moreover have "inj_on (\<lambda>v. frame pgdir v s) (upages pgdir s)" using inv by (simp add: uvm_inv_def)
  ultimately show ?thesis using up assms(3-6) by (auto dest: inj_onD)
qed

lemma uva2ka_ok:
  assumes inv: "uvm_inv pgdir s xs" and u: "ureach pgdir va s" "va < KERNBASE"
  shows "uva2ka pgdir (PGROUNDDOWN va) s = Ok (frame pgdir va s) s" "frame pgdir va s \<noteq> 0"
proof -
  have pt: "pt_inv pgdir s xs" using inv by (simp add: uvm_inv_def)
  have p: "pte pgdir (PGROUNDDOWN va) s = pte pgdir va s" by (rule pte_page)
  have d: "PDX (PGROUNDDOWN va) \<in> dirs pgdir s" using u(1) p by (auto simp: ureach_def pte_def split: if_splits)
  have "mload s (tab pgdir (PDX (PGROUNDDOWN va)) s + 4 * PTX (PGROUNDDOWN va)) = pte pgdir va s"
    using d p by (simp add: pte_def)
  then show "uva2ka pgdir (PGROUNDDOWN va) s = Ok (frame pgdir va s) s"
    using walkpgdir_found [OF d] slot_not_null [OF pt d] u(1)
    by (simp add: uva2ka_def ureach_def frame_def)
  have "frame pgdir va s \<in> frames pgdir s" using frame_in_frames u by (auto simp: ureach_def)
  then show "frame pgdir va s \<noteq> 0" using inv by (auto simp: uvm_inv_def page_ok_def)
qed

text \<open>One round of the loop: the part of the buffer that fits on the page.\<close>

lemma copyout_page:
  assumes inv: "uvm_inv pgdir s xs" and u: "ureach pgdir va s" "va < KERNBASE"
    and n: "length bs \<le> 4096 - unat (va AND 0xFFF)"
  defines "s' \<equiv> s\<lparr>kmem_mem := mwrite (frame pgdir va s + (va AND 0xFFF)) bs (kmem_mem s)\<rparr>"
  shows "uvm_inv pgdir s' xs" "pte pgdir v s' = pte pgdir v s"
    "v < KERNBASE \<Longrightarrow> umem pgdir s' v = (if unat (v - va) < length bs then Some (bs ! unat (v - va)) else umem pgdir s v)"
proof -
  let ?f = "frame pgdir va s" and ?o = "va AND 0xFFF"
  let ?m = "mwrite (?f + ?o) bs (kmem_mem s)"
  have at: "?m x = (if unat (x - (?f + ?o)) < length bs then bs ! unat (x - (?f + ?o)) else kmem_mem s x)" for x
    by (rule mwrite_at) (use n in simp)
  have f: "?f \<in> frames pgdir s" "?f mod 4096 = 0" using frame_in_frames u frame_aligned by (auto simp: ureach_def)
  have within: "PGROUNDDOWN x = a" if "unat (x - (a + ?o)) < length bs" "a mod 4096 = 0" for x a
  proof -
    define d where "d = x - (a + ?o)"
    have "unat d + unat ?o < 4096" using that(1) n by (simp add: d_def)
    then have "unat (d + ?o) < 4096" by (simp add: unat_word_ariths)
    then have "x - a < 4096" by (simp add: word_less_nat_alt d_def)
    then show ?thesis using in_page_iff [OF that(2)] by simp
  qed
  have ms: "mem_same {?f} (kmem_mem s) ?m"
    using within [OF _ f(2)] by (auto simp: mem_same_def at)
  note w = frame_write [OF inv f(1) ms]
  show "uvm_inv pgdir s' xs" "pte pgdir v s' = pte pgdir v s" unfolding s'_def by (rule w)+
  show "umem pgdir s' v = (if unat (v - va) < length bs then Some (bs ! unat (v - va)) else umem pgdir s v)" if "v < KERNBASE"
  proof -
    have va: "va = PGROUNDDOWN va + ?o" using page_split [of va] by simp
    show ?thesis
    proof (cases "PGROUNDDOWN v = PGROUNDDOWN va")
      case True
      then have fr: "frame pgdir v s = ?f" "pte pgdir v s = pte pgdir va s"
        using pte_page [of pgdir v s] pte_page [of pgdir va s] by (simp_all add: frame_def)
      have "v - va = (v AND 0xFFF) - ?o"
        using page_split [of v] page_split [of va] True by (metis add_diff_cancel_left)
      then have "(?f + (v AND 0xFFF)) - (?f + ?o) = v - va" by simp
      then show ?thesis
        using u(1) fr w(2) at [of "?f + (v AND 0xFFF)"] by (simp add: s'_def umem_frame frame_def ureach_def)
    next
      case False
      have "\<not> unat (v - va) < length bs"
        using False within [of v "PGROUNDDOWN va", OF _ aligned_PGROUNDDOWN] va by metis
      moreover have "umem pgdir s' v = umem pgdir s v"
      proof (cases "pte pgdir v s AND PTE_P = 0")
        case p: False
        then have ne: "frame pgdir v s \<noteq> ?f"
          using frame_inj [OF inv _ that u(2)] False u(1) by (auto simp: ureach_def)
        have "kmem_mem s' (frame pgdir v s + (v AND 0xFFF)) = kmem_mem s (frame pgdir v s + (v AND 0xFFF))"
          using ms ne by (simp add: s'_def mem_same_def frame_byte)
        moreover have "frame pgdir v s' = frame pgdir v s" "pte pgdir v s' = pte pgdir v s"
          using w(2) by (simp_all add: s'_def frame_def)
        ultimately show ?thesis using p by (simp add: umem_frame)
      qed (use w(2) in \<open>simp add: s'_def umem_frame\<close>)
      ultimately show ?thesis by simp
    qed
  qed
qed

lemma copyout_step:
  assumes inv: "uvm_inv pgdir s xs" and u: "ureach pgdir va s" "va < KERNBASE" and buf: "buf \<noteq> []"
  shows "copyout pgdir va buf s = copyout pgdir (PGROUNDDOWN va + 4096) (drop (page_chunk va buf) buf)
    (s\<lparr>kmem_mem := mwrite (frame pgdir va s + (va AND 0xFFF)) (take (page_chunk va buf) buf) (kmem_mem s)\<rparr>)"
  using uva2ka_ok [OF inv u] buf PGROUNDDOWN_offset [of va]
  by (subst copyout.simps) (simp add: Let_def PGSIZE_def)

lemma unat_page_chunk: "page_chunk va buf = min (length buf) (4096 - unat (va AND 0xFFF))"
proof -
  have "va AND 0xFFF \<le> 4096" using offset_less [of va] by simp
  then have "unat (PGSIZE - (va AND 0xFFF)) = 4096 - unat (va AND 0xFFF)" by (simp add: PGSIZE_def unat_sub)
  then show ?thesis by (simp add: page_chunk_def PGROUNDDOWN_offset)
qed

lemma unat_offset: "unat (va AND 0xFFF :: uint) = unat va mod 4096"
proof -
  have "va AND 0xFFF = va mod 4096" unfolding mask12 by (simp add: take_bit_eq_mask [symmetric] take_bit_eq_mod)
  then show ?thesis by (simp add: unat_mod)
qed

text \<open>The next page starts where the chunk ends, when there is more to copy.\<close>

lemma next_chunk:
  assumes "unat va + length buf \<le> 2 ^ 31" "va < KERNBASE"
  defines "n \<equiv> page_chunk va buf" and "va' \<equiv> PGROUNDDOWN va + 4096"
  shows "unat va' + length (drop n buf) \<le> 2 ^ 31"
    "unat (v - va') < length (drop n buf) \<longleftrightarrow> n \<le> unat (v - va) \<and> unat (v - va) < length buf"
    "unat (v - va') < length (drop n buf) \<Longrightarrow> unat (v - va) = n + unat (v - va')"
proof -
  have lt: "unat va < 2 ^ 31" using assms(2) by (simp add: word_less_nat_alt KERNBASE_def)
  have n: "n = min (length buf) (4096 - unat va mod 4096)" by (simp add: n_def unat_page_chunk unat_offset)
  have q: "unat va = 4096 * (unat va div 4096) + unat va mod 4096" by simp
  have "unat va div 4096 < 2 ^ 19" using lt by (subst div_less_iff_less_mult) simp_all
  then have u: "unat va' = 4096 * (unat va div 4096) + 4096" "unat va' \<le> 2 ^ 31"
    unfolding va'_def by (simp_all add: unat_word_ariths unat_PGROUNDDOWN)
  have "(unat va' + length (drop n buf) \<le> 2 ^ 31) \<and>
    (unat (v - va') < length (drop n buf) \<longleftrightarrow> n \<le> unat (v - va) \<and> unat (v - va) < length buf) \<and>
    (unat (v - va') < length (drop n buf) \<longrightarrow> unat (v - va) = n + unat (v - va'))"
  proof (cases "n < length buf")
    case False
    then show ?thesis using u(2) by auto
  next
    case True
    then have nn: "n = 4096 - unat va mod 4096" using n by simp
    have "unat va mod 4096 < 4096" by simp
    then have va': "unat va' = unat va + n" using u(1) q nn by linarith
    define d where "d = v - va"
    have n4: "n \<le> 4096" using nn by simp
    define N where "N = va' - va"
    have vn: "v - va' = d - N" by (simp add: d_def N_def)
    have "unat N = n" using va' by (simp add: N_def unat_sub word_le_nat_alt)
    then have e: "unat (v - va') = (if n \<le> unat d then unat d - n else unat d + 2 ^ 32 - n)"
      unfolding vn by (simp add: unat_sub_if')
    show ?thesis
      unfolding e d_def [symmetric] using assms(1) va' True n4 by auto
  qed
  then show "unat va' + length (drop n buf) \<le> 2 ^ 31"
    "unat (v - va') < length (drop n buf) \<longleftrightarrow> n \<le> unat (v - va) \<and> unat (v - va) < length buf"
    "unat (v - va') < length (drop n buf) \<Longrightarrow> unat (v - va) = n + unat (v - va')"
    by blast+
qed

lemma copyout_ok:
  assumes "uvm_inv pgdir s xs" "unat va + length buf \<le> 2 ^ 31" "\<forall>v. unat (v - va) < length buf \<longrightarrow> ureach pgdir v s"
  shows "ok (copyout pgdir va buf s) (\<lambda>r s'. r = 0 \<and> uvm_inv pgdir s' xs \<and> (\<forall>v. pte pgdir v s' = pte pgdir v s) \<and>
      (\<forall>v<KERNBASE. umem pgdir s' v = (if unat (v - va) < length buf then Some (buf ! unat (v - va)) else umem pgdir s v)))"
  using assms
proof (induction buf arbitrary: va s rule: length_induct)
  case (1 buf)
  show ?case
  proof (cases "buf = []")
    case True
    then show ?thesis using 1(2) by (simp add: copyout.simps)
  next
    case False
    let ?n = "page_chunk va buf" and ?va = "PGROUNDDOWN va + 4096"
    have va: "va < KERNBASE" using 1(3) False by (cases buf) (simp_all add: word_less_nat_alt KERNBASE_def)
    have u: "ureach pgdir va s" using 1(4) False by (simp add: unat_gt_0)
    have n: "0 < ?n" "?n \<le> length buf" "length (take ?n buf) \<le> 4096 - unat (va AND 0xFFF)"
      using page_chunk_pos [OF False] by (simp_all add: unat_page_chunk)
    let ?s = "s\<lparr>kmem_mem := mwrite (frame pgdir va s + (va AND 0xFFF)) (take ?n buf) (kmem_mem s)\<rparr>"
    note w = copyout_page [OF 1(2) u va n(3)]
    note rest = next_chunk [OF 1(3) va]
    have "ok (copyout pgdir ?va (drop ?n buf) ?s) (\<lambda>r s'. r = 0 \<and> uvm_inv pgdir s' xs \<and> (\<forall>v. pte pgdir v s' = pte pgdir v ?s) \<and>
      (\<forall>v<KERNBASE. umem pgdir s' v = (if unat (v - ?va) < length (drop ?n buf) then Some (drop ?n buf ! unat (v - ?va)) else umem pgdir ?s v)))"
    proof (rule 1(1) [rule_format, OF _ w(1)])
      show "length (drop ?n buf) < length buf" using n by simp
      show "unat ?va + length (drop ?n buf) \<le> 2 ^ 31" by (rule rest(1))
      show "ureach pgdir v ?s" if "unat (v - ?va) < length (drop ?n buf)" for v
        using that 1(4) rest(2) [of v] w(2) by (simp add: ureach_def)
    qed
    then show ?thesis unfolding copyout_step [OF 1(2) u va False]
    proof (rule ok_mono, elim conjE, intro conjI)
      fix r s'
      assume r: "r = 0" and i: "uvm_inv pgdir s' xs" and p: "\<forall>v. pte pgdir v s' = pte pgdir v ?s"
        and m: "\<forall>v<KERNBASE. umem pgdir s' v = (if unat (v - ?va) < length (drop ?n buf) then Some (drop ?n buf ! unat (v - ?va)) else umem pgdir ?s v)"
      from r show "r = 0" . from i show "uvm_inv pgdir s' xs" .
      show "\<forall>v. pte pgdir v s' = pte pgdir v s" using p w(2) by simp
      show "\<forall>v<KERNBASE. umem pgdir s' v = (if unat (v - va) < length buf then Some (buf ! unat (v - va)) else umem pgdir s v)"
      proof (intro allI impI)
        fix v assume v: "v < KERNBASE"
        show "umem pgdir s' v = (if unat (v - va) < length buf then Some (buf ! unat (v - va)) else umem pgdir s v)"
          using m v w(3) [OF v] rest(2,3) [of v] n(2) by (auto simp: not_less)
      qed
    qed
  qed
qed


section \<open>Properties\<close>

lemma umem_present: "umem pgdir s v \<noteq> None \<longleftrightarrow> pte pgdir v s AND PTE_P \<noteq> 0"
  by (simp add: umem_frame)

lemma user_ok_ureach: "user_ok pgdir v s \<Longrightarrow> ureach pgdir v s"
proof -
  assume u: "user_ok pgdir v s"
  have "bit (pte pgdir v s AND 7) 2" using u by (simp add: user_ok_def bit_numeral_rec)
  then have "bit (pte pgdir v s) 2" by (simp add: bit_and_iff)
  then show ?thesis using user_ok_present [OF u] flag_bits(3) by (simp add: ureach_def)
qed

lemma user_ok_view:
  assumes "pt_inv d s xs" "user_ok d v s" "umem d s v = Some b"
  shows "uview d s v = (Some b, Some b, True)"
proof -
  have "bit (pte d v s AND 7) 1" "bit (pte d v s AND 7) 2" using assms(2) by (simp_all add: user_ok_def bit_numeral_rec)
  then show ?thesis by (simp add: uview_def user_rights [OF assms(1)] assms(3) bit_and_iff)
qed

lemma demo_user:
  obtains s :: kmem_state and d xs where "uvm_inv d s xs" "1800 < length xs"
    "\<forall>v<8192. user_ok d v s \<and> umem d s v = Some 0"
proof (rule demo_space)
  fix s :: kmem_state and d xs
  assume s: "uvm_inv d s xs" "2900 < length xs" "\<forall>v<KERNBASE. pte d v s = 0"
  have c: "PGROUNDUP 0 = 0" "PGROUNDUP 5000 = 8192" by (simp_all add: PGROUNDUP_def PGSIZE_def)
  have free: "\<forall>v. PGROUNDUP 0 \<le> v \<and> v < PGROUNDUP 5000 \<longrightarrow> umem d s v = None"
    using s(3) unfolding c by (auto simp: umem_frame KERNBASE_def word_less_nat_alt)
  from allocuvm_ok [OF s(1) _ _ _ free] s(2) obtain s' xs' where s': "ustep d s xs s' xs'"
    "\<forall>v. if PGROUNDUP 0 \<le> v \<and> v < PGROUNDUP 5000 then user_ok d v s' \<and> umem d s' v = Some 0
         else pte d v s' = pte d v s"
    by (auto simp: c KERNBASE_def elim!: okE)
  have "1800 < length xs'"
  proof -
    have "upages d s' \<subseteq> {0, 4096}"
    proof
      fix v assume v: "v \<in> upages d s'"
      have "v < 8192"
      proof (rule ccontr)
        assume "\<not> v < 8192"
        then have "pte d v s' = pte d v s" using s'(2) unfolding c by meson
        then show False using v s(3) by (auto simp: upages_def)
      qed
      then have "unat v div 4096 < 2" by (simp add: word_less_nat_alt div_less_iff_less_mult)
      moreover have "unat v = 4096 * (unat v div 4096)" using v unat_PGROUNDDOWN [of v] by (simp add: upages_def)
      ultimately have "unat v = 0 \<or> unat v = 4096"
        by (metis less_2_cases mult.right_neutral mult_0_right One_nat_def)
      then show "v \<in> {0, 4096}" by (auto simp: word_unat_eq_iff)
    qed
    then have "card (upages d s') \<le> card {0, 4096 :: uint}" by (rule card_mono [rotated]) simp
    then have "card (frames d s') \<le> 2"
      using card_image_le [of "upages d s'" "\<lambda>v. frame d v s'"] by (simp add: frames_def)
    moreover have "set xs \<subseteq> own d s' \<union> frames d s' \<union> set xs'" using s'(1) by (auto simp: ustep_def)
    then have "card (set xs) \<le> card (own d s' \<union> frames d s' \<union> set xs')" by (rule card_mono [rotated]) simp
    moreover have "card (own d s' \<union> frames d s' \<union> set xs') \<le> card (own d s') + card (frames d s') + length xs'"
      using card_Un_le [of "own d s' \<union> frames d s'" "set xs'"] card_Un_le [of "own d s'" "frames d s'"]
        card_length [of xs'] by linarith
    moreover have "card (set xs) = length xs"
      using s(1) by (simp add: uvm_inv_def pt_inv_def kmem_inv_def distinct_card)
    ultimately show ?thesis using s(2) card_own [of d s'] by linarith
  qed
  then show thesis using s' that [of d s' xs'] unfolding c by (auto simp: ustep_def)
qed



text \<open>
  C4: Forking an address space and freeing the copy (\<open>copyuvm\<close> by \<open>fork\<close>, then \<open>freevm\<close> by \<open>wait\<close>, vm.c) leaks no page and
  frees none twice: afterwards the allocator's free list is well formed and holds exactly the pages that were free before,
  and the parent's address space and memory are as they were.
\<close>

theorem copyuvm_freevm_roundtrip:
  assumes "uvm_inv pgdir s xs" "sz \<le> KERNBASE" "data mod 4096 = 0" "KERNLINK < data" "data < p2v PHYSTOP"
    and "1025 + (unat sz + 4095) div 4096 < length xs" "\<forall>v. v < sz \<longrightarrow> umem pgdir s v \<noteq> None"
  shows "ok (bindk (copyuvm data pgdir sz s) (\<lambda>c s'. freevm c s')) (\<lambda>_ s'.
           (\<exists>ys. uvm_inv pgdir s' ys \<and> set ys = set xs) \<and> (\<forall>v<KERNBASE. umem pgdir s' v = umem pgdir s v))"
proof -
  have pres: "\<forall>v. v < sz \<longrightarrow> pte pgdir v s AND PTE_P \<noteq> 0" using assms(7) umem_present by blast
  obtain c s1 xs1 where 1: "copyuvm data pgdir sz s = Ok c s1" "c \<noteq> 0" "uvm_inv pgdir s1 xs1" "uvm_inv c s1 xs1"
    "aspace pgdir s1 \<inter> aspace c s1 = {}" "aspace c s1 \<union> set xs1 = set xs" "only_mem s s1"
    "\<forall>v. pte pgdir v s1 = pte pgdir v s" "\<forall>v<KERNBASE. umem pgdir s1 v = umem pgdir s v"
    by (rule copyuvm_ok [OF assms(1-6) pres]) blast
  from freevm_ok [OF 1(4)] obtain s2 ys where 2: "freevm c s1 = Ok () s2" "kmem_inv s2 ys"
    "set ys = set xs1 \<union> aspace c s1" "only_mem s1 s2" "mem_same (aspace c s1 \<union> set xs1) (kmem_mem s1) (kmem_mem s2)"
    by (auto elim!: okE)
  have d: "aspace pgdir s1 \<inter> (aspace c s1 \<union> set xs1) = {}" using 1(3,5) by (auto simp: uvm_inv_def pt_inv_def)
  note same = uvm_same [OF 1(3) 2(5) d]
  have "uvm_inv pgdir s2 ys" by (rule same(5) [OF 2(2) only_mem_kend [OF 2(4)]]) (use d 2(3) in blast)
  moreover have "set ys = set xs" using 1(6) 2(3) by blast
  moreover have "\<forall>v<KERNBASE. umem pgdir s2 v = umem pgdir s v" using same(4) 1(9) by simp
  ultimately show ?thesis using 1(1) 2(1) by auto
qed

theorem copyuvm_freevm_roundtrip_witness:
  "\<exists>(s :: kmem_state) d xs. 1800 < length xs \<and> ok (bindk (copyuvm 0x80108000 d 5000 s) (\<lambda>c s'. freevm c s')) (\<lambda>_ s'.
     (\<exists>ys. uvm_inv d s' ys \<and> set ys = set xs) \<and> umem d s' 4999 = Some 0)"
proof -
  obtain s :: kmem_state and d xs where s: "uvm_inv d s xs" "1800 < length xs"
    "\<forall>v<8192. user_ok d v s \<and> umem d s v = Some 0"
    by (rule demo_user)
  have dat: "0x80108000 mod 4096 = (0 :: uint)" "KERNLINK < 0x80108000" "0x80108000 < p2v PHYSTOP"
    by (simp_all add: KERNLINK_def EXTMEM_def layout_defs)
  have pres: "\<forall>v. v < 5000 \<longrightarrow> umem d s v \<noteq> None" using s(3) by (auto simp: word_less_nat_alt)
  have "ok (bindk (copyuvm 0x80108000 d 5000 s) (\<lambda>c s'. freevm c s')) (\<lambda>_ s'.
      (\<exists>ys. uvm_inv d s' ys \<and> set ys = set xs) \<and> (\<forall>v<KERNBASE. umem d s' v = umem d s v))"
    by (rule copyuvm_freevm_roundtrip [OF s(1) _ dat _ pres]) (use s(2) in \<open>simp_all add: KERNBASE_def\<close>)
  then have "ok (bindk (copyuvm 0x80108000 d 5000 s) (\<lambda>c s'. freevm c s')) (\<lambda>_ s'.
      (\<exists>ys. uvm_inv d s' ys \<and> set ys = set xs) \<and> umem d s' 4999 = Some 0)"
    by (rule ok_mono) (use s(3) in \<open>auto simp: KERNBASE_def\<close>)
  with s(2) show ?thesis by blast
qed

text \<open>
  C6: \<open>copyout\<close> (vm.c) writes a buffer of the kernel into a process: if every byte of the target range is on a page that user code may
  access, it returns 0 and user code then reads the buffer there, across page boundaries, and everything else as before; the
  page tables are unchanged.
\<close>

theorem copyout_writes:
  assumes "uvm_inv pgdir s xs" "unat va + length buf \<le> 2 ^ 31"
    and "\<forall>v. unat (v - va) < length buf \<longrightarrow> ureach pgdir v s"
  shows "ok (copyout pgdir va buf s) (\<lambda>r s'. r = 0 \<and> uvm_inv pgdir s' xs \<and>
           (\<forall>v. translate pgdir v s' = translate pgdir v s) \<and>
           (\<forall>v<KERNBASE. umem pgdir s' v =
              (if unat (v - va) < length buf then Some (buf ! unat (v - va)) else umem pgdir s v)))"
  using copyout_ok [OF assms] by (rule ok_mono) (simp add: translate_pte)

theorem copyout_writes_witness:
  "\<exists>(s :: kmem_state) d. ok (copyout d 4094 [1, 2, 3, 4] s) (\<lambda>r s'. r = 0 \<and> umem d s' 4095 = Some 2 \<and>
     umem d s' 4096 = Some 3 \<and> umem d s' 4098 = Some 0)"
proof -
  obtain s :: kmem_state and d xs where s: "uvm_inv d s xs" "1800 < length xs"
    "\<forall>v<8192. user_ok d v s \<and> umem d s v = Some 0"
    by (rule demo_user)
  have u: "ureach d v s" if "unat (v - 4094) < 4" for v
  proof -
    define k where "k = v - 4094"
    have "v = k + 4094" "unat k < 4" using that by (simp_all add: k_def)
    then have "v < 8192" by (simp add: word_less_nat_alt unat_word_ariths)
    then show ?thesis using s(3) user_ok_ureach by blast
  qed
  have "ok (copyout d 4094 [1, 2, 3, 4] s) (\<lambda>r s'. r = 0 \<and> uvm_inv d s' xs \<and>
      (\<forall>v. translate d v s' = translate d v s) \<and>
      (\<forall>v<KERNBASE. umem d s' v = (if unat (v - 4094) < length ([1, 2, 3, 4] :: uchar list)
         then Some ([1, 2, 3, 4] ! unat (v - 4094)) else umem d s v)))"
    by (rule copyout_writes [OF s(1)]) (use u in simp_all)
  then have "ok (copyout d 4094 [1, 2, 3, 4] s) (\<lambda>r s'. r = 0 \<and> umem d s' 4095 = Some 2 \<and>
      umem d s' 4096 = Some 3 \<and> umem d s' 4098 = Some 0)"
    by (rule ok_mono) (use s(3) in \<open>auto simp: KERNBASE_def nth_Cons'\<close>)
  then show ?thesis by blast
qed

end
