(* ===== verification/Fork.thy ===== *)
theory Fork
  imports Process Ucopy
begin

text \<open>
  The whole of \<open>fork\<close> (proc.c): the new process in the table, its kernel stack, its copy of the user memory and
  the references it takes to open files and to the current directory.

  \<open>frefs s f\<close> counts the descriptors, over all processes, that stand for the open file \<open>f\<close>; \<open>files_ok\<close> says that
  the reference counts of the file table are these numbers.
\<close>

section \<open>References to open files\<close>

definition frefs :: "'a sched_state_scheme \<Rightarrow> nat \<Rightarrow> nat" where
  "frefs s f = sum_list (map (\<lambda>p. count_list (p_ofile p) (Some f)) (procs s))"

definition files_ok :: "'a file_state_scheme \<Rightarrow> bool" where
  "files_ok s \<longleftrightarrow> length (procs s) = NPROC \<and>
     (\<forall>p\<in>set (procs s). length (p_ofile p) = NOFILE \<and> (\<forall>f. Some f \<in> set (p_ofile p) \<longrightarrow> f < length (ftable s))) \<and>
     (\<forall>f<length (ftable s). f_ref (ftable s ! f) = of_nat (frefs s f))"

lemma count_list_update_None:
  "\<lbrakk>i < length xs; xs ! i = None\<rbrakk> \<Longrightarrow> count_list (xs[i := Some f]) (Some g) = count_list xs (Some g) + (if g = f then 1 else 0)"
proof (induction xs arbitrary: i)
  case (Cons x xs)
  then show ?case by (cases i) auto
qed simp

abbreviation set_fd :: "nat \<Rightarrow> nat option \<Rightarrow> proc \<Rightarrow> proc" where
  "set_fd i f q \<equiv> q\<lparr>p_ofile := (p_ofile q)[i := f]\<rparr>"

lemma frefs_set_fd:
  assumes "q < length (procs s)" "i < length (p_ofile (procs s ! q))" "p_ofile (procs s ! q) ! i = None"
  shows "frefs (upd_proc q (set_fd i (Some f)) s) g = frefs s g + (if g = f then 1 else 0)"
proof -
  let ?h = "\<lambda>p. count_list (p_ofile p) (Some g)"
  have le: "?h (procs s ! q) \<le> sum_list (map ?h (procs s))"
    using assms(1) elem_le_sum_list [of q "map ?h (procs s)"] by simp
  show ?thesis
    using assms le by (simp add: frefs_def upd_proc_def map_update sum_list_update count_list_update_None)
qed

lemma frefs_bound: "files_ok s \<Longrightarrow> frefs s f \<le> 1024"
proof -
  assume ok: "files_ok s"
  have "sum_list (map (\<lambda>p. count_list (p_ofile p) (Some f)) (procs s)) \<le> sum_list (map (\<lambda>p. NOFILE) (procs s))"
  proof (rule sum_list_mono)
    fix p assume "p \<in> set (procs s)"
    then have "length (p_ofile p) = NOFILE" using ok by (simp add: files_ok_def)
    then show "count_list (p_ofile p) (Some f) \<le> NOFILE" using count_le_length [of "p_ofile p" "Some f"] by simp
  qed
  then show ?thesis using ok by (simp add: frefs_def files_ok_def sum_list_triv NPROC_def NOFILE_def)
qed

lemma frefs_pos:
  assumes "q < length (procs s)" "i < length (p_ofile (procs s ! q))" "p_ofile (procs s ! q) ! i = Some f"
  shows "0 < frefs s f"
proof -
  let ?h = "\<lambda>p. count_list (p_ofile p) (Some f)"
  have "Some f \<in> set (p_ofile (procs s ! q))" using assms(2,3) by (metis nth_mem)
  then have "0 < ?h (procs s ! q)" using count_list_0_iff by fastforce
  also have "?h (procs s ! q) \<le> sum_list (map ?h (procs s))"
    using assms(1) elem_le_sum_list [of q "map ?h (procs s)"] by simp
  finally show ?thesis by (simp add: frefs_def)
qed

text \<open>Duplicating an open file for a free descriptor of process \<open>q\<close> keeps the reference counts right.\<close>

lemma filedup_fd:
  assumes ok: "files_ok s" and f: "0 < frefs s f" "f < length (ftable s)"
    and q: "q < NPROC" "i < NOFILE" "p_ofile (procs s ! q) ! i = None"
  defines "s' \<equiv> upd_file f (\<lambda>x. x\<lparr>f_ref := f_ref x + 1\<rparr>) s"
  shows "filedup f s = Ok f s'" "files_ok (upd_proc q (set_fd i (Some f)) s')"
proof -
  have len: "length (procs s) = NPROC" "length (p_ofile (procs s ! q)) = NOFILE"
    using ok q by (auto simp: files_ok_def)
  have ref: "f_ref (ftable s ! g) = of_nat (frefs s g)" if "g < length (ftable s)" for g
    using ok that by (simp add: files_ok_def)
  have b: "frefs s f \<le> 1024" by (rule frefs_bound [OF ok])
  have "sint (of_nat (frefs s f) :: cint) = int (frefs s f)"
    by (rule sint_of_nat_small) (use b in simp)
  then show "filedup f s = Ok f s'" using ref [OF f(2)] f(1) by (simp add: filedup_def s'_def)
  have fr: "frefs (upd_proc q (set_fd i (Some f)) s') g = frefs s g + (if g = f then 1 else 0)" for g
    using frefs_set_fd [of q s' i f g] q len by (simp add: s'_def upd_file_def frefs_def)
  have pq: "\<forall>g. Some g \<in> set (p_ofile (procs s ! q)) \<longrightarrow> g < length (ftable s)"
    using ok q len unfolding files_ok_def by (metis nth_mem)
  have el: "\<forall>p\<in>set (procs (upd_proc q (set_fd i (Some f)) s')). length (p_ofile p) = NOFILE \<and>
      (\<forall>g. Some g \<in> set (p_ofile p) \<longrightarrow> g < length (ftable s))"
    using ok pq q len f(2)
    by (auto simp: files_ok_def s'_def upd_proc_def upd_file_def dest!: subsetD [OF set_update_subset_insert])
  show "files_ok (upd_proc q (set_fd i (Some f)) s')"
    unfolding files_ok_def using el fr ref f len
    by (simp add: s'_def upd_proc_def upd_file_def nth_list_update add.commute)
qed


lemma frefs_ofiles: "frefs s f = sum_list (map (\<lambda>x. count_list x (Some f)) (map p_ofile (procs s)))"
  by (simp add: frefs_def comp_def)

lemma files_ok_cong:
  assumes "map p_ofile (procs s') = map p_ofile (procs s)" "ftable s' = ftable s"
  shows "files_ok s' = files_ok s"
proof -
  have fr: "frefs s' f = frefs s f" for f
    by (simp only: frefs_ofiles assms(1))
  have l: "length (procs s') = length (procs s)" using assms(1) by (metis length_map)
  have "(\<forall>p\<in>set (procs s'). P (p_ofile p)) = (\<forall>p\<in>set (procs s). P (p_ofile p))" for P
  proof -
    have "(\<forall>x\<in>set (map p_ofile (procs s')). P x) = (\<forall>x\<in>set (map p_ofile (procs s)). P x)" by (simp only: assms(1))
    then show ?thesis by simp
  qed
  from this [of "\<lambda>x. length x = NOFILE \<and> (\<forall>f. Some f \<in> set x \<longrightarrow> f < length (ftable s))"]
  show ?thesis by (simp add: files_ok_def fr l assms(2))
qed

lemma fork_files_ok:
  assumes "files_ok s" "p < NPROC" "np < NPROC" "p \<noteq> np" "set is \<subseteq> {..<NOFILE}" "distinct is"
    "\<forall>i\<in>set is. p_ofile (procs s ! np) ! i = None"
  shows "\<exists>ft fds. let s' = s\<lparr>ftable := ft, procs := (procs s)[np := (procs s ! np)\<lparr>p_ofile := fds\<rparr>]\<rparr> in
     fork_files is p np s = Ok () s' \<and> files_ok s' \<and>
     map (\<lambda>f. f\<lparr>f_ref := 0\<rparr>) ft = map (\<lambda>f. f\<lparr>f_ref := 0\<rparr>) (ftable s) \<and> length fds = NOFILE \<and>
     (\<forall>i<NOFILE. fds ! i = (if i \<in> set is then p_ofile (procs s ! p) ! i else p_ofile (procs s ! np) ! i))"
  using assms
proof (induction "is" arbitrary: s)
  case Nil
  then show ?case by (intro exI [of _ "ftable s"] exI [of _ "p_ofile (procs s ! np)"]) (simp add: files_ok_def)
next
  case (Cons i "is")
  have len: "length (procs s) = NPROC" "length (p_ofile (procs s ! np)) = NOFILE" "length (p_ofile (procs s ! p)) = NOFILE"
    using Cons.prems by (simp_all add: files_ok_def)
  have i: "i < NOFILE" "i \<notin> set is" "p_ofile (procs s ! np) ! i = None" using Cons.prems by auto
  show ?case
  proof (cases "p_ofile (procs s ! p) ! i")
    case None
    from Cons.IH [of s] Cons.prems obtain ft fds where
      r: "fork_files is p np s = Ok () (s\<lparr>ftable := ft, procs := (procs s)[np := (procs s ! np)\<lparr>p_ofile := fds\<rparr>]\<rparr>)"
      "files_ok (s\<lparr>ftable := ft, procs := (procs s)[np := (procs s ! np)\<lparr>p_ofile := fds\<rparr>]\<rparr>)"
      "map (\<lambda>f. f\<lparr>f_ref := 0\<rparr>) ft = map (\<lambda>f. f\<lparr>f_ref := 0\<rparr>) (ftable s)" "length fds = NOFILE"
      "\<forall>i<NOFILE. fds ! i = (if i \<in> set is then p_ofile (procs s ! p) ! i else p_ofile (procs s ! np) ! i)"
      by (auto simp: Let_def)
    have e: "fork_files (i # is) p np s = fork_files is p np s" using None by simp
    have fd: "\<forall>j<NOFILE. fds ! j = (if j \<in> set (i # is) then p_ofile (procs s ! p) ! j else p_ofile (procs s ! np) ! j)"
      using r(5) None i by auto
    show ?thesis unfolding Let_def
      by (rule exI [of _ ft], rule exI [of _ fds]) (use r(1-4) fd in \<open>simp only: e simp_thms\<close>)
  next
    case (Some f)
    have f: "0 < frefs s f" by (rule frefs_pos [of p]) (use Cons.prems len i Some in auto)
    have fl: "f < length (ftable s)"
      using Cons.prems(1,2) Some i(1) len by (metis files_ok_def nth_mem)
    note dup = filedup_fd [OF Cons.prems(1) f fl Cons.prems(3) i(1,3)]
    let ?s = "upd_proc np (set_fd i (Some f)) (upd_file f (\<lambda>x. x\<lparr>f_ref := f_ref x + 1\<rparr>) s)"
    have ps: "procs ?s = (procs s)[np := set_fd i (Some f) (procs s ! np)]" by (simp add: upd_proc_def upd_file_def)
    have "\<exists>ft fds. let s' = ?s\<lparr>ftable := ft, procs := (procs ?s)[np := (procs ?s ! np)\<lparr>p_ofile := fds\<rparr>]\<rparr> in
     fork_files is p np ?s = Ok () s' \<and> files_ok s' \<and>
     map (\<lambda>f. f\<lparr>f_ref := 0\<rparr>) ft = map (\<lambda>f. f\<lparr>f_ref := 0\<rparr>) (ftable ?s) \<and> length fds = NOFILE \<and>
     (\<forall>i<NOFILE. fds ! i = (if i \<in> set is then p_ofile (procs ?s ! p) ! i else p_ofile (procs ?s ! np) ! i))"
      by (rule Cons.IH) (use Cons.prems dup(2) ps i len in \<open>auto simp: nth_list_update\<close>)
    then obtain ft fds where r: "fork_files is p np ?s = Ok () (?s\<lparr>ftable := ft, procs := (procs ?s)[np := (procs ?s ! np)\<lparr>p_ofile := fds\<rparr>]\<rparr>)"
      "files_ok (?s\<lparr>ftable := ft, procs := (procs ?s)[np := (procs ?s ! np)\<lparr>p_ofile := fds\<rparr>]\<rparr>)"
      "map (\<lambda>f. f\<lparr>f_ref := 0\<rparr>) ft = map (\<lambda>f. f\<lparr>f_ref := 0\<rparr>) (ftable ?s)" "length fds = NOFILE"
      "\<forall>i<NOFILE. fds ! i = (if i \<in> set is then p_ofile (procs ?s ! p) ! i else p_ofile (procs ?s ! np) ! i)"
      by (auto simp: Let_def)
    have st: "?s\<lparr>ftable := ft, procs := (procs ?s)[np := (procs ?s ! np)\<lparr>p_ofile := fds\<rparr>]\<rparr> =
        s\<lparr>ftable := ft, procs := (procs s)[np := (procs s ! np)\<lparr>p_ofile := fds\<rparr>]\<rparr>"
      unfolding ps using Cons.prems(3) len(1) by (simp add: upd_proc_def upd_file_def)
    have ft: "map (\<lambda>f. f\<lparr>f_ref := 0\<rparr>) (ftable ?s) = map (\<lambda>f. f\<lparr>f_ref := 0\<rparr>) (ftable s)"
    proof (rule nth_equalityI)
      fix j assume "j < length (map (\<lambda>f. f\<lparr>f_ref := 0\<rparr>) (ftable ?s))"
      then show "map (\<lambda>f. f\<lparr>f_ref := 0\<rparr>) (ftable ?s) ! j = map (\<lambda>f. f\<lparr>f_ref := 0\<rparr>) (ftable s) ! j"
        by (cases "j = f") (simp_all add: upd_proc_def upd_file_def)
    qed (simp add: upd_proc_def upd_file_def)
    have fd: "\<forall>j<NOFILE. fds ! j = (if j \<in> set (i # is) then p_ofile (procs s ! p) ! j else p_ofile (procs s ! np) ! j)"
      using r(5) unfolding ps using Some i Cons.prems(3,4) len by (auto simp: nth_list_update)
    have e: "fork_files (i # is) p np s = fork_files is p np ?s" using Some dup(1) by simp
    show ?thesis unfolding Let_def
      by (rule exI [of _ ft], rule exI [of _ fds]) (use r(1-4) fd in \<open>simp only: e st ft simp_thms\<close>)
  qed
qed

section \<open>The new process\<close>

lemma mem_same_fill_part:
  assumes "v mod 4096 = 0" "unat i + unat n \<le> 4096"
  shows "mem_same {v} m (fill m (v + i) c n)"
proof -
  have "PGROUNDDOWN a = v" if "a - (v + i) < n" for a
  proof -
    define d where "d = a - (v + i)"
    have a: "a = v + (i + d)" by (simp add: d_def)
    have "unat (i + d) \<le> unat i + unat d" by (simp add: unat_word_ariths)
    moreover have "unat d < unat n" using that by (simp add: d_def word_less_nat_alt)
    ultimately have "unat (i + d) < 4096" using assms(2) by linarith
    then show ?thesis unfolding a by (intro page_plus(1) assms(1)) (simp add: word_less_nat_alt)
  qed
  then show ?thesis by (auto simp: mem_same_def fill_def)
qed

lemma allocproc_ok:
  assumes inv: "kmem_inv s (k # xs)" and i: "first_index (\<lambda>p. p_state p = UNUSED) (procs s) = Some i"
  obtains m where "mem_same {k} (kmem_mem s) m" "load32 m (k + 4012) = forkret_addr s" "load32 m (k + 4016) = trapret_addr s"
    "allocproc s = Ok (Some i) ((take_page k m s)\<lparr>procs := (procs s)[i := (procs s ! i)\<lparr>p_state := EMBRYO,
        p_pid := nextpid s, p_kstack := k, p_tf := k + 4020, p_context := k + 3996\<rparr>], nextpid := nextpid s + 1\<rparr>)"
proof -
  have il: "i < length (procs s)" using first_index_Some [OF i] by simp
  have k: "k mod 4096 = 0" "k \<noteq> 0" "kmem_freelist s = k" using inv by (auto simp: kmem_inv_def page_ok_def)
  let ?m1 = "store32 (kmem_mem s) (k + 4016) (trapret_addr s)"
  let ?m2 = "fill ?m1 (k + 3996) 0 20"
  let ?m = "store32 ?m2 (k + 4012) (forkret_addr s)"
  have ar: "k + 4096 - 76 = k + 4020" "k + 4020 - 4 = k + 4016" "k + 4016 - 20 = k + 3996" "k + 3996 + 16 = k + 4012"
    by (simp_all add: algebra_simps)
  have "mem_same {k} (kmem_mem s) ?m1" using mem_same_store [OF k(1), of "1004"] by simp
  moreover have "mem_same {k} ?m1 ?m2" by (rule mem_same_fill_part [OF k(1)]) simp
  moreover have "mem_same {k} ?m2 ?m" using mem_same_store [OF k(1), of "1003"] by simp
  ultimately have ms: "mem_same {k} (kmem_mem s) ?m" by (blast intro: mem_same_trans)
  have l1: "load32 ?m (k + 4012) = forkret_addr s" by simp
  have "load32 ?m (k + 4016) = load32 ?m1 (k + 4016)"
    by (simp add: load32_def store32_def fill_def Let_def)
  then have l2: "load32 ?m (k + 4016) = trapret_addr s" by simp
  have "allocproc s = Ok (Some i) ((take_page k ?m s)\<lparr>procs := (procs s)[i := (procs s ! i)\<lparr>p_state := EMBRYO,
        p_pid := nextpid s, p_kstack := k, p_tf := k + 4020, p_context := k + 3996\<rparr>], nextpid := nextpid s + 1\<rparr>)"
    using i k il by (cases s) (simp add: allocproc_def kalloc_def upd_proc_def Let_def take_page_def KSTACKSIZE_def tf_defs ar add.commute)
  with ms l1 l2 that show thesis by blast
qed

subsection \<open>The trap frame of the child\<close>

lemma store32_mwrite: "store32 m a w = mwrite a (enc32 w) m"
  by (simp add: store32_def enc32_def Let_def add.assoc)

lemma length_mread [simp]: "length (mread m a n) = n"
  by (simp add: mread_def)

lemma nth_mread [simp]: "i < n \<Longrightarrow> mread m a n ! i = m (a + of_nat i)"
  by (simp add: mread_def)

lemma store32_byte: "store32 m a w x = (if unat (x - a) < 4 then enc32 w ! unat (x - a) else m x)"
  using mwrite_at [of "enc32 w" a m x] by (simp add: store32_mwrite enc32_def del: mwrite.simps)

definition copy_tf :: "memory \<Rightarrow> uint \<Rightarrow> uint \<Rightarrow> memory" where
  "copy_tf m a b = store32 (mwrite b (mread m a (unat sizeof_trapframe)) m) (b + tf_eax) 0"

lemma copy_tf_at:
  "copy_tf m a b x = (if unat (x - b) < 76 then if 28 \<le> unat (x - b) \<and> unat (x - b) < 32 then 0 else m (a + (x - b)) else m x)"
proof -
  define d where "d = x - b"
  have x: "x = b + d" by (simp add: d_def)
  have e: "x - (b + 28) = d - 28" by (simp add: d_def)
  have u: "unat (d - 28) < 4 \<longleftrightarrow> 28 \<le> unat d \<and> unat d < 32"
  proof (cases "28 \<le> unat d")
    case True
    then have "28 \<le> d" by (simp add: word_le_nat_alt)
    then have "unat (d - 28) = unat d - 28" by (simp add: unat_sub)
    then show ?thesis using True by auto
  next
    case False
    have "\<not> unat (d - 28) < 4"
    proof
      assume a: "unat (d - 28) < 4"
      have "unat d = unat ((d - 28) + 28)" by simp
      also have "\<dots> = unat (d - 28) + 28" using a by (subst unat_add_lem [THEN iffD1]) simp_all
      finally show False using False by simp
    qed
    then show ?thesis using False by simp
  qed
  have z: "i < 4 \<Longrightarrow> enc32 0 ! i = 0" for i :: nat by (simp add: enc32_def nth_Cons split: nat.split)
  have m: "mwrite b (mread m a 76) m x = (if unat d < 76 then m (a + d) else m x)"
    by (simp add: mwrite_at d_def)
  show ?thesis
    unfolding copy_tf_def tf_defs store32_byte e u d_def [symmetric]
    using z u m by auto
qed

lemma copy_tf_same: "k mod 4096 = 0 \<Longrightarrow> mem_same {k} m (copy_tf m a (k + 4020))"
proof -
  assume k: "k mod 4096 = 0"
  have "PGROUNDDOWN x = k" if "unat (x - (k + 4020)) < 76" for x
  proof -
    define d where "d = x - (k + 4020)"
    have x: "x = k + (4020 + d)" by (simp add: d_def)
    have d: "unat d < 76" using that by (simp add: d_def)
    have "unat (4020 + d) < 4096" using d by (simp add: unat_word_ariths)
    then show ?thesis unfolding x by (intro page_plus(1) k) (simp add: word_less_nat_alt)
  qed
  then show ?thesis by (auto simp: mem_same_def copy_tf_at)
qed

lemma copy_tf_below:
  assumes "unat c + 4 \<le> 4020"
  shows "load32 (copy_tf m a (k + 4020)) (k + c) = load32 m (k + c)"
proof (rule load32_cong)
  fix j :: uint assume "j < 4"
  then have j: "unat j < 4" by (simp add: word_less_nat_alt)
  define d where "d = k + c + j - (k + 4020)"
  have "\<not> unat d < 76"
  proof
    assume d: "unat d < 76"
    have "c + j = 4020 + d" by (simp add: d_def)
    then have "unat (c + j) = unat (4020 + d)" by simp
    then show False using assms j d by (simp add: unat_word_ariths)
  qed
  then show "copy_tf m a (k + 4020) (k + c + j) = m (k + c + j)" by (simp only: copy_tf_at d_def [symmetric] if_False)
qed

lemma copy_tf_read:
  "mread (copy_tf m a b) b 76 = (mread m a 76)[28 := 0, 29 := 0, 30 := 0, 31 := 0]"
proof (rule nth_equalityI)
  fix j assume "j < length (mread (copy_tf m a b) b 76)"
  then have j: "j < 76" by simp
  then have "unat (of_nat j :: uint) = j" by (simp add: unat_of_nat)
  then show "mread (copy_tf m a b) b 76 ! j = (mread m a 76)[28 := 0, 29 := 0, 30 := 0, 31 := 0] ! j"
    using j by (auto simp: copy_tf_at nth_list_update)
qed simp

section \<open>fork\<close>

text \<open>
  A process as the kernel keeps it: \<open>xs\<close> are the free pages, the user memory is mapped up to the size of the process,
  and the trap frame is at the top of the kernel stack, a page of its own.
\<close>

definition proc_wf :: "nat \<Rightarrow> uint list \<Rightarrow> 'a proc_state_scheme \<Rightarrow> bool" where
  "proc_wf p xs s \<longleftrightarrow> p < NPROC \<and> (let P = procs s ! p in
     uvm_inv (p_pgdir P) s xs \<and> p_sz P \<le> KERNBASE \<and> (\<forall>v. v < p_sz P \<longrightarrow> umem (p_pgdir P) s v \<noteq> None) \<and>
     p_kstack P mod 4096 = 0 \<and> p_kstack P \<notin> aspace (p_pgdir P) s \<union> set xs \<and> p_tf P = p_kstack P + 4020 \<and>
     length (p_name P) = 16 \<and> 0 \<in> set (p_name P) \<and> (\<exists>c<length (icache s). p_cwd P = Some c))"

definition slot_free :: "nat \<Rightarrow> 'a proc_state_scheme \<Rightarrow> bool" where
  "slot_free q s \<longleftrightarrow> first_index (\<lambda>p. p_state p = UNUSED) (procs s) = Some q \<and>
     p_ofile (procs s ! q) = replicate NOFILE None \<and> length (p_name (procs s ! q)) = 16"

abbreviation child_of :: "nat \<Rightarrow> nat \<Rightarrow> uint \<Rightarrow> uint \<Rightarrow> 'a proc_state_scheme \<Rightarrow> proc" where
  "child_of p np k d s \<equiv> (procs s ! np)\<lparr>p_pid := nextpid s, p_kstack := k, p_tf := k + 4020, p_context := k + 3996,
     p_pgdir := d, p_sz := p_sz (procs s ! p), p_parent := Some p, p_ofile := p_ofile (procs s ! p), p_cwd := p_cwd (procs s ! p),
     p_name := safestrcpy_str (p_name (procs s ! np)) (cstring (p_name (procs s ! p))) 16, p_state := RUNNABLE\<rparr>"

lemma fork_after_copy:
  assumes cur: "cur s = Some p" and al: "allocproc s = Ok (Some np) s1"
    and s1: "s1 = s\<lparr>kmem_mem := m1, kmem_freelist := fl1, procs := (procs s)[np := (procs s ! np)\<lparr>p_state := EMBRYO,
      p_pid := nextpid s, p_kstack := k, p_tf := k + 4020, p_context := k + 3996\<rparr>], nextpid := nextpid s + 1\<rparr>"
    and cp: "copyuvm (kdata s) (p_pgdir (procs s ! p)) (p_sz (procs s ! p)) s1 = Ok d s2" "d \<noteq> 0" "only_mem s1 s2"
    and p: "p < NPROC" "np < NPROC" "p \<noteq> np" "p_cwd (procs s ! p) = Some c" "c < length (icache s)"
    and files: "files_ok s" "p_ofile (procs s ! np) = replicate NOFILE None"
  obtains ft s' where "fork s = Ok (nextpid s) s'" "files_ok s'"
    "map (\<lambda>f. f\<lparr>f_ref := 0\<rparr>) ft = map (\<lambda>f. f\<lparr>f_ref := 0\<rparr>) (ftable s)"
    "s' = s\<lparr>kmem_mem := copy_tf (kmem_mem s2) (p_tf (procs s ! p)) (k + 4020), kmem_freelist := kmem_freelist s2,
       procs := (procs s)[np := child_of p np k d s], nextpid := nextpid s + 1, ftable := ft,
       icache := (icache s)[c := (icache s ! c)\<lparr>i_ref := i_ref (icache s ! c) + 1\<rparr>]\<rparr>"
proof -
  have len: "length (procs s) = NPROC" "length (p_ofile (procs s ! p)) = NOFILE" using files(1) p(1) by (auto simp: files_ok_def)
  obtain m2 fl where s2: "s2 = s1\<lparr>kmem_mem := m2, kmem_freelist := fl\<rparr>" using cp(3) by (auto simp: only_mem_def)
  define s3 where "s3 = (let s = upd_proc np (\<lambda>q. q\<lparr>p_pgdir := d\<rparr>) s2;
      s = upd_proc np (\<lambda>q. q\<lparr>p_sz := p_sz (procs s ! p), p_parent := Some p\<rparr>) s
    in s\<lparr>kmem_mem := copy_tf (kmem_mem s) (p_tf (procs s ! p)) (p_tf (procs s ! np))\<rparr>)"
  have pp: "procs s1 ! p = procs s ! p" and kd: "kdata s1 = kdata s" using p(3) by (simp_all add: s1)
  have f3: "procs s3 = (procs s)[np := (procs s ! np)\<lparr>p_state := EMBRYO, p_pid := nextpid s, p_kstack := k,
      p_tf := k + 4020, p_context := k + 3996, p_pgdir := d, p_sz := p_sz (procs s ! p), p_parent := Some p\<rparr>]"
    "kmem_mem s3 = copy_tf m2 (p_tf (procs s ! p)) (k + 4020)"
    "ftable s3 = ftable s" "icache s3 = icache s"
    using p(2,3) len by (simp_all add: s3_def Let_def upd_proc_def s2 s1)
  have of3: "p_ofile (procs s3 ! np) = replicate NOFILE None" "procs s3 ! p = procs s ! p"
    using p len files(2) by (simp_all add: f3)
  have "map p_ofile (procs s3) = map p_ofile (procs s)"
    by (simp add: f3 map_update) (metis list_update_id map_update nth_map list_update_beyond linorder_not_less length_map)
  then have ok3: "files_ok s3" using files_ok_cong [of s3 s] files(1) f3(3) by simp
  have sub: "set [0..<NOFILE] \<subseteq> {..<NOFILE}" by auto
  obtain ft fds where ff: "fork_files [0..<NOFILE] p np s3 = Ok () (s3\<lparr>ftable := ft, procs := (procs s3)[np := (procs s3 ! np)\<lparr>p_ofile := fds\<rparr>]\<rparr>)"
    "files_ok (s3\<lparr>ftable := ft, procs := (procs s3)[np := (procs s3 ! np)\<lparr>p_ofile := fds\<rparr>]\<rparr>)" "length fds = NOFILE"
    "\<forall>i<NOFILE. fds ! i = p_ofile (procs s3 ! p) ! i" "map (\<lambda>f. f\<lparr>f_ref := 0\<rparr>) ft = map (\<lambda>f. f\<lparr>f_ref := 0\<rparr>) (ftable s3)"
    using fork_files_ok [OF ok3 p(1-3) sub] of3(1) by (auto simp: Let_def)
  have fds: "fds = p_ofile (procs s ! p)" using ff(3,4) len(2) of3(2) by (auto intro: nth_equalityI)
  define s4 where "s4 = s3\<lparr>ftable := ft, procs := (procs s3)[np := (procs s3 ! np)\<lparr>p_ofile := fds\<rparr>]\<rparr>"
  have p4: "procs s4 ! p = procs s ! p" using p(3) of3(2) by (simp add: s4_def)
  define s5 where "s5 = (let s = upd_proc np (\<lambda>q. q\<lparr>p_cwd := Some c\<rparr>) (idup c s4);
      s = upd_proc np (\<lambda>q. q\<lparr>p_name := safestrcpy_str (p_name q) (cstring (p_name (procs s ! p))) 16\<rparr>) s
    in upd_proc np (\<lambda>q. q\<lparr>p_state := RUNNABLE\<rparr>) s)"
  have "fork s = bindk (fork_files [0..<NOFILE] p np s3) (\<lambda>_ s. case p_cwd (procs s ! p) of None \<Rightarrow> undef
      | Some c \<Rightarrow> let s = upd_proc np (\<lambda>q. q\<lparr>p_cwd := Some c\<rparr>) (idup c s);
             s = upd_proc np (\<lambda>q. q\<lparr>p_name := safestrcpy_str (p_name q) (cstring (p_name (procs s ! p))) 16\<rparr>) s
          in Ok (p_pid (procs s ! np)) (upd_proc np (\<lambda>q. q\<lparr>p_state := RUNNABLE\<rparr>) s))"
    unfolding fork_def s3_def copy_tf_def Let_def using cp(2)
    by (simp add: cur al pp kd cp(1))
  also have "\<dots> = Ok (nextpid s) s5"
    using ff(1) p4 p len by (simp add: s5_def Let_def s4_def [symmetric]) (simp add: s4_def f3 upd_proc_def idup_def upd_inode_def)
  finally have e: "fork s = Ok (nextpid s) s5" .
  have f5: "procs s5 = (procs s)[np := child_of p np k d s]" "kmem_mem s5 = kmem_mem s3" "ftable s5 = ft"
    using p len by (simp_all add: s5_def Let_def s4_def f3 upd_proc_def idup_def upd_inode_def fds)
  have "map p_ofile (procs s5) = map p_ofile (procs s4)"
    by (simp add: f5 s4_def f3 map_update fds)
  then have "files_ok s5" using files_ok_cong [of s5 s4] ff(2) f5(3) by (simp add: s4_def)
  have "s5 = s\<lparr>kmem_mem := copy_tf (kmem_mem s2) (p_tf (procs s ! p)) (k + 4020), kmem_freelist := kmem_freelist s2,
       procs := (procs s)[np := child_of p np k d s], nextpid := nextpid s + 1, ftable := ft,
       icache := (icache s)[c := (icache s ! c)\<lparr>i_ref := i_ref (icache s ! c) + 1\<rparr>]\<rparr>"
    using p len by (cases s) (simp add: s5_def Let_def s4_def s3_def s2 s1 upd_proc_def idup_def upd_inode_def fds)
  with e ff(5) \<open>files_ok s5\<close> f3(3) that show thesis by simp
qed

text \<open>
  The address spaces after \<open>allocproc\<close> has taken the page \<open>k\<close> for the kernel stack, \<open>copyuvm\<close> has run and the kernel
  stack has been written to.
\<close>

lemma fork_space:
  assumes U: "uvm_inv pg s (k # ys)" and s1: "mem_same {k} (kmem_mem s) (kmem_mem s1)" "kmem_inv s1 ys" "kend s1 = kend s"
    and sz: "sz \<le> KERNBASE" "data mod 4096 = 0" "KERNLINK < data" "data < p2v PHYSTOP"
    and len: "1025 + (unat sz + 4095) div 4096 < length ys" and mapped: "\<forall>v. v < sz \<longrightarrow> umem pg s v \<noteq> None"
  obtains d s2 xs2 where "copyuvm data pg sz s1 = Ok d s2" "d \<noteq> 0" "only_mem s1 s2" "mem_same (set ys) (kmem_mem s1) (kmem_mem s2)"
    "\<forall>s'. mem_same {k} (kmem_mem s2) (kmem_mem s') \<and> kmem_freelist s' = kmem_freelist s2 \<and> kend s' = kend s2 \<longrightarrow>
       uvm_inv pg s' xs2 \<and> uvm_inv d s' xs2 \<and> aspace pg s' = aspace pg s \<and> aspace d s' \<union> set xs2 = set ys \<and>
       (\<forall>v<KERNBASE. uview pg s' v = uview pg s v) \<and>
       (\<forall>v<KERNBASE. uview d s' v = (if unat v < 4096 * ((unat sz + 4095) div 4096) then uview pg s v else (None, None, False))) \<and>
       (\<forall>v. KERNBASE \<le> v \<longrightarrow> translate d v s' = kvm_map v)"
proof -
  have k: "aspace pg s \<inter> {k} = {}" "k \<notin> set ys" "aspace pg s \<inter> set ys = {}"
    using U by (auto simp: uvm_inv_def pt_inv_def kmem_inv_def)
  note same1 = uvm_same [OF U s1(1) k(1)]
  have U1: "uvm_inv pg s1 ys" by (rule same1(5) [OF s1(2,3) k(3)])
  have pres: "\<forall>v. v < sz \<longrightarrow> pte pg v s1 AND PTE_P \<noteq> 0" using mapped umem_present by (metis same1(1))
  obtain d s2 xs2 where 2: "copyuvm data pg sz s1 = Ok d s2" "d \<noteq> 0" "uvm_inv pg s2 xs2" "uvm_inv d s2 xs2"
    "aspace d s2 \<union> set xs2 = set ys" "only_mem s1 s2" "\<forall>v<KERNBASE. uview pg s2 v = uview pg s1 v"
    "\<forall>v<KERNBASE. uview d s2 v = (if unat v < 4096 * ((unat sz + 4095) div 4096) then uview pg s1 v else (None, None, False))"
    "\<forall>v. KERNBASE \<le> v \<longrightarrow> translate d v s2 = kvm_map v" "mem_same (set ys) (kmem_mem s1) (kmem_mem s2)"
    by (rule copyuvm_ok [OF U1 sz len pres]) blast
  have d2: "aspace pg s1 \<inter> set ys = {}" using k(3) by (simp add: same1(2,3))
  note same2 = uvm_same [OF U1 2(10) d2]
  have a2: "aspace pg s2 = aspace pg s" by (simp add: same2(2,3) same1(2,3))
  have v1: "uview pg s1 v = uview pg s v" if "v < KERNBASE" for v
    using U U1 by (intro uview_flags [of _ _ ys _ _ "k # ys"]) (simp_all add: uvm_inv_def same1(1) same1(4) [OF that])
  have r: "uvm_inv pg s' xs2 \<and> uvm_inv d s' xs2 \<and> aspace pg s' = aspace pg s \<and> aspace d s' \<union> set xs2 = set ys \<and>
       (\<forall>v<KERNBASE. uview pg s' v = uview pg s v) \<and>
       (\<forall>v<KERNBASE. uview d s' v = (if unat v < 4096 * ((unat sz + 4095) div 4096) then uview pg s v else (None, None, False))) \<and>
       (\<forall>v. KERNBASE \<le> v \<longrightarrow> translate d v s' = kvm_map v)"
    if s': "mem_same {k} (kmem_mem s2) (kmem_mem s')" "kmem_freelist s' = kmem_freelist s2" "kend s' = kend s2" for s'
  proof -
    have dp: "aspace pg s2 \<inter> {k} = {}" and dc: "aspace d s2 \<inter> {k} = {}" and kx: "set xs2 \<inter> {k} = {}"
      using k(1,2) 2(5) a2 by auto
    note sp = uvm_same [OF 2(3) s'(1) dp] and sc = uvm_same [OF 2(4) s'(1) dc]
    have "kmem_inv s2 xs2" using 2(3) by (simp add: uvm_inv_def pt_inv_def)
    from kmem_inv_mem_same [OF this s'(1) kx] have K: "kmem_inv s' xs2" using s'(2,3) by (simp add: kmem_inv_def)
    have ip: "uvm_inv pg s' xs2" by (rule sp(5) [OF K s'(3)]) (use 2(3) in \<open>auto simp: uvm_inv_def pt_inv_def\<close>)
    have ic: "uvm_inv d s' xs2" by (rule sc(5) [OF K s'(3)]) (use 2(4) in \<open>auto simp: uvm_inv_def pt_inv_def\<close>)
    have tr: "translate d v s' = translate d v s2" for v by (simp add: translate_pte sc(1))
    have "uview pg s' v = uview pg s2 v \<and> uview d s' v = uview d s2 v" if "v < KERNBASE" for v
      using ip ic 2(3,4) by (auto intro!: uview_flags [of _ _ xs2 _ _ xs2] simp: uvm_inv_def sp(1) sc(1) sp(4) [OF that] sc(4) [OF that])
    then show ?thesis
      using ip ic tr 2(5,7,8,9) a2 v1 by (simp add: sp(2,3) sc(2,3))
  qed
  show thesis by (rule that [OF 2(1,2,6,10)]) (use r in blast)
qed

lemma cstring_safestrcpy:
  assumes "length d = 16" "length n = 16" "0 \<in> set n"
  shows "cstring (safestrcpy_str d (cstring n) 16) = cstring n" "length (safestrcpy_str d (cstring n) 16) = 16"
    "0 \<in> set (safestrcpy_str d (cstring n) 16)"
proof -
  have nz: "0 \<notin> set (cstring n)" by (auto simp: cstring_def dest: set_takeWhileD)
  have "cstring n = take (length (cstring n)) n" unfolding cstring_def by (rule takeWhile_eq_take)
  then have "length (cstring n) \<noteq> 16" using nz assms(2,3) by (metis order_refl take_all)
  moreover have "length (cstring n) \<le> 16" using length_takeWhile_le [of _ n] by (simp add: cstring_def assms(2))
  ultimately have len: "length (cstring n) < 16" by simp
  define r where "r = (if length (cstring n) < 15 then cstring n @ [0, 0] else take 15 (cstring n) @ [0])"
  obtain zs where r: "r = cstring n @ 0 # zs" "length r \<le> 16"
    using len unfolding r_def by (cases "length (cstring n) < 15") auto
  have e: "safestrcpy_str d (cstring n) 16 = r @ drop (length r) d"
    by (simp add: safestrcpy_str_def splice_def r_def)
  have nz': "takeWhile (\<lambda>c. c \<noteq> 0) (cstring n) = cstring n" using nz by (simp add: takeWhile_eq_all_conv) metis
  then have tw: "takeWhile (\<lambda>c. c \<noteq> 0) (cstring n @ 0 # ys) = cstring n" for ys
    using nz by (simp add: takeWhile_append)
  show "cstring (safestrcpy_str d (cstring n) 16) = cstring n"
    unfolding e by (simp add: r(1) cstring_def [of "_ @ _"] tw)
  show "0 \<in> set (safestrcpy_str d (cstring n) 16)" by (simp add: e r(1))
  show "length (safestrcpy_str d (cstring n) 16) = 16"
    using r(2) assms(1) by (simp add: e)
qed

lemma mread_same:
  assumes "mem_same P m m'" "v mod 4096 = 0" "v \<notin> P" "unat i + n \<le> 4096"
  shows "mread m' (v + i) n = mread m (v + i) n"
proof (rule nth_equalityI)
  fix j assume "j < length (mread m' (v + i) n)"
  then have j: "j < n" by simp
  then have "unat (i + of_nat j) < 4096" using assms(4) by (simp add: unat_word_ariths unat_of_nat)
  then have "PGROUNDDOWN (v + (i + of_nat j)) = v" by (intro page_plus(1) assms(2)) (simp add: word_less_nat_alt)
  then show "mread m' (v + i) n ! j = mread m (v + i) n ! j"
    using assms(1,3) j by (simp add: mem_same_def add.assoc)
qed simp

text \<open>The run of \<open>fork\<close>: \<open>k\<close> is the page of the new kernel stack, \<open>m\<close> the memory before the trap frame is copied.\<close>

lemma fork_run:
  fixes s :: "'a proc_state_scheme"
  assumes "cur s = Some p" "proc_wf p xs s" "p_state (procs s ! p) \<noteq> UNUSED" "slot_free np s" "files_ok s"
    and "kdata s mod 4096 = 0" "KERNLINK < kdata s" "kdata s < p2v PHYSTOP"
    and "1026 + (unat (p_sz (procs s ! p)) + 4095) div 4096 < length xs"
  obtains k d xs' s' m where "fork s = Ok (nextpid s) s'" "files_ok s'" "procs s' = (procs s)[np := child_of p np k d s]"
    "\<forall>c. p_cwd (procs s ! p) = Some c \<longrightarrow> icache s' = (icache s)[c := (icache s ! c)\<lparr>i_ref := i_ref (icache s ! c) + 1\<rparr>]"
    "nextpid s' = nextpid s + 1" "map (\<lambda>f. f\<lparr>f_ref := 0\<rparr>) (ftable s') = map (\<lambda>f. f\<lparr>f_ref := 0\<rparr>) (ftable s)"
    "np < NPROC" "np < length (procs s)" "k mod 4096 = 0" "k \<in> set xs"
    "uvm_inv (p_pgdir (procs s ! p)) s' xs'" "uvm_inv d s' xs'" "aspace (p_pgdir (procs s ! p)) s' = aspace (p_pgdir (procs s ! p)) s"
    "aspace d s' \<union> set xs' = set xs - {k}" "\<forall>v<KERNBASE. uview (p_pgdir (procs s ! p)) s' v = uview (p_pgdir (procs s ! p)) s v"
    "\<forall>v<KERNBASE. uview d s' v = (if unat v < 4096 * ((unat (p_sz (procs s ! p)) + 4095) div 4096)
       then uview (p_pgdir (procs s ! p)) s v else (None, None, False))"
    "\<forall>v. KERNBASE \<le> v \<longrightarrow> translate d v s' = kvm_map v"
    "mem_same (set xs) (kmem_mem s) m" "kmem_mem s' = copy_tf m (p_tf (procs s ! p)) (k + 4020)"
    "load32 m (k + 4012) = forkret_addr s" "load32 m (k + 4016) = trapret_addr s"
proof -
  let ?P = "procs s ! p"
  obtain k ys where xs: "xs = k # ys" using assms(9) by (cases xs) auto
  have wf: "p < NPROC" "uvm_inv (p_pgdir ?P) s (k # ys)" "p_sz ?P \<le> KERNBASE" "\<forall>v. v < p_sz ?P \<longrightarrow> umem (p_pgdir ?P) s v \<noteq> None"
    using assms(2) by (auto simp: proc_wf_def Let_def xs)
  obtain c where c: "p_cwd ?P = Some c" "c < length (icache s)" using assms(2) by (auto simp: proc_wf_def Let_def)
  have K: "kmem_inv s (k # ys)" and pt: "pt_inv (p_pgdir ?P) s (k # ys)" and k: "k mod 4096 = 0" "k \<notin> set ys"
    using wf(2) by (auto simp: uvm_inv_def pt_inv_def kmem_inv_def page_ok_def)
  have np: "first_index (\<lambda>p. p_state p = UNUSED) (procs s) = Some np" "p_ofile (procs s ! np) = replicate NOFILE None"
    using assms(4) by (simp_all add: slot_free_def)
  have npl: "np < NPROC" "np < length (procs s)" "p \<noteq> np"
    using first_index_Some [OF np(1)] assms(3,5) by (auto simp: files_ok_def)
  obtain m1 where a: "mem_same {k} (kmem_mem s) m1" "load32 m1 (k + 4012) = forkret_addr s" "load32 m1 (k + 4016) = trapret_addr s"
    "allocproc s = Ok (Some np) ((take_page k m1 s)\<lparr>procs := (procs s)[np := (procs s ! np)\<lparr>p_state := EMBRYO,
        p_pid := nextpid s, p_kstack := k, p_tf := k + 4020, p_context := k + 3996\<rparr>], nextpid := nextpid s + 1\<rparr>)"
    by (rule allocproc_ok [OF K np(1)])
  define s1 where "s1 = s\<lparr>kmem_mem := m1, kmem_freelist := mload s k, procs := (procs s)[np := (procs s ! np)\<lparr>p_state := EMBRYO,
      p_pid := nextpid s, p_kstack := k, p_tf := k + 4020, p_context := k + 3996\<rparr>], nextpid := nextpid s + 1\<rparr>"
  have al: "allocproc s = Ok (Some np) s1" using a(4) by (simp add: s1_def take_page_def)
  have f1: "mem_same {k} (kmem_mem s) (kmem_mem s1)" "kmem_inv s1 ys" "kend s1 = kend s"
    using a(1) take_page_pt(1) [OF pt a(1)] by (simp_all add: s1_def take_page_def pt_inv_def kmem_inv_def)
  have len: "1025 + (unat (p_sz ?P) + 4095) div 4096 < length ys" using assms(9) by (simp add: xs)
  obtain d s2 xs2 where 2: "copyuvm (kdata s) (p_pgdir ?P) (p_sz ?P) s1 = Ok d s2" "d \<noteq> 0" "only_mem s1 s2"
    "mem_same (set ys) (kmem_mem s1) (kmem_mem s2)"
    "\<forall>s' :: 'a proc_state_scheme. mem_same {k} (kmem_mem s2) (kmem_mem s') \<and> kmem_freelist s' = kmem_freelist s2 \<and> kend s' = kend s2 \<longrightarrow>
       uvm_inv (p_pgdir ?P) s' xs2 \<and> uvm_inv d s' xs2 \<and> aspace (p_pgdir ?P) s' = aspace (p_pgdir ?P) s \<and> aspace d s' \<union> set xs2 = set ys \<and>
       (\<forall>v<KERNBASE. uview (p_pgdir ?P) s' v = uview (p_pgdir ?P) s v) \<and>
       (\<forall>v<KERNBASE. uview d s' v = (if unat v < 4096 * ((unat (p_sz ?P) + 4095) div 4096) then uview (p_pgdir ?P) s v else (None, None, False))) \<and>
       (\<forall>v. KERNBASE \<le> v \<longrightarrow> translate d v s' = kvm_map v)"
    by (rule fork_space [OF wf(2) f1 wf(3) assms(6-8) len wf(4)])
  obtain ft s' where s': "fork s = Ok (nextpid s) s'" "files_ok s'"
    "map (\<lambda>f. f\<lparr>f_ref := 0\<rparr>) ft = map (\<lambda>f. f\<lparr>f_ref := 0\<rparr>) (ftable s)"
    "s' = s\<lparr>kmem_mem := copy_tf (kmem_mem s2) (p_tf ?P) (k + 4020), kmem_freelist := kmem_freelist s2,
       procs := (procs s)[np := child_of p np k d s], nextpid := nextpid s + 1, ftable := ft,
       icache := (icache s)[c := (icache s ! c)\<lparr>i_ref := i_ref (icache s ! c) + 1\<rparr>]\<rparr>"
    by (rule fork_after_copy [OF assms(1) al s1_def 2(1-3) wf(1) npl(1,3) c assms(5) np(2)])
  have ms: "mem_same {k} (kmem_mem s2) (kmem_mem s')" using copy_tf_same [OF k(1)] by (simp add: s'(4))
  have fl: "kmem_freelist s' = kmem_freelist s2" "kend s' = kend s2" using only_mem_kend [OF 2(3)] by (simp_all add: s'(4) s1_def)
  have sp: "uvm_inv (p_pgdir ?P) s' xs2 \<and> uvm_inv d s' xs2 \<and> aspace (p_pgdir ?P) s' = aspace (p_pgdir ?P) s \<and> aspace d s' \<union> set xs2 = set ys \<and>
       (\<forall>v<KERNBASE. uview (p_pgdir ?P) s' v = uview (p_pgdir ?P) s v) \<and>
       (\<forall>v<KERNBASE. uview d s' v = (if unat v < 4096 * ((unat (p_sz ?P) + 4095) div 4096) then uview (p_pgdir ?P) s v else (None, None, False))) \<and>
       (\<forall>v. KERNBASE \<le> v \<longrightarrow> translate d v s' = kvm_map v)"
    using 2(5) ms fl by blast
  have ms2: "mem_same (set xs) (kmem_mem s) (kmem_mem s2)"
    by (rule mem_same_trans [OF mem_same_mono [OF f1(1)] 2(4)]) (auto simp: xs)
  have ld: "load32 (kmem_mem s2) (k + 4012) = forkret_addr s" "load32 (kmem_mem s2) (k + 4016) = trapret_addr s"
    using mem_same_slot [OF 2(4) k, of 1003] mem_same_slot [OF 2(4) k, of 1004] a(2,3) by (simp_all add: s1_def)
  show thesis
    by (rule that [OF s'(1,2) _ _ _ _ npl(1,2) k(1) _ _ _ _ _ _ _ _ ms2 _ ld]) (use sp k(2) c(1) s'(3) in \<open>auto simp: s'(4) xs\<close>)
qed

text \<open>
  C2: \<open>fork\<close> (proc.c), from the process table to the page tables. With a free slot and enough free pages it returns the pid of a new
  process that is runnable, has the parent's size, open files, current directory and name, a user memory of its own
  with the same contents and the same access rights, and the parent's trap frame with \<open>eax\<close> (bytes 28 to 31) cleared, on a kernel
  stack that starts in \<open>forkret\<close> and continues in \<open>trapret\<close>. Both processes are well formed on disjoint pages; the reference
  counts of the open files still count the descriptors and the inode of the current directory has one reference more; the
  parent, its memory and all other processes are as before.
\<close>

theorem fork_copies_process:
  assumes "cur s = Some p" "proc_wf p xs s" "p_state (procs s ! p) \<noteq> UNUSED" "slot_free np s" "files_ok s"
    and "kdata s mod 4096 = 0" "KERNLINK < kdata s" "kdata s < p2v PHYSTOP"
    and "1026 + (unat (p_sz (procs s ! p)) + 4095) div 4096 < length xs"
  shows "ok (fork s) (\<lambda>pid s'. let P = procs s ! p; C = procs s' ! np in
     pid = nextpid s \<and> (\<exists>xs'. proc_wf p xs' s' \<and> proc_wf np xs' s') \<and> files_ok s' \<and>
     (\<forall>q. q \<noteq> np \<longrightarrow> procs s' ! q = procs s ! q) \<and> aspace (p_pgdir P) s' \<inter> aspace (p_pgdir C) s' = {} \<and>
     (\<forall>v<KERNBASE. uview (p_pgdir P) s' v = uview (p_pgdir P) s v) \<and>
     (\<forall>v<KERNBASE. uview (p_pgdir C) s' v =
        (if unat v < 4096 * ((unat (p_sz P) + 4095) div 4096) then uview (p_pgdir P) s v else (None, None, False))) \<and>
     (\<forall>v. KERNBASE \<le> v \<longrightarrow> translate (p_pgdir C) v s' = kvm_map v) \<and>
     p_state C = RUNNABLE \<and> p_pid C = pid \<and> p_parent C = Some p \<and> p_sz C = p_sz P \<and> p_ofile C = p_ofile P \<and>
     p_cwd C = p_cwd P \<and>
     (\<forall>c. p_cwd P = Some c \<longrightarrow> icache s' = (icache s)[c := (icache s ! c)\<lparr>i_ref := i_ref (icache s ! c) + 1\<rparr>]) \<and>
     map (\<lambda>f. f\<lparr>f_ref := 0\<rparr>) (ftable s') = map (\<lambda>f. f\<lparr>f_ref := 0\<rparr>) (ftable s) \<and> nextpid s' = nextpid s + 1 \<and> cstring (p_name C) = cstring (p_name P) \<and>
     mread (kmem_mem s') (p_tf P) 76 = mread (kmem_mem s) (p_tf P) 76 \<and>
     mread (kmem_mem s') (p_tf C) 76 = (mread (kmem_mem s) (p_tf P) 76)[28 := 0, 29 := 0, 30 := 0, 31 := 0] \<and>
     load32 (kmem_mem s') (p_context C + ctx_eip) = forkret_addr s \<and>
     load32 (kmem_mem s') (p_context C + sizeof_context) = trapret_addr s)"
proof -
  let ?P = "procs s ! p"
  obtain k d xs' s' m where r: "fork s = Ok (nextpid s) s'" "files_ok s'" "procs s' = (procs s)[np := child_of p np k d s]"
    "np < NPROC" "np < length (procs s)" "k mod 4096 = 0" "k \<in> set xs"
    "uvm_inv (p_pgdir ?P) s' xs'" "uvm_inv d s' xs'" "aspace (p_pgdir ?P) s' = aspace (p_pgdir ?P) s" "aspace d s' \<union> set xs' = set xs - {k}"
    and ic: "\<forall>c. p_cwd ?P = Some c \<longrightarrow> icache s' = (icache s)[c := (icache s ! c)\<lparr>i_ref := i_ref (icache s ! c) + 1\<rparr>]"
    "nextpid s' = nextpid s + 1" "map (\<lambda>f. f\<lparr>f_ref := 0\<rparr>) (ftable s') = map (\<lambda>f. f\<lparr>f_ref := 0\<rparr>) (ftable s)"
    and uv: "\<forall>v<KERNBASE. uview (p_pgdir ?P) s' v = uview (p_pgdir ?P) s v"
    "\<forall>v<KERNBASE. uview d s' v = (if unat v < 4096 * ((unat (p_sz ?P) + 4095) div 4096) then uview (p_pgdir ?P) s v else (None, None, False))"
    "\<forall>v. KERNBASE \<le> v \<longrightarrow> translate d v s' = kvm_map v"
    and m: "mem_same (set xs) (kmem_mem s) m" "kmem_mem s' = copy_tf m (p_tf ?P) (k + 4020)"
    "load32 m (k + 4012) = forkret_addr s" "load32 m (k + 4016) = trapret_addr s"
    by (rule fork_run [OF assms])
  have wf: "p < NPROC" "uvm_inv (p_pgdir ?P) s xs" "p_sz ?P \<le> KERNBASE" "\<forall>v. v < p_sz ?P \<longrightarrow> umem (p_pgdir ?P) s v \<noteq> None"
    "p_kstack ?P mod 4096 = 0" "p_kstack ?P \<notin> aspace (p_pgdir ?P) s \<union> set xs" "p_tf ?P = p_kstack ?P + 4020"
    and nm: "length (p_name ?P) = 16" "0 \<in> set (p_name ?P)" "\<exists>c<length (icache s). p_cwd ?P = Some c"
    using assms(2) by (simp_all add: proc_wf_def Let_def)
  have np: "length (p_name (procs s ! np)) = 16" "p \<noteq> np"
    using assms(3,4) first_index_Some by (auto simp: slot_free_def)
  have pr: "procs s' ! p = ?P" "procs s' ! np = child_of p np k d s" using np(2) r(3,5) by simp_all
  have il: "length (icache s') = length (icache s)" using ic(1) nm(3) by auto
  have um: "\<forall>v<KERNBASE. umem (p_pgdir ?P) s' v = umem (p_pgdir ?P) s v"
    "\<forall>v<KERNBASE. umem d s' v = (if unat v < 4096 * ((unat (p_sz ?P) + 4095) div 4096) then umem (p_pgdir ?P) s v else None)"
    using uv(1,2) by (auto simp: uview_def split: if_splits)
  note nc = cstring_safestrcpy [OF np(1) nm(1,2)]
  have lt: "v < p_sz ?P \<Longrightarrow> v < KERNBASE \<and> unat v < 4096 * ((unat (p_sz ?P) + 4095) div 4096)" for v
    using wf(3) by (auto simp: word_less_nat_alt word_le_nat_alt)
  have wp: "proc_wf p xs' s'" unfolding proc_wf_def Let_def pr
    using wf nm lt um(1) il r(8,10,11) by auto
  have wc: "proc_wf np xs' s'" unfolding proc_wf_def Let_def pr
    using wf(3,4) nm(3) lt um(2) il r(4-9,11) nc by auto
  have dj: "aspace (p_pgdir ?P) s' \<inter> aspace d s' = {}"
    using wf(2) r(10,11) by (auto simp: uvm_inv_def pt_inv_def)
  have ks: "p_kstack ?P \<notin> set xs" "p_kstack ?P \<noteq> k" using wf(6) r(7) by auto
  have tfp: "mread m (p_tf ?P) 76 = mread (kmem_mem s) (p_tf ?P) 76"
    unfolding wf(7) by (rule mread_same [OF m(1) wf(5) ks(1)]) simp
  have tfp': "mread (kmem_mem s') (p_tf ?P) 76 = mread m (p_tf ?P) 76"
    unfolding wf(7) m(2) by (rule mread_same [OF copy_tf_same [OF r(6)] wf(5)]) (use ks(2) in auto)
  have cx: "k + 3996 + ctx_eip = k + 4012" "k + 3996 + sizeof_context = k + 4016" by (simp_all add: tf_defs)
  show ?thesis
    unfolding r(1) ok_Ok Let_def pr proc.simps cx
    using r(2) wp wc dj uv ic nc(1) tfp tfp' m copy_tf_below [of 4012] copy_tf_below [of 4016] r(3)
    by (auto simp: copy_tf_read cx)
qed

text \<open>A process with two pages of memory and one file open under two descriptors, and 63 free slots.\<close>

definition demo_proc :: "uint \<Rightarrow> uint \<Rightarrow> proc" where
  "demo_proc d k = proc0\<lparr>p_sz := 5000, p_pgdir := d, p_kstack := k, p_state := RUNNING, p_pid := 1, p_tf := k + 4020,
     p_ofile := Some 0 # Some 0 # replicate 14 None, p_cwd := Some 0\<rparr>"

definition demo_fork :: "kmem_state \<Rightarrow> uint \<Rightarrow> uint \<Rightarrow> proc_state" where
  "demo_fork z d k = (file_state.extend (file_zero (\<lambda>_ _. [])) (proc_state.fields 0 0x80108000 0 0 0 False 0))\<lparr>
     kmem_mem := kmem_mem z, kmem_freelist := mload z k, kend := kend z, cur := Some 0, nextpid := 2, forkret_addr := 7, trapret_addr := 8,
     procs := demo_proc d k # replicate 63 proc0, ftable := file0\<lparr>f_ref := 2\<rparr> # replicate 99 file0,
     icache := [inode0\<lparr>i_ref := 1\<rparr>]\<rparr>"

lemma demo_fork_fields [simp]:
  "kmem_mem (demo_fork z d k) = kmem_mem z" "kmem_freelist (demo_fork z d k) = mload z k" "kend (demo_fork z d k) = kend z"
  "cur (demo_fork z d k) = Some 0" "nextpid (demo_fork z d k) = 2" "procs (demo_fork z d k) = demo_proc d k # replicate 63 proc0"
  "ftable (demo_fork z d k) = file0\<lparr>f_ref := 2\<rparr> # replicate 99 file0" "icache (demo_fork z d k) = [inode0\<lparr>i_ref := 1\<rparr>]"
  "kdata (demo_fork z d k) = 0x80108000" "forkret_addr (demo_fork z d k) = 7"
  by (simp_all add: demo_fork_def file_state.defs proc_state.defs)

lemma demo_fork_files: "files_ok (demo_fork z d k)"
proof -
  have fr: "frefs (demo_fork z d k) f = (if f = 0 then 2 else 0)" for f
    by (simp add: frefs_def demo_proc_def proc0_def sum_list_replicate)
  have e: "f_ref ((file0\<lparr>f_ref := 2\<rparr> # replicate 99 file0) ! f) = (if f = 0 then 2 else 0)" if "f < 100" for f
    using that by (cases f) (simp_all add: file0_def)
  show ?thesis
    unfolding files_ok_def using e fr by (auto simp: demo_proc_def proc0_def NPROC_def NOFILE_def)
qed

lemma demo_fork_wf:
  obtains z d k xs where "proc_wf 0 xs (demo_fork z d k)" "1500 < length xs" "uview d (demo_fork z d k) 4999 = (Some 0, Some 0, True)"
proof -
  obtain z :: kmem_state and d xs where z: "uvm_inv d z xs" "1800 < length xs" "\<forall>v<8192. user_ok d v z \<and> umem d z v = Some 0"
    by (rule demo_user)
  then obtain k ys where xs: "xs = k # ys" by (cases xs) auto
  let ?s = "demo_fork z d k"
  have pt: "pt_inv d z (k # ys)" using z(1) by (simp add: uvm_inv_def xs)
  have k: "k \<notin> aspace d z" "k \<notin> set ys" "k mod 4096 = 0" "aspace d z \<inter> set ys = {}"
    using z(1) by (auto simp: uvm_inv_def pt_inv_def kmem_inv_def page_ok_def xs)
  have "kmem_inv (take_page k (kmem_mem z) z) ys" using take_page_pt(1) [OF pt mem_same_refl] by (simp add: pt_inv_def)
  then have K: "kmem_inv ?s ys" by (simp add: take_page_def kmem_inv_def)
  have ms: "mem_same {} (kmem_mem z) (kmem_mem ?s)" by simp
  note same = uvm_same [OF z(1) ms]
  have U: "uvm_inv d ?s ys" by (rule same(5)) (use K k(4) in simp_all)
  have um: "umem d ?s v = Some 0" if "v < 8192" for v
    using that z(3) same(4) [of v] by (simp add: KERNBASE_def word_less_nat_alt)
  have uo: "user_ok d v ?s" if "v < 8192" for v using that z(3) same(1) by (simp add: user_ok_def)
  have uv: "uview d ?s 4999 = (Some 0, Some 0, True)"
    by (rule user_ok_view [of _ _ ys]) (use U uo um in \<open>simp_all add: uvm_inv_def\<close>)
  have "proc_wf 0 ys ?s"
    unfolding proc_wf_def Let_def using U um k same(2,3)
    by (simp add: demo_proc_def proc0_def NPROC_def KERNBASE_def word_less_nat_alt)
  moreover have "1500 < length ys" using z(2) by (simp add: xs)
  ultimately show thesis using that uv by simp
qed

theorem fork_copies_process_witness:
  "\<exists>s :: proc_state. ok (fork s) (\<lambda>pid s'. pid = 2 \<and> files_ok s' \<and> p_state (procs s' ! 1) = RUNNABLE \<and>
     uread (p_pgdir (procs s' ! 1)) s' 4999 = Some 0 \<and> uwrite (p_pgdir (procs s' ! 1)) s' 4999 \<and>
     p_ofile (procs s' ! 1) = Some 0 # Some 0 # replicate 14 None \<and> i_ref (icache s' ! 0) = 2 \<and>
     load32 (kmem_mem s') (p_context (procs s' ! 1) + ctx_eip) = 7)"
proof -
  obtain z d k xs where w: "proc_wf 0 xs (demo_fork z d k)" "1500 < length xs" "uview d (demo_fork z d k) 4999 = (Some 0, Some 0, True)"
    by (rule demo_fork_wf)
  let ?s = "demo_fork z d k"
  have "first_index (\<lambda>p. p_state p = UNUSED) (procs ?s) = Some 1"
    by (rule first_index_eq) (simp_all add: demo_proc_def proc0_def)
  then have sl: "slot_free 1 ?s" by (simp add: slot_free_def demo_proc_def proc0_def NOFILE_def)
  have P: "p_state (procs ?s ! 0) \<noteq> UNUSED" "p_sz (procs ?s ! 0) = 5000" "p_pgdir (procs ?s ! 0) = d"
    "p_ofile (procs ?s ! 0) = Some 0 # Some 0 # replicate 14 None" "p_cwd (procs ?s ! 0) = Some 0"
    by (simp_all add: demo_proc_def proc0_def)
  have dat: "kdata ?s mod 4096 = 0" "KERNLINK < kdata ?s" "kdata ?s < p2v PHYSTOP"
    by (simp_all add: KERNLINK_def EXTMEM_def layout_defs)
  have len: "1026 + (unat (p_sz (procs ?s ! 0)) + 4095) div 4096 < length xs" unfolding P(2) using w(2) by simp
  have c: "cur ?s = Some 0" by simp
  show ?thesis
  proof (intro exI [of _ ?s], rule ok_mono [OF fork_copies_process [OF c w(1) P(1) sl demo_fork_files dat len]])
    fix pid and s' :: proc_state
    let ?C = "procs s' ! 1"
    assume r: "let P = procs ?s ! 0; C = procs s' ! 1 in
     pid = nextpid ?s \<and> (\<exists>xs'. proc_wf 0 xs' s' \<and> proc_wf 1 xs' s') \<and> files_ok s' \<and>
     (\<forall>q. q \<noteq> 1 \<longrightarrow> procs s' ! q = procs ?s ! q) \<and> aspace (p_pgdir P) s' \<inter> aspace (p_pgdir C) s' = {} \<and>
     (\<forall>v<KERNBASE. uview (p_pgdir P) s' v = uview (p_pgdir P) ?s v) \<and>
     (\<forall>v<KERNBASE. uview (p_pgdir C) s' v =
        (if unat v < 4096 * ((unat (p_sz P) + 4095) div 4096) then uview (p_pgdir P) ?s v else (None, None, False))) \<and>
     (\<forall>v. KERNBASE \<le> v \<longrightarrow> translate (p_pgdir C) v s' = kvm_map v) \<and>
     p_state C = RUNNABLE \<and> p_pid C = pid \<and> p_parent C = Some 0 \<and> p_sz C = p_sz P \<and> p_ofile C = p_ofile P \<and>
     p_cwd C = p_cwd P \<and>
     (\<forall>c. p_cwd P = Some c \<longrightarrow> icache s' = (icache ?s)[c := (icache ?s ! c)\<lparr>i_ref := i_ref (icache ?s ! c) + 1\<rparr>]) \<and>
     map (\<lambda>f. f\<lparr>f_ref := 0\<rparr>) (ftable s') = map (\<lambda>f. f\<lparr>f_ref := 0\<rparr>) (ftable ?s) \<and> nextpid s' = nextpid ?s + 1 \<and>
     cstring (p_name C) = cstring (p_name P) \<and>
     mread (kmem_mem s') (p_tf P) 76 = mread (kmem_mem ?s) (p_tf P) 76 \<and>
     mread (kmem_mem s') (p_tf C) 76 = (mread (kmem_mem ?s) (p_tf P) 76)[28 := 0, 29 := 0, 30 := 0, 31 := 0] \<and>
     load32 (kmem_mem s') (p_context C + ctx_eip) = forkret_addr ?s \<and>
     load32 (kmem_mem s') (p_context C + sizeof_context) = trapret_addr ?s"
    then have f: "pid = 2" "files_ok s'" "p_state ?C = RUNNABLE" "p_ofile ?C = Some 0 # Some 0 # replicate 14 None"
      "load32 (kmem_mem s') (p_context ?C + ctx_eip) = 7"
      and v: "\<forall>v<KERNBASE. uview (p_pgdir ?C) s' v =
        (if unat v < 4096 * ((unat (p_sz (procs ?s ! 0)) + 4095) div 4096) then uview d ?s v else (None, None, False))"
      and i: "icache s' = (icache ?s)[0 := (icache ?s ! 0)\<lparr>i_ref := i_ref (icache ?s ! 0) + 1\<rparr>]"
      using P unfolding Let_def by auto
    have "uview (p_pgdir ?C) s' 4999 = (Some 0, Some 0, True)"
      using v w(3) unfolding P(2) by (simp add: KERNBASE_def)
    then show "pid = 2 \<and> files_ok s' \<and> p_state ?C = RUNNABLE \<and> uread (p_pgdir ?C) s' 4999 = Some 0 \<and> uwrite (p_pgdir ?C) s' 4999 \<and>
       p_ofile ?C = Some 0 # Some 0 # replicate 14 None \<and> i_ref (icache s' ! 0) = 2 \<and>
       load32 (kmem_mem s') (p_context ?C + ctx_eip) = 7"
      using f i by (simp add: uview_def)
  qed
qed

end
