(* ===== verification/Boot.thy ===== *)
theory Boot
  imports Process Paging
begin

text \<open>
  The first two steps of \<open>main\<close> (main.c): the pages below 4 MB go to the page allocator, and the kernel's page table is built from them
  and loaded. From then on the kernel runs on the map that \<open>setupkvm\<close> describes.
\<close>

definition main_memory :: "'a proc_state_scheme \<Rightarrow> ('a proc_state_scheme, unit) outcome" where
  "main_memory s = bindk (kinit1 (kend s) (p2v (4 * 1024 * 1024)) s) (\<lambda>_ s. kvmalloc s)"

text \<open>\<open>kinit1\<close> changes memory and the allocator's variables only.\<close>

lemma freerange_only_mem: "freerange_from p e s = Ok () t \<Longrightarrow> only_mem s t"
proof (induction p e s rule: freerange_from.induct)
  case (1 p e s)
  show ?case
  proof (cases "p + PGSIZE \<le> e")
    case True
    with 1(2) obtain u where u: "kfree p s = Ok () u" "freerange_from (p + PGSIZE) e u = Ok () t"
      by (auto simp: freerange_from.simps [of p e s] bindk_Ok_iff)
    have "only_mem s u" using u(1) by (auto simp: kfree_def Let_def only_mem_def split: if_splits)
    with 1(1) [OF True, of "()" u] u show ?thesis by (auto elim: only_mem_trans)
  next
    case False
    with 1(2) show ?thesis by (simp add: freerange_from.simps [of p e s])
  qed
qed

lemma kinit1_kdata:
  assumes "kinit1 a b s = Ok () t" shows "kdata t = kdata s"
proof -
  have "only_mem (s\<lparr>kmem_use_lock := False\<rparr>) t"
    using assms freerange_only_mem by (auto simp: kinit1_def freerange_def)
  then obtain m f where "t = s\<lparr>kmem_use_lock := False, kmem_mem := m, kmem_freelist := f\<rparr>" by (auto simp: only_mem_def)
  then show ?thesis by simp
qed

text \<open>There are enough pages when the kernel ends 66 pages below 4 MB.\<close>

lemma low_pages_enough:
  assumes "0x80000000 \<le> e" "e \<le> 0x803BE000" "set xs = low_pages e"
  shows "66 \<le> length xs"
proof -
  have "set (pages 66 0x803BE000) \<subseteq> set xs"
    using assms(1,2) unfolding assms(3) by (auto simp: set_pages page_ok_unat word_le_nat_alt word_less_nat_alt)
  then have "card (set (pages 66 0x803BE000)) \<le> card (set xs)" by (intro card_mono) auto
  moreover have "card (set (pages 66 0x803BE000)) = length (pages 66 0x803BE000)" by (intro distinct_card distinct_pages) simp
  moreover have "length (pages n p) = n" for n p by (induction n arbitrary: p) auto
  ultimately show ?thesis using card_length [of xs] by simp
qed

text \<open>Loading the new directory.\<close>

lemma loaded_frame:
  "translate d v (s\<lparr>kpgdir := x, cr3 := y\<rparr>) = translate d v s" "pte d v (s\<lparr>kpgdir := x, cr3 := y\<rparr>) = pte d v s"
  "kmem_free (s\<lparr>kpgdir := x, cr3 := y\<rparr>) F = kmem_free s F" "own d (s\<lparr>kpgdir := x, cr3 := y\<rparr>) = own d s"
  by (simp_all add: translate_pte pte_def own_def dirs_def tab_def pde_def kmem_free_def kmem_inv_def)

lemma kvmalloc_ok:
  assumes "kmem_free s F" "kmem_inv s xs" "set xs = F" "65 < length xs" "kdata s mod 4096 = 0" "KERNLINK < kdata s" "kdata s < p2v PHYSTOP"
  shows "ok (kvmalloc s) (\<lambda>_ s'. cr3 s' = v2p (kpgdir s') \<and> (\<forall>v. translate (kpgdir s') v s' = kvm_map v) \<and>
     (\<forall>v. pte (kpgdir s') v s' AND PTE_U = 0) \<and>
     (\<forall>v. pte (kpgdir s') v s' AND PTE_W \<noteq> 0 \<longleftrightarrow> kvm_map v \<noteq> None \<and> \<not> (KERNLINK \<le> v \<and> v < kdata s)) \<and>
     own (kpgdir s') s' \<subseteq> F \<and> kmem_free s' (F - own (kpgdir s') s') \<and> kend s' = kend s)"
proof -
  obtain p ys where xs: "xs = p # ys" using assms(4) by (cases xs) auto
  let ?s = "mzero_page p (s\<lparr>kmem_freelist := mload s p\<rparr>)"
  obtain s' zs where s': "setupkvm (kdata s) s = Ok p s'" "vstep p ?s ys s' zs" "\<forall>v. pte p v s' = kvm_entry (kdata s) v"
    using setupkvm_ok [OF assms(2) [unfolded xs] _ assms(5-7)] assms(4) xs by auto
  have own0: "own p ?s = {p}" using fresh_dir(3) [OF assms(2) [unfolded xs]] by (simp add: own_def)
  have o: "own p s' \<union> set zs = F" "own p s' \<inter> set zs = {}" "kmem_inv s' zs"
    using s'(2) assms(3) own0 xs by (auto simp: vstep_def pt_inv_def)
  have "kmem_free s' (F - own p s')" using o by (auto simp: kmem_free_def)
  moreover have "kend s' = kend s" using s'(2) only_mem_kend [of ?s s'] by (simp add: vstep_def mzero_page_def)
  moreover have "kvmalloc s = Ok () (s'\<lparr>kpgdir := p, cr3 := v2p p\<rparr>)" using s'(1) by (simp add: kvmalloc_def switchkvm_def)
  ultimately show ?thesis
    using kvm_translate [OF assms(5-7) s'(3)] o(1) by (auto simp: loaded_frame)
qed

section \<open>Properties\<close>

text \<open>
  C39: Booting sets up memory: when the kernel ends at least 66 pages below 4 MB of physical memory and its symbol \<open>data\<close> is
  page aligned and after the start of its text, \<open>kinit1\<close> and \<open>kvmalloc\<close>, the first
  two calls of \<open>main\<close>, return, and the processor then runs on a page table that is exactly the kernel's memory map, closed to user
  mode and with the kernel's text write protected. The pages of the table come out of the pages below 4 MB, and the free list has
  exactly the other ones, so the \<open>kinit2\<close> that comes later, if called next, leaves all pages of memory free but those of the table.
\<close>

theorem boot_memory:
  assumes "kmem_freelist s = 0" "0x80000000 \<le> kend s" "kend s \<le> 0x803BE000"
    and "kdata s mod 4096 = 0" "KERNLINK < kdata s" "kdata s < p2v PHYSTOP"
  shows "ok (main_memory s) (\<lambda>_ s'. cr3 s' = v2p (kpgdir s') \<and> (\<forall>v. translate (kpgdir s') v s' = kvm_map v) \<and>
     (\<forall>v. pte (kpgdir s') v s' AND PTE_U = 0) \<and>
     (\<forall>v. pte (kpgdir s') v s' AND PTE_W \<noteq> 0 \<longleftrightarrow> kvm_map v \<noteq> None \<and> \<not> (KERNLINK \<le> v \<and> v < kdata s)) \<and>
     own (kpgdir s') s' \<subseteq> low_pages (kend s) \<and> kmem_free s' (low_pages (kend s) - own (kpgdir s') s') \<and>
     ok (kinit2 (p2v (4 * 1024 * 1024)) (p2v PHYSTOP) s') (\<lambda>_ t. kmem_free t ({v. page_ok (kend s) v} - own (kpgdir s') s')))"
proof -
  have e: "kend s \<le> 0x80400000" using assms(3) by (rule order_trans) simp
  obtain t where t: "kinit1 (kend s) (p2v 4194304) s = Ok () t" "kmem_free t (low_pages (kend s))" "kend t = kend s"
    using kinit1_low [OF assms(1,2) e] by (auto simp: ok_iff)
  obtain xs where xs: "kmem_inv t xs" "set xs = low_pages (kend s)" using t(2) by (auto simp: kmem_free_def)
  have len: "65 < length xs" using low_pages_enough [OF assms(2,3) xs(2)] by simp
  have kd: "kdata t = kdata s" using t(1) by (rule kinit1_kdata)
  note d = assms(4-6) [folded kd]
  have k2: "ok (kinit2 (p2v 4194304) (p2v PHYSTOP) u) (\<lambda>_ w. kmem_free w ({v. page_ok (kend s) v} - P))"
    if u: "kmem_free u (low_pages (kend s) - P)" "kend u = kend s" "P \<subseteq> low_pages (kend s)" for u :: "'a proc_state_scheme" and P
  proof -
    have "low_pages (kend s) - P \<union> high_pages (kend s) = {v. page_ok (kend s) v} - P" using u(3) by auto
    then show ?thesis using kinit2_high [OF u(1), unfolded u(2)] assms(2) e by (auto simp: ok_iff)
  qed
  show ?thesis
    using kvmalloc_ok [OF t(2) xs len d] t(1,3) k2 kd by (auto simp: main_memory_def ok_iff)
qed

definition boot_state :: proc_state where
  "boot_state = (file_state.extend (file_zero (\<lambda>_ _. [])) (proc_state.fields 0 0x80108000 0 0 0 False 0))\<lparr>kmem_freelist := 0, kend := 0x80115000\<rparr>"

theorem boot_memory_witness:
  "ok (main_memory boot_state) (\<lambda>_ s'. translate (kpgdir s') 0x80100004 s' = Some 0x100004 \<and> translate (kpgdir s') 0x1000 s' = None)"
proof -
  have b: "kmem_freelist boot_state = 0" "kend boot_state = 0x80115000" "kdata boot_state = 0x80108000"
    by (simp_all add: boot_state_def file_state.defs proc_state.defs)
  have "ok (main_memory boot_state) (\<lambda>_ s'. \<forall>v. translate (kpgdir s') v s' = kvm_map v)"
    by (rule ok_mono [OF boot_memory]) (simp_all add: b KERNLINK_def EXTMEM_def layout_defs)
  then show ?thesis
    by (rule ok_mono) (simp add: kvm_map_def KERNLINK_def EXTMEM_def DEVSPACE_def layout_defs)
qed

end
