(* ===== verification/Spinlock.thy ===== *)
theory Spinlock
  imports Sched
begin

text \<open>
  Spin locks (spinlock.c) on several CPUs. Each function is given as the steps that are atomic with respect to the
  other CPUs; \<open>lock_step\<close> interleaves the steps of all CPUs, \<open>acquire\<close> and \<open>release\<close> are
  their sequences on one CPU. CPUs are numbered, \<open>None\<close> is the null pointer.
\<close>

section \<open>State\<close>

record spinlock =
  locked :: uint
  lk_cpu :: "nat option"
  lk_pcs :: "uint list"

record cpu_s =
  ncli :: cint
  intena :: bool
  eflags_if :: bool

section \<open>Operations\<close>

definition initlock :: "spinlock \<Rightarrow> spinlock" where
  "initlock lk = lk\<lparr>locked := 0, lk_cpu := None\<rparr>"

definition holding :: "nat \<Rightarrow> spinlock \<Rightarrow> bool" where
  "holding i lk \<longleftrightarrow> locked lk \<noteq> 0 \<and> lk_cpu lk = Some i"

definition pushcli :: "cpu_s \<Rightarrow> cpu_s" where
  "pushcli c =
     (let eflags = eflags_if c; c = c\<lparr>eflags_if := False\<rparr>; n = ncli c; c = c\<lparr>ncli := n + 1\<rparr>
      in if n = 0 then c\<lparr>intena := eflags\<rparr> else c)"

definition popcli :: "cpu_s \<Rightarrow> (cpu_s, unit) outcome" where
  "popcli c =
     (if eflags_if c then Panic ''popcli - interruptible''
      else let c = c\<lparr>ncli := ncli c - 1\<rparr>
           in if sint (ncli c) < 0 then Panic ''popcli''
              else if ncli c = 0 \<and> intena c then Ok () (c\<lparr>eflags_if := True\<rparr>)
              else Ok () c)"

text \<open>The return addresses on the stack, from the frame pointer \<open>ebp\<close> on.\<close>

fun callerpcs :: "memory \<Rightarrow> uint \<Rightarrow> nat \<Rightarrow> uint list" where
  "callerpcs m ebp 0 = []"
| "callerpcs m ebp (Suc n) =
     (if ebp = 0 \<or> ebp < KERNBASE \<or> ebp = 0xffffffff then replicate (Suc n) 0
      else load32 m (ebp + 4) # callerpcs m (load32 m ebp) n)"

definition getcallerpcs :: "memory \<Rightarrow> uint \<Rightarrow> uint list" where
  "getcallerpcs m v = callerpcs m (v - 8) 10"

text \<open>\<open>xchg\<close> on the lock's word: the old value and the lock with the new one.\<close>

definition xchg_locked :: "spinlock \<Rightarrow> uint \<Rightarrow> uint \<times> spinlock" where
  "xchg_locked lk v = (locked lk, lk\<lparr>locked := v\<rparr>)"

definition record_holder :: "nat \<Rightarrow> uint list \<Rightarrow> spinlock \<Rightarrow> spinlock" where
  "record_holder i pcs lk = lk\<lparr>lk_cpu := Some i, lk_pcs := pcs\<rparr>"

definition forget_holder :: "spinlock \<Rightarrow> spinlock" where
  "forget_holder lk = lk\<lparr>lk_pcs := (lk_pcs lk)[0 := 0], lk_cpu := None\<rparr>"

text \<open>\<open>acquire\<close> and \<open>release\<close> by CPU \<open>i\<close> when no other CPU intervenes; \<open>m\<close> is the memory, \<open>v\<close> the address of the argument.\<close>

definition acquire :: "memory \<Rightarrow> uint \<Rightarrow> nat \<Rightarrow> spinlock \<times> cpu_s \<Rightarrow> (spinlock \<times> cpu_s, unit) outcome" where
  "acquire m v i s =
     (case s of (lk, c) \<Rightarrow>
        let c = pushcli c
        in if holding i lk then Panic ''acquire''
           else case xchg_locked lk 1 of
                  (old, lk) \<Rightarrow> if old \<noteq> 0 then Spin else Ok () (record_holder i (getcallerpcs m v) lk, c))"

definition release :: "nat \<Rightarrow> spinlock \<times> cpu_s \<Rightarrow> (spinlock \<times> cpu_s, unit) outcome" where
  "release i s =
     (case s of (lk, c) \<Rightarrow>
        if \<not> holding i lk then Panic ''release''
        else let lk = forget_holder lk; (old, lk) = xchg_locked lk 0
             in case popcli c of Ok _ c \<Rightarrow> Ok () (lk, c) | Panic msg \<Rightarrow> Panic msg | Sleep ch c \<Rightarrow> Sleep ch (lk, c) | Spin \<Rightarrow> Spin)"

section \<open>Interleavings\<close>

text \<open>
  Where a CPU is in its acquire-release cycle: outside; before a try of the exchange; after the successful
  exchange; in the critical section; after it has cleared the holder; after it has freed the lock; panicked.
\<close>

datatype lock_pc = Outside | Spinning | Got | Critical | Leaving | Freed | Dead string

record smp =
  lock :: spinlock
  cpus :: "nat \<Rightarrow> cpu_s"
  pc :: "nat \<Rightarrow> lock_pc"

inductive lock_step :: "smp \<Rightarrow> smp \<Rightarrow> bool" where
  enter: "pc s i = Outside \<Longrightarrow>
    lock_step s (s\<lparr>cpus := (cpus s)(i := pushcli (cpus s i)),
      pc := (pc s)(i := if holding i (lock s) then Dead ''acquire'' else Spinning)\<rparr>)"
| attempt: "pc s i = Spinning \<Longrightarrow> xchg_locked (lock s) 1 = (old, lk) \<Longrightarrow>
    lock_step s (s\<lparr>lock := lk, pc := (pc s)(i := if old \<noteq> 0 then Spinning else Got)\<rparr>)"
| own: "pc s i = Got \<Longrightarrow>
    lock_step s (s\<lparr>lock := record_holder i (getcallerpcs m v) (lock s), pc := (pc s)(i := Critical)\<rparr>)"
| leave: "pc s i = Critical \<Longrightarrow> holding i (lock s) \<Longrightarrow>
    lock_step s (s\<lparr>lock := forget_holder (lock s), pc := (pc s)(i := Leaving)\<rparr>)"
| leave_panic: "pc s i = Critical \<Longrightarrow> \<not> holding i (lock s) \<Longrightarrow>
    lock_step s (s\<lparr>pc := (pc s)(i := Dead ''release'')\<rparr>)"
| free: "pc s i = Leaving \<Longrightarrow> xchg_locked (lock s) 0 = (old, lk) \<Longrightarrow>
    lock_step s (s\<lparr>lock := lk, pc := (pc s)(i := Freed)\<rparr>)"
| pop: "pc s i = Freed \<Longrightarrow> popcli (cpus s i) = Ok () c \<Longrightarrow>
    lock_step s (s\<lparr>cpus := (cpus s)(i := c), pc := (pc s)(i := Outside)\<rparr>)"
| pop_panic: "pc s i = Freed \<Longrightarrow> popcli (cpus s i) = Panic msg \<Longrightarrow>
    lock_step s (s\<lparr>pc := (pc s)(i := Dead msg)\<rparr>)"

section \<open>Interrupts\<close>

text \<open>
  With interrupts disabled \<open>n\<close> times: interrupts are off whenever \<open>n > 0\<close>, and the outermost call remembers
  whether they were on.
\<close>

definition cli_ok :: "nat \<Rightarrow> cpu_s \<Rightarrow> bool" where
  "cli_ok n c \<longleftrightarrow> n < 2 ^ 31 \<and> ncli c = of_nat n \<and> (0 < n \<longrightarrow> \<not> eflags_if c)"

text \<open>The interrupt flag once all calls of \<open>pushcli\<close> are undone.\<close>

definition eventual_if :: "cpu_s \<Rightarrow> bool" where
  "eventual_if c \<longleftrightarrow> (if ncli c = 0 then eflags_if c else intena c)"

lemma of_nat_eq_0_small: "n < 2 ^ 31 \<Longrightarrow> (of_nat n :: cint) = 0 \<longleftrightarrow> n = 0"
  by (simp add: word_unat_eq_iff unat_of_nat)

lemma pushcli_ok:
  assumes "cli_ok n c" "Suc n < 2 ^ 31"
  shows "cli_ok (Suc n) (pushcli c)" "eventual_if (pushcli c) = eventual_if c"
proof -
  have "(of_nat n + 1 :: cint) \<noteq> 0"
    using of_nat_eq_0_small [OF assms(2)] by (simp add: add.commute)
  then show "cli_ok (Suc n) (pushcli c)" "eventual_if (pushcli c) = eventual_if c"
    using assms by (auto simp: cli_ok_def pushcli_def eventual_if_def Let_def)
qed

lemma popcli_ok:
  assumes "cli_ok (Suc n) c"
  shows "\<exists>c'. popcli c = Ok () c' \<and> cli_ok n c' \<and> eventual_if c' = eventual_if c"
proof -
  have n: "Suc n < 2 ^ 31" "ncli c - 1 = of_nat n" "\<not> eflags_if c" "ncli c \<noteq> 0"
    using assms of_nat_eq_0_small [of "Suc n"] by (auto simp: cli_ok_def)
  moreover have "sint (of_nat n :: cint) = int n"
    using n(1) by (intro sint_of_nat_small) simp
  ultimately show ?thesis
    using of_nat_eq_0_small [of n] by (auto simp: popcli_def Let_def cli_ok_def eventual_if_def)
qed

section \<open>Mutual exclusion\<close>

definition has_lock :: "lock_pc \<Rightarrow> bool" where
  "has_lock p \<longleftrightarrow> p = Got \<or> p = Critical \<or> p = Leaving"

text \<open>How often the CPU has disabled interrupts, on top of the \<open>n\<close> times before the lock is used.\<close>

definition cli_depth :: "lock_pc \<Rightarrow> nat \<Rightarrow> nat" where
  "cli_depth p n = (if p = Outside then n else Suc n)"

definition cli_inv :: "(nat \<Rightarrow> nat) \<Rightarrow> (nat \<Rightarrow> bool) \<Rightarrow> smp \<Rightarrow> bool" where
  "cli_inv n b s \<longleftrightarrow> (\<forall>i. cli_ok (cli_depth (pc s i) (n i)) (cpus s i) \<and> eventual_if (cpus s i) = b i)"

text \<open>The lock as the option of the CPU \<open>h\<close> that has it.\<close>

definition owner_inv :: "nat option \<Rightarrow> smp \<Rightarrow> bool" where
  "owner_inv h s \<longleftrightarrow> (\<forall>i. has_lock (pc s i) \<longleftrightarrow> h = Some i) \<and> (locked (lock s) \<noteq> 0 \<longleftrightarrow> h \<noteq> None) \<and>
     (\<forall>i. lk_cpu (lock s) = Some i \<longleftrightarrow> pc s i = Critical) \<and> (\<forall>i msg. pc s i \<noteq> Dead msg)"

lemma cli_inv_pc:
  assumes "cli_inv n b s" "cpus s' = cpus s" "\<And>i. pc s' i = Outside \<longleftrightarrow> pc s i = Outside"
  shows "cli_inv n b s'"
  using assms by (simp add: cli_inv_def cli_depth_def)

lemma owner_pc: "owner_inv h s \<Longrightarrow> h = Some i \<longleftrightarrow> has_lock (pc s i)"
  by (simp add: owner_inv_def)

lemma cli_inv_step:
  assumes "lock_step s s'" "cli_inv n b s" and n: "\<forall>i. Suc (n i) < 2 ^ 31" and p: "\<And>i msg. pc s' i \<noteq> Dead msg"
  shows "cli_inv n b s'"
  using assms(1)
proof cases
  case (enter i)
  have "cli_ok (n i) (cpus s i)" "eventual_if (cpus s i) = b i"
    using assms(2) enter(2) by (auto simp: cli_inv_def cli_depth_def dest: spec [of _ i])
  then have "cli_ok (Suc (n i)) (pushcli (cpus s i))" "eventual_if (pushcli (cpus s i)) = b i"
    using n pushcli_ok [of "n i" "cpus s i"] by auto
  then show ?thesis
    using assms(2) unfolding enter(1) cli_inv_def by (simp add: cli_depth_def)
next
  case (pop i c)
  have "cli_ok (Suc (n i)) (cpus s i)" "eventual_if (cpus s i) = b i"
    using assms(2) pop(2) by (auto simp: cli_inv_def cli_depth_def dest: spec [of _ i])
  then have "cli_ok (n i) c" "eventual_if c = b i"
    using popcli_ok [of "n i" "cpus s i"] pop(3) by auto
  then show ?thesis
    using assms(2) unfolding pop(1) cli_inv_def by (simp add: cli_depth_def)
qed (rule cli_inv_pc [OF assms(2)]; simp)+

lemma owner_inv_step:
  assumes "lock_step s s'" "owner_inv h s" "cli_inv n b s"
  shows "\<exists>h'. owner_inv h' s'"
  using assms(1)
proof cases
  case (enter i)
  have "\<not> holding i (lock s)"
    using assms(2) enter(2) by (simp add: owner_inv_def holding_def)
  then have "owner_inv h s'"
    using assms(2) owner_pc [OF assms(2), of i] enter(2) unfolding enter(1) owner_inv_def by (auto simp: has_lock_def)
  then show ?thesis ..
next
  case (attempt i old lk)
  have "owner_inv (if h = None then Some i else h) s'"
    using assms(2) owner_pc [OF assms(2), of i] attempt(2,3) unfolding attempt(1) owner_inv_def xchg_locked_def by (auto simp: has_lock_def)
  then show ?thesis ..
next
  case (own i m v)
  have "owner_inv h s'"
    using assms(2) owner_pc [OF assms(2), of i] own(2) unfolding own(1) owner_inv_def record_holder_def by (auto simp: has_lock_def)
  then show ?thesis ..
next
  case (leave i)
  have "owner_inv h s'"
    using assms(2) owner_pc [OF assms(2), of i] leave(2) unfolding leave(1) owner_inv_def forget_holder_def by (auto simp: has_lock_def)
  then show ?thesis ..
next
  case (leave_panic i)
  then show ?thesis
    using assms(2) by (auto simp: owner_inv_def has_lock_def holding_def)
next
  case (free i old lk)
  have "owner_inv None s'"
    using assms(2) owner_pc [OF assms(2), of i] free(2,3) unfolding free(1) owner_inv_def xchg_locked_def by (auto simp: has_lock_def)
  then show ?thesis ..
next
  case (pop i c)
  have "owner_inv h s'"
    using assms(2) owner_pc [OF assms(2), of i] pop(2) unfolding pop(1) owner_inv_def by (auto simp: has_lock_def)
  then show ?thesis ..
next
  case (pop_panic i msg)
  then show ?thesis
    using assms(3) popcli_ok [of "n i" "cpus s i"] by (auto simp: cli_inv_def cli_depth_def dest: spec [of _ i])
qed

lemma lock_reachable:
  assumes "lock_step\<^sup>*\<^sup>* s0 s" "owner_inv None s0" "cli_inv n b s0" "\<forall>i. Suc (n i) < 2 ^ 31"
  shows "cli_inv n b s \<and> (\<exists>h. owner_inv h s)"
  using assms(1)
proof (induction rule: rtranclp_induct)
  case (step s s')
  then obtain h h' where h: "owner_inv h s" "owner_inv h' s'"
    using owner_inv_step by blast
  then have "cli_inv n b s'"
    using step assms(4) by (intro cli_inv_step [OF step(2)]) (auto simp: owner_inv_def)
  with h show ?case by blast
qed (use assms in blast)

text \<open>
  C32: Spin locks give mutual exclusion. Starting from an initialised lock with all CPUs outside,
  whatever the interleaving of the CPUs' steps: at most one CPU is past the exchange of \<open>acquire\<close> and
  not yet past that of \<open>release\<close>, the word is non-zero exactly while there is such a CPU, \<open>holding\<close> is
  true in the critical section, interrupts are off from \<open>acquire\<close> to \<open>release\<close>, no check of acquire,
  release or popcli panics, and a CPU that is outside again has the interrupt nesting it started with and (at the
  outermost level) the interrupt flag it started with.
\<close>

theorem spinlock_mutual_exclusion:
  assumes init: "lock s0 = initlock lk" "\<forall>i. pc s0 i = Outside \<and> cli_ok (n i) (cpus s0 i) \<and> Suc (n i) < 2 ^ 31"
    and run: "lock_step\<^sup>*\<^sup>* s0 s"
  shows "(has_lock (pc s i) \<longrightarrow> has_lock (pc s j) \<longrightarrow> i = j) \<and> (locked (lock s) \<noteq> 0 \<longleftrightarrow> (\<exists>i. has_lock (pc s i))) \<and>
    (pc s i = Critical \<longrightarrow> holding i (lock s)) \<and> (pc s i \<noteq> Outside \<longrightarrow> \<not> eflags_if (cpus s i)) \<and> pc s i \<noteq> Dead msg \<and>
    (pc s i = Outside \<longrightarrow> ncli (cpus s i) = ncli (cpus s0 i) \<and> (n i = 0 \<longrightarrow> eflags_if (cpus s i) = eflags_if (cpus s0 i)))"
proof -
  have "owner_inv None s0" "cli_inv n (\<lambda>i. eventual_if (cpus s0 i)) s0"
    using init by (auto simp: owner_inv_def has_lock_def initlock_def cli_inv_def cli_depth_def)
  with lock_reachable [OF run] init(2) obtain h where h: "owner_inv h s" and c: "cli_inv n (\<lambda>i. eventual_if (cpus s0 i)) s"
    by blast
  have d: "cli_ok (cli_depth (pc s i) (n i)) (cpus s i)" "eventual_if (cpus s i) = eventual_if (cpus s0 i)"
    using c by (auto simp: cli_inv_def)
  have n: "ncli (cpus s0 i) = of_nat (n i)"
    using init(2) by (simp add: cli_ok_def)
  show ?thesis
  proof (intro conjI impI)
    show "i = j" if "has_lock (pc s i)" "has_lock (pc s j)"
      using that owner_pc [OF h] by (metis option.inject)
    show "locked (lock s) \<noteq> 0 \<longleftrightarrow> (\<exists>i. has_lock (pc s i))"
      using h by (auto simp: owner_inv_def)
    show "holding i (lock s)" if "pc s i = Critical"
      using that h owner_pc [OF h, of i] by (auto simp: owner_inv_def holding_def has_lock_def)
    show "\<not> eflags_if (cpus s i)" if "pc s i \<noteq> Outside"
      using that d(1) by (simp add: cli_ok_def cli_depth_def)
    show "pc s i \<noteq> Dead msg"
      using h by (simp add: owner_inv_def)
    show "ncli (cpus s i) = ncli (cpus s0 i)" if "pc s i = Outside"
      using that d(1) n by (simp add: cli_ok_def cli_depth_def)
    show "eflags_if (cpus s i) = eflags_if (cpus s0 i)" if "pc s i = Outside" "n i = 0"
      using that d n by (simp add: cli_ok_def cli_depth_def eventual_if_def)
  qed
qed

text \<open>Two CPUs, the first in its critical section and the second spinning.\<close>

definition smp_start :: smp where
  "smp_start = \<lparr>lock = initlock \<lparr>locked = 7, lk_cpu = None, lk_pcs = []\<rparr>, cpus = (\<lambda>_. \<lparr>ncli = 0, intena = False, eflags_if = True\<rparr>),
     pc = (\<lambda>_. Outside)\<rparr>"

lemma smp_one_critical: "\<exists>s. lock_step\<^sup>*\<^sup>* smp_start s \<and> pc s 0 = Critical \<and> pc s (Suc 0) = Spinning"
proof -
  have "\<exists>s1. lock_step smp_start s1 \<and> pc s1 0 = Spinning \<and> pc s1 (Suc 0) = Outside \<and> lock s1 = lock smp_start"
    by (rule exI, rule conjI, rule lock_step.enter [where i = 0]) (simp_all add: smp_start_def initlock_def holding_def)
  then obtain s1 where s1: "lock_step smp_start s1" "pc s1 0 = Spinning" "pc s1 (Suc 0) = Outside" "lock s1 = lock smp_start"
    by blast
  have "\<exists>s2. lock_step s1 s2 \<and> pc s2 0 = Got \<and> pc s2 (Suc 0) = Outside \<and> lk_cpu (lock s2) = None"
    by (rule exI, rule conjI, rule lock_step.attempt [where i = 0 and old = 0 and lk = "(lock s1)\<lparr>locked := 1\<rparr>", OF s1(2)])
      (simp_all add: xchg_locked_def s1 smp_start_def initlock_def)
  then obtain s2 where s2: "lock_step s1 s2" "pc s2 0 = Got" "pc s2 (Suc 0) = Outside" "lk_cpu (lock s2) = None"
    by blast
  have "\<exists>s3. lock_step s2 s3 \<and> pc s3 0 = Got \<and> pc s3 (Suc 0) = Spinning"
    by (rule exI, rule conjI, rule lock_step.enter [where i = "Suc 0", OF s2(3)]) (simp_all add: s2 holding_def)
  then obtain s3 where s3: "lock_step s2 s3" "pc s3 0 = Got" "pc s3 (Suc 0) = Spinning"
    by blast
  have "\<exists>s4. lock_step s3 s4 \<and> pc s4 0 = Critical \<and> pc s4 (Suc 0) = Spinning"
    by (rule exI, rule conjI, rule lock_step.own [where i = 0 and m = "\<lambda>_. 0" and v = 0, OF s3(2)]) (simp_all add: s3)
  with s1(1) s2(1) s3(1) show ?thesis
    by (meson converse_rtranclp_into_rtranclp rtranclp.rtrancl_refl)
qed

theorem spinlock_mutual_exclusion_witness:
  "\<exists>s. lock_step\<^sup>*\<^sup>* smp_start s \<and> pc s 0 = Critical \<and> holding 0 (lock s) \<and> \<not> has_lock (pc s 1) \<and> \<not> eflags_if (cpus s 0)"
proof -
  obtain s where s: "lock_step\<^sup>*\<^sup>* smp_start s" "pc s 0 = Critical" "pc s (Suc 0) = Spinning"
    using smp_one_critical by blast
  have "lock smp_start = initlock \<lparr>locked = 7, lk_cpu = None, lk_pcs = []\<rparr>"
    "\<forall>i. pc smp_start i = Outside \<and> cli_ok 0 (cpus smp_start i) \<and> Suc 0 < 2 ^ 31"
    by (simp_all add: smp_start_def cli_ok_def)
  from spinlock_mutual_exclusion [OF this s(1), of 0 0] s show ?thesis
    by (auto simp: has_lock_def)
qed

end
