(* ===== verification/Shell.thy ===== *)
theory Shell
  imports Userlib Sysfile "HOL-Library.Sublist"
begin

text \<open>
  The shell's parser (sh.c). A pointer into the command line is the rest of the line from there to its end
  (\<open>es\<close> is the empty rest, where C reads the terminating zero); the state of the parser is the
  pointer \<open>*ps\<close>. A token is the pair of pointers \<open>q\<close> and \<open>eq\<close> to its beginning and its end. The panic of the shell ends
  the parsing with its message.
\<close>

type_synonym ptr = "uchar list"
type_synonym token = "ptr \<times> ptr"

text \<open>The commands of sh.c over a type \<open>'w\<close> of words; those the parser builds have tokens as words.\<close>

datatype 'w cmd =
    EXEC "'w list"
  | REDIR "'w cmd" 'w cint cint
  | PIPE "'w cmd" "'w cmd"
  | LIST "'w cmd" "'w cmd"
  | BACK "'w cmd"

section \<open>Tokens\<close>

definition whitespace :: "uchar list" where "whitespace = [32, 9, 13, 10, 11]"
definition symbols :: "uchar list" where "symbols = [60, 124, 62, 38, 59, 40, 41]"
definition MAXARGS :: nat where "MAXARGS = 10"

definition skip_ws :: "ptr \<Rightarrow> ptr" where
  "skip_ws s = dropWhile (\<lambda>c. c \<in> set whitespace) s"

text \<open>\<open>*s\<close>\<close>

definition char_at :: "ptr \<Rightarrow> uchar" where
  "char_at s = (case s of [] \<Rightarrow> 0 | c # _ \<Rightarrow> c)"

text \<open>The kind of the token, \<open>q\<close>, \<open>eq\<close> and the new \<open>*ps\<close>.\<close>

definition gettoken :: "ptr \<Rightarrow> uchar \<times> token \<times> ptr" where
  "gettoken ps =
     (let q = skip_ws ps; c = char_at q;
          (ret, eq) =
            (if c = 0 then (c, q)
             else if c \<in> {124, 40, 41, 59, 38, 60} then (c, tl q)
             else if c = 62 then (if char_at (tl q) = 62 then (43, tl (tl q)) else (c, tl q))
             else (97, dropWhile (\<lambda>c. c \<notin> set whitespace \<and> c \<notin> set symbols) q))
      in (ret, (q, eq), skip_ws eq))"

definition peek :: "ptr \<Rightarrow> uchar list \<Rightarrow> bool \<times> ptr" where
  "peek ps toks = (let s = skip_ws ps in (char_at s \<noteq> 0 \<and> char_at s \<in> set toks, s))"

text \<open>The characters of words.\<close>

definition word_char :: "uchar \<Rightarrow> bool" where
  "word_char c \<longleftrightarrow> c \<notin> set whitespace \<and> c \<notin> set symbols"

text \<open>A word of the rest of the line \<open>s\<close>, up to a character that does not belong to words.\<close>

definition word_token :: "ptr \<Rightarrow> token \<Rightarrow> bool" where
  "word_token s t \<longleftrightarrow> (case t of (q, eq) \<Rightarrow> suffix q s \<and>
     (\<exists>w. q = w @ eq \<and> w \<noteq> [] \<and> (\<forall>c\<in>set w. word_char c) \<and> (eq = [] \<or> \<not> word_char (hd eq))))"

lemma word_token_mono: "word_token s t \<Longrightarrow> suffix s s' \<Longrightarrow> word_token s' t"
  by (auto simp: word_token_def intro: suffix_order.trans)

lemma words_lift:
  "suffix s' s1 \<and> (\<forall>t\<in>A. word_token s1 t) \<Longrightarrow> suffix s1 s \<Longrightarrow> suffix s' s \<and> (\<forall>t\<in>A. word_token s t)"
  by (meson suffix_order.trans word_token_mono)

lemma skip_ws_suffix: "suffix (skip_ws s) s"
  by (simp add: skip_ws_def suffix_dropWhile)

lemma skip_ws_le: "length (skip_ws s) \<le> length s"
  by (simp add: skip_ws_suffix suffix_length_le)

lemma gettoken_parts:
  assumes "gettoken s = (ret, (q, eq), s')"
  shows "q = skip_ws s" "s' = skip_ws eq" "suffix eq q"
proof -
  have tl2: "suffix (tl (tl q)) q"
    by (meson suffix_order.trans suffix_tl)
  show "q = skip_ws s" "s' = skip_ws eq"
    using assms by (auto simp: gettoken_def Let_def split: if_splits)
  then show "suffix eq q"
    using assms tl2 by (auto simp: gettoken_def Let_def suffix_tl suffix_dropWhile split: if_splits)
qed

lemma gettoken_suffix: "gettoken s = (ret, t, s') \<Longrightarrow> suffix s' s"
  using gettoken_parts [of s ret "fst t" "snd t" s'] skip_ws_suffix [of s] skip_ws_suffix [of "snd t"]
  by (metis prod.collapse suffix_order.trans)

lemma gettoken_le: "gettoken s = (ret, t, s') \<Longrightarrow> length s' \<le> length s"
  by (simp add: gettoken_suffix suffix_length_le)

text \<open>A token that is not the end of the line is not empty.\<close>

lemma gettoken_less:
  assumes "gettoken s = (ret, t, s')" "ret \<noteq> 0"
  shows "length s' < length s"
proof -
  obtain c r where q: "skip_ws s = c # r"
    using assms by (cases "skip_ws s") (auto simp: gettoken_def char_at_def)
  have c: "c \<notin> set whitespace"
    using q by (simp add: skip_ws_def dropWhile_eq_Cons_conv)
  have "length s' \<le> length r"
    using assms c q skip_ws_le [of r] skip_ws_le [of "tl r"]
      skip_ws_le [of "dropWhile (\<lambda>c. c \<notin> set whitespace \<and> c \<notin> set symbols) r"]
      length_dropWhile_le [of "\<lambda>c. c \<notin> set whitespace \<and> c \<notin> set symbols" r]
    by (auto simp: gettoken_def Let_def char_at_def symbols_def split: if_splits list.splits)
  then show ?thesis
    using q skip_ws_le [of s] by simp
qed

lemma gettoken_word:
  assumes "gettoken s = (97, t, s')" shows "word_token s t"
proof -
  define q where "q = skip_ws s"
  have c: "char_at q \<noteq> 0" "char_at q \<notin> set symbols"
    and t: "t = (q, dropWhile word_char q)"
    using assms unfolding gettoken_def q_def [symmetric] Let_def word_char_def [abs_def]
    by (simp_all add: symbols_def split: if_splits)
  then obtain x r where r: "q = x # r"
    by (cases q) (auto simp: char_at_def)
  then have "x \<notin> set symbols"
    using c(2) by (simp add: char_at_def)
  moreover have "x \<notin> set whitespace"
    using r unfolding q_def skip_ws_def dropWhile_eq_Cons_conv by simp
  ultimately have "word_char x"
    by (simp add: word_char_def)
  then have "takeWhile word_char q \<noteq> []"
    using r by simp
  moreover have "q = takeWhile word_char q @ dropWhile word_char q" "\<forall>x\<in>set (takeWhile word_char q). word_char x"
    using set_takeWhileD [of _ word_char q] by (simp, blast)
  moreover have "dropWhile word_char q = [] \<or> \<not> word_char (hd (dropWhile word_char q))"
    using hd_dropWhile [of word_char q] by blast
  moreover have "suffix q s"
    by (simp add: q_def skip_ws_suffix)
  ultimately show ?thesis
    unfolding word_token_def t prod.case by blast
qed

lemma peek_suffix: "peek s toks = (b, s') \<Longrightarrow> suffix s' s"
  using skip_ws_suffix [of s] by (auto simp: peek_def Let_def)

lemma peek_le: "peek s toks = (b, s') \<Longrightarrow> length s' \<le> length s"
  by (simp add: peek_suffix suffix_length_le)

lemma skip_ws_idem [simp]: "skip_ws (skip_ws s) = skip_ws s"
  by (induction s) (auto simp: skip_ws_def)

lemma peek_token: "peek s toks = (True, s1) \<Longrightarrow> gettoken s1 = (ret, t, s') \<Longrightarrow> ret \<noteq> 0"
  by (auto simp: peek_def gettoken_def Let_def split: if_splits)

section \<open>The parser\<close>

text \<open>The redirections read by \<open>parseredirs\<close>, in order, and the command they make around \<open>cmd\<close>.\<close>

type_synonym 'w redir = "'w \<times> cint \<times> cint"

function parseredirs :: "ptr \<Rightarrow> (ptr, token redir list) outcome" where
  "parseredirs s =
     (case peek s [60, 62] of (found, s) \<Rightarrow>
        if \<not> found then Ok [] s
        else case gettoken s of (tok, _, s) \<Rightarrow>
             case gettoken s of (w, t, s) \<Rightarrow>
               if w \<noteq> 97 then Panic ''missing file for redirection''
               else bindk (parseredirs s) (\<lambda>rs s.
                      Ok (if tok = 60 then (t, O_RDONLY, 0) # rs
                          else if tok = 62 then (t, O_WRONLY OR O_CREATE, 1) # rs
                          else if tok = 43 then (t, O_WRONLY OR O_CREATE, 1) # rs
                          else rs) s))"
  by auto
termination
proof (relation "measure length", goal_cases)
  case (2 s x y xa ya a b xb yb ab bb)
  then have "peek s [60, 62] = (x, y)" "gettoken y = (xa, a, b)" "gettoken b = (xb, ab, bb)" "xb \<noteq> 0"
    by simp_all
  then show ?case
    using peek_le [of s] gettoken_le [of y] gettoken_less [of b] by fastforce
qed simp

declare parseredirs.simps [simp del]

fun redircmds :: "'w cmd \<Rightarrow> 'w redir list \<Rightarrow> 'w cmd" where
  "redircmds cmd [] = cmd"
| "redircmds cmd ((t, mode, fd) # rs) = redircmds (REDIR cmd t mode fd) rs"

lemma parseredirs_ok: "parseredirs s = Ok rs s' \<Longrightarrow> suffix s' s \<and> (\<forall>t\<in>fst ` set rs. word_token s t)"
proof (induction s arbitrary: rs s' rule: parseredirs.induct)
  case (1 s)
  obtain b s1 where p: "peek s [60, 62] = (b, s1)" by fastforce
  obtain tok t0 s2 where t0: "gettoken s1 = (tok, t0, s2)" by (cases "gettoken s1") auto
  obtain w t s3 where t: "gettoken s2 = (w, t, s3)" by (cases "gettoken s2") auto
  show ?case
  proof (cases "b \<and> w = 97")
    case True
    then obtain rs' where r: "parseredirs s3 = Ok rs' s'"
      using 1(2) unfolding parseredirs.simps [of s] by (auto simp: p t0 t bindk_Ok_iff)
    have rs: "fst ` set rs \<subseteq> insert t (fst ` set rs')"
      using 1(2) True unfolding parseredirs.simps [of s] by (auto simp: p t0 t r split: if_splits)
    have "suffix s' s3 \<and> (\<forall>t\<in>fst ` set rs'. word_token s3 t)"
      using True p t0 t by (intro 1(1) [OF _ _ _ _ _ _ _ r]) auto
    moreover have "suffix s3 s" "suffix s2 s"
      using peek_suffix [OF p] gettoken_suffix [OF t0] gettoken_suffix [OF t] by (meson suffix_order.trans)+
    moreover have "word_token s2 t"
      using gettoken_word t True by simp
    ultimately have "suffix s' s \<and> (\<forall>t\<in>fst ` set rs'. word_token s t)" "word_token s t"
      using words_lift [of s' s3 "fst ` set rs'" s] word_token_mono [of s2 t s] by blast+
    then show ?thesis
      using rs by blast
  next
    case False
    then show ?thesis
      using 1(2) peek_suffix [OF p] by (subst (asm) parseredirs.simps) (auto simp: p t0 t split: if_splits)
  qed
qed

lemma parseredirs_le: "parseredirs s = Ok rs s' \<Longrightarrow> length s' \<le> length s"
  by (simp add: parseredirs_ok suffix_length_le)

text \<open>
  The loop of \<open>parseexec\<close> over the arguments, with \<open>argc\<close> arguments read so far: the further arguments and
  the further redirections.
\<close>

function parseargs :: "nat \<Rightarrow> ptr \<Rightarrow> (ptr, token list \<times> token redir list) outcome" where
  "parseargs argc s =
     (case peek s [124, 41, 38, 59] of (stop, s) \<Rightarrow>
        if stop then Ok ([], []) s
        else case gettoken s of (tok, t, s) \<Rightarrow>
             if tok = 0 then Ok ([], []) s
             else if tok \<noteq> 97 then Panic ''syntax''
             else if MAXARGS \<le> argc + 1 then Panic ''too many args''
             else bindk (parseredirs s) (\<lambda>rs s.
                  bindk (parseargs (argc + 1) s) (\<lambda>(ts, rs') s. Ok (t # ts, rs @ rs') s)))"
  by auto
termination
proof (relation "measure (\<lambda>(_, s). length s)", goal_cases)
  case (2 argc s x y xa ya a b rs sa)
  then have "peek s [124, 41, 38, 59] = (x, y)" "gettoken y = (xa, a, b)" "xa \<noteq> 0" "parseredirs b = Ok rs sa"
    by simp_all
  then show ?case
    using peek_le [of s] gettoken_less [of y] parseredirs_le [of b] by fastforce
qed simp

declare parseargs.simps [simp del]

function parseback :: "token cmd \<Rightarrow> ptr \<Rightarrow> token cmd \<times> ptr" where
  "parseback cmd s =
     (case peek s [38] of (found, s) \<Rightarrow>
        if \<not> found then (cmd, s) else case gettoken s of (_, _, s) \<Rightarrow> parseback (BACK cmd) s)"
  by auto
termination
proof (relation "measure (\<lambda>(_, s). length s)", goal_cases)
  case (2 cmd s x y xa ya a b)
  then have "peek s [38] = (True, y)" "gettoken y = (xa, a, b)"
    by simp_all
  then show ?case
    using peek_le [of s] gettoken_less [of y] peek_token [of s] by fastforce
qed simp

declare parseback.simps [simp del]

text \<open>
  The mutually recursive functions, with a bound on the depth of the recursion; \<open>Spin\<close> is the result when the
  bound is too small.
\<close>

fun parseline :: "nat \<Rightarrow> ptr \<Rightarrow> (ptr, token cmd) outcome"
  and parsepipe :: "nat \<Rightarrow> ptr \<Rightarrow> (ptr, token cmd) outcome"
  and parseblock :: "nat \<Rightarrow> ptr \<Rightarrow> (ptr, token cmd) outcome"
  and parseexec :: "nat \<Rightarrow> ptr \<Rightarrow> (ptr, token cmd) outcome" where
  "parseline 0 s = Spin"
| "parseline (Suc n) s =
     bindk (parsepipe n s) (\<lambda>cmd s.
       case parseback cmd s of (cmd, s) \<Rightarrow>
       case peek s [59] of (found, s) \<Rightarrow>
         if \<not> found then Ok cmd s
         else case gettoken s of (_, _, s) \<Rightarrow>
              bindk (parseline n s) (\<lambda>right s. Ok (LIST cmd right) s))"
| "parsepipe 0 s = Spin"
| "parsepipe (Suc n) s =
     bindk (parseexec n s) (\<lambda>cmd s.
       case peek s [124] of (found, s) \<Rightarrow>
         if \<not> found then Ok cmd s
         else case gettoken s of (_, _, s) \<Rightarrow>
              bindk (parsepipe n s) (\<lambda>right s. Ok (PIPE cmd right) s))"
| "parseblock 0 s = Spin"
| "parseblock (Suc n) s =
     (case peek s [40] of (found, s) \<Rightarrow>
        if \<not> found then Panic ''parseblock''
        else case gettoken s of (_, _, s) \<Rightarrow>
             bindk (parseline n s) (\<lambda>cmd s.
               case peek s [41] of (found, s) \<Rightarrow>
                 if \<not> found then Panic ''syntax - missing )''
                 else case gettoken s of (_, _, s) \<Rightarrow>
                      bindk (parseredirs s) (\<lambda>rs s. Ok (redircmds cmd rs) s)))"
| "parseexec 0 s = Spin"
| "parseexec (Suc n) s =
     (case peek s [40] of (found, s) \<Rightarrow>
        if found then parseblock n s
        else bindk (parseredirs s) (\<lambda>rs s.
             bindk (parseargs 0 s) (\<lambda>(args, rs') s. Ok (redircmds (EXEC args) (rs @ rs')) s)))"

definition parsecmd :: "uchar list \<Rightarrow> (ptr, token cmd) outcome" where
  "parsecmd s =
     bindk (parseline (4 * length s + 4) s) (\<lambda>cmd s.
       case peek s [] of (_, s) \<Rightarrow> if s \<noteq> [] then Panic ''syntax'' else Ok cmd s)"

section \<open>Terminating the words\<close>

text \<open>The buffer is the command line with its terminating zero; the pointer \<open>p\<close> has as many bytes of the line behind it.\<close>

definition ptr_index :: "uchar list \<Rightarrow> ptr \<Rightarrow> nat" where
  "ptr_index buf p = length buf - 1 - length p"

fun nulterminate :: "token cmd \<Rightarrow> uchar list \<Rightarrow> uchar list" where
  "nulterminate (EXEC ts) buf = fold (\<lambda>(q, eq) buf. buf[ptr_index buf eq := 0]) ts buf"
| "nulterminate (REDIR cmd (q, eq) mode fd) buf = (let buf = nulterminate cmd buf in buf[ptr_index buf eq := 0])"
| "nulterminate (PIPE left right) buf = nulterminate right (nulterminate left buf)"
| "nulterminate (LIST left right) buf = nulterminate right (nulterminate left buf)"
| "nulterminate (BACK cmd) buf = nulterminate cmd buf"

section \<open>The main loop\<close>

text \<open>
  One round: the line read by \<open>getcmd\<close> into a buffer of 100 bytes, and what the shell does with it. At the end of the
  input it exits.
\<close>

datatype sh_action = Chdir "uchar list" | Fork_run "(ptr, token cmd) outcome" "uchar list"

definition getcmd :: "uchar list \<Rightarrow> (uchar list \<times> uchar list) option" where
  "getcmd input =
     (case gets 100 input of (line, rest) \<Rightarrow>
        let buf = takeWhile (\<lambda>c. c \<noteq> 0) line in if buf = [] then None else Some (buf, rest))"

definition sh_round :: "uchar list \<Rightarrow> (sh_action \<times> uchar list) option" where
  "sh_round input =
     (case getcmd input of
        None \<Rightarrow> None
      | Some (buf, rest) \<Rightarrow>
          if take 3 buf = [99, 100, 32] then Some (Chdir (drop 3 (butlast buf)), rest)
          else Some (Fork_run (parsecmd buf)
                 (case parsecmd buf of Ok cmd _ \<Rightarrow> nulterminate cmd (buf @ [0]) | _ \<Rightarrow> buf @ [0]), rest))"

section \<open>The parser terminates\<close>

lemma bindk_Spin: "bindk m f = Spin \<longleftrightarrow> m = Spin \<or> (\<exists>a s. m = Ok a s \<and> f a s = Spin)"
  by (cases m) auto

lemma parseredirs_cases: "(\<exists>rs s'. parseredirs s = Ok rs s') \<or> parseredirs s = Panic ''missing file for redirection''"
proof (induction s rule: parseredirs.induct)
  case (1 s)
  obtain b s1 where p: "peek s [60, 62] = (b, s1)" by fastforce
  obtain tok t0 s2 where t0: "gettoken s1 = (tok, t0, s2)" by (cases "gettoken s1") auto
  obtain w t s3 where t: "gettoken s2 = (w, t, s3)" by (cases "gettoken s2") auto
  show ?case
    using 1 [of b s1 tok "(t0, s2)" t0 s2 w "(t, s3)" t s3] unfolding parseredirs.simps [of s] p t0 t by (auto simp: p t0 t)
qed

lemma parseargs_no_spin: "parseargs argc s \<noteq> Spin"
proof (induction argc s rule: parseargs.induct)
  case (1 argc s)
  obtain b s1 where p: "peek s [124, 41, 38, 59] = (b, s1)" by fastforce
  obtain tok t s2 where t: "gettoken s1 = (tok, t, s2)" by (cases "gettoken s1") auto
  show ?case
    using 1 [of b s1 tok "(t, s2)" t s2] parseredirs_cases [of s2] unfolding parseargs.simps [of argc s] p t
    by (auto simp: p t bindk_Spin)
qed

lemma parseargs_ok:
  "parseargs argc s = Ok (ts, rs) s' \<Longrightarrow> suffix s' s \<and> (\<forall>t\<in>set ts \<union> fst ` set rs. word_token s t)"
proof (induction argc s arbitrary: ts rs s' rule: parseargs.induct)
  case (1 argc s)
  obtain b s1 where p: "peek s [124, 41, 38, 59] = (b, s1)" by fastforce
  obtain tok t s2 where t: "gettoken s1 = (tok, t, s2)" by (cases "gettoken s1") auto
  have sf: "suffix s2 s1" "suffix s1 s" "suffix s2 s"
    using peek_suffix [OF p] gettoken_suffix [OF t] by (auto intro: suffix_order.trans)
  show ?case
  proof (cases "b \<or> tok = 0")
    case True
    then show ?thesis
      using 1(2) sf unfolding parseargs.simps [of argc s] p by (auto simp: p t split: if_splits)
  next
    case False
    then obtain r1 s3 ts' rs' where r: "parseredirs s2 = Ok r1 s3" "parseargs (argc + 1) s3 = Ok (ts', rs') s'"
      "tok = 97" "\<not> MAXARGS \<le> argc + 1" "ts = t # ts'" "rs = r1 @ rs'"
      using 1(2) unfolding parseargs.simps [of argc s] p t by (auto simp: p t bindk_Ok_iff split: if_splits)
    then have ih: "suffix s' s3 \<and> (\<forall>t\<in>set ts' \<union> fst ` set rs'. word_token s3 t)"
      using 1(1) [of b s1 tok "(t, s2)" t s2 r1 s3 ts' rs' s'] p t False by auto
    have "suffix s3 s"
      using parseredirs_ok [OF r(1)] sf(3) by (meson suffix_order.trans)
    moreover have "word_token s t"
      using gettoken_word t r(3) word_token_mono [OF _ sf(2)] by blast
    ultimately have "suffix s' s \<and> (\<forall>t\<in>set ts' \<union> fst ` set rs'. word_token s t)" "\<forall>t\<in>fst ` set r1. word_token s t"
        "word_token s t"
      using words_lift [OF ih] words_lift [OF parseredirs_ok [OF r(1)] sf(3)] by blast+
    then show ?thesis
      unfolding r(5,6) by auto
  qed
qed

lemma parseback_ok: "parseback cmd s = (cmd', s') \<Longrightarrow> suffix s' s \<and> set_cmd cmd' = set_cmd cmd"
proof (induction cmd s arbitrary: cmd' s' rule: parseback.induct)
  case (1 cmd s)
  obtain b s1 where p: "peek s [38] = (b, s1)" by fastforce
  obtain tok t s2 where t: "gettoken s1 = (tok, t, s2)" by (cases "gettoken s1") auto
  have sf: "suffix s1 s" "suffix s2 s"
    using peek_suffix [OF p] gettoken_suffix [OF t] by (auto intro: suffix_order.trans)
  show ?case
    using 1(2) 1(1) [of b s1 tok "(t, s2)" t s2 cmd' s'] sf unfolding parseback.simps [of cmd s] p t
    by (cases b) (auto simp: p t intro: suffix_order.trans)
qed

lemma set_redircmds: "set_cmd (redircmds c rs) = set_cmd c \<union> fst ` set rs"
  by (induction c rs rule: redircmds.induct) auto

text \<open>The pointer never moves back, and the words of the command are words of the line.\<close>

lemma parse_ok:
  "parseline n s = Ok c s' \<Longrightarrow> suffix s' s \<and> (\<forall>t\<in>set_cmd c. word_token s t)"
  "parsepipe n s = Ok c s' \<Longrightarrow> suffix s' s \<and> (\<forall>t\<in>set_cmd c. word_token s t)"
  "parseblock n s = Ok c s' \<Longrightarrow> suffix s' s \<and> (\<forall>t\<in>set_cmd c. word_token s t)"
  "parseexec n s = Ok c s' \<Longrightarrow> suffix s' s \<and> (\<forall>t\<in>set_cmd c. word_token s t)"
proof (induction n arbitrary: s c s')
  case (Suc n)
  {
    case 1
    then obtain c1 s1 where a1: "parsepipe n s = Ok c1 s1"
      by (auto simp: bindk_Ok_iff)
    obtain c2 s2 b s3 where a: "parseback c1 s1 = (c2, s2)" "peek s2 [59] = (b, s3)"
      by (metis surj_pair)
    obtain tok t s4 where t: "gettoken s3 = (tok, t, s4)" by (cases "gettoken s3") auto
    have sf: "suffix s3 s" "suffix s4 s" "\<forall>t\<in>set_cmd c2. word_token s t"
      using Suc(2) [OF a1] parseback_ok [OF a(1)] peek_suffix [OF a(2)] gettoken_suffix [OF t] by (auto intro: suffix_order.trans)
    show ?case
      using 1 sf words_lift [OF Suc(1) sf(2)] by (auto simp: a1 a t bindk_Ok_iff split: if_splits)
  next
    case 2
    then obtain c1 s1 where a1: "parseexec n s = Ok c1 s1"
      by (auto simp: bindk_Ok_iff)
    obtain b s3 where a: "peek s1 [124] = (b, s3)" by fastforce
    obtain tok t s4 where t: "gettoken s3 = (tok, t, s4)" by (cases "gettoken s3") auto
    have sf: "suffix s3 s" "suffix s4 s" "\<forall>t\<in>set_cmd c1. word_token s t"
      using Suc(4) [OF a1] peek_suffix [OF a] gettoken_suffix [OF t] by (auto intro: suffix_order.trans)
    show ?case
      using 2 sf words_lift [OF Suc(2) sf(2)] by (auto simp: a1 a t bindk_Ok_iff split: if_splits)
  next
    case 3
    obtain b s1 where p: "peek s [40] = (b, s1)" by fastforce
    obtain tok t s2 where t: "gettoken s1 = (tok, t, s2)" by (cases "gettoken s1") auto
    from 3 obtain c1 s3 where a1: "parseline n s2 = Ok c1 s3" "b"
      by (auto simp: p t bindk_Ok_iff split: if_splits)
    obtain b' s4 where p': "peek s3 [41] = (b', s4)" by fastforce
    obtain tok' t' s5 where t': "gettoken s4 = (tok', t', s5)" by (cases "gettoken s4") auto
    from 3 obtain rs where r: "parseredirs s5 = Ok rs s'" "c = redircmds c1 rs"
      using a1 p' by (auto simp: p t t' bindk_Ok_iff split: if_splits)
    have s2: "suffix s2 s"
      using peek_suffix [OF p] gettoken_suffix [OF t] by (auto intro: suffix_order.trans)
    then have "suffix s5 s"
      using Suc(1) [OF a1(1)] peek_suffix [OF p'] gettoken_suffix [OF t'] by (meson suffix_order.trans)
    from words_lift [OF parseredirs_ok [OF r(1)] this] show ?case
      using words_lift [OF Suc(1) [OF a1(1)] s2] r(2) by (auto simp: set_redircmds)
  next
    case 4
    obtain b s1 where p: "peek s [40] = (b, s1)" by fastforce
    show ?case
    proof (cases b)
      case True
      then show ?thesis
        using 4 words_lift [OF Suc(3) peek_suffix [OF p]] by (simp add: p)
    next
      case False
      then obtain rs s2 ts rs' where r: "parseredirs s1 = Ok rs s2" "parseargs 0 s2 = Ok (ts, rs') s'" "c = redircmds (EXEC ts) (rs @ rs')"
        using 4 by (auto simp: p bindk_Ok_iff split: prod.splits)
      moreover have "suffix s1 s" "suffix s2 s"
        using peek_suffix [OF p] parseredirs_ok [OF r(1)] by (auto intro: suffix_order.trans)
      ultimately have "suffix s' s \<and> (\<forall>t\<in>set ts \<union> fst ` set rs'. word_token s t)" "\<forall>t\<in>fst ` set rs. word_token s t"
        using words_lift [OF parseredirs_ok [OF r(1)]] words_lift [OF parseargs_ok [OF r(2)]] by blast+
      then show ?thesis
        unfolding r(3) by (auto simp: set_redircmds)
    qed
  }
qed simp_all

lemma parse_le:
  "parseline n s = Ok c s' \<Longrightarrow> length s' \<le> length s" "parsepipe n s = Ok c s' \<Longrightarrow> length s' \<le> length s"
  "parseexec n s = Ok c s' \<Longrightarrow> length s' \<le> length s"
  by (simp_all add: parse_ok suffix_length_le)

text \<open>Four levels of recursion for each byte of the line are enough.\<close>

lemma parse_fuel:
  "4 * length s + 4 \<le> n \<Longrightarrow> parseline n s \<noteq> Spin"
  "4 * length s + 3 \<le> n \<Longrightarrow> parsepipe n s \<noteq> Spin"
  "4 * length s + 1 \<le> n \<Longrightarrow> parseblock n s \<noteq> Spin"
  "4 * length s + 2 \<le> n \<Longrightarrow> parseexec n s \<noteq> Spin"
proof (induction n arbitrary: s)
  case (Suc n)
  {
    case 1
    have "case parseback c1 s1 of (cmd, s) \<Rightarrow> case peek s [59] of (found, s) \<Rightarrow>
        (if \<not> found then Ok cmd s else case gettoken s of (_, _, s) \<Rightarrow> bindk (parseline n s) (\<lambda>right s. Ok (LIST cmd right) s)) \<noteq> Spin"
      if a: "parsepipe n s = Ok c1 s1" for c1 s1
    proof -
      obtain c2 s2 b s3 where q: "parseback c1 s1 = (c2, s2)" "peek s2 [59] = (b, s3)" by (metis surj_pair)
      obtain tok t s4 where t: "gettoken s3 = (tok, t, s4)" by (cases "gettoken s3") auto
      have "parseline n s4 \<noteq> Spin" if b
        using 1 that parse_le(2) [OF a] suffix_length_le [OF conjunct1 [OF parseback_ok [OF q(1)]]] peek_le [OF q(2)] gettoken_less [OF t] peek_token [OF _ t] q(2)
        by (intro Suc(1)) fastforce
      then show ?thesis by (auto simp: q t bindk_Spin)
    qed
    moreover have "parsepipe n s \<noteq> Spin" using 1 by (intro Suc(2)) simp
    ultimately show ?case by (fastforce simp: bindk_Spin split: prod.splits)
  next
    case 2
    have "case peek s1 [124] of (found, s) \<Rightarrow>
        (if \<not> found then Ok c1 s else case gettoken s of (_, _, s) \<Rightarrow> bindk (parsepipe n s) (\<lambda>right s. Ok (PIPE c1 right) s)) \<noteq> Spin"
      if a: "parseexec n s = Ok c1 s1" for c1 s1
    proof -
      obtain b s3 where q: "peek s1 [124] = (b, s3)" by fastforce
      obtain tok t s4 where t: "gettoken s3 = (tok, t, s4)" by (cases "gettoken s3") auto
      have "parsepipe n s4 \<noteq> Spin" if b
        using 2 that parse_le(3) [OF a] peek_le [OF q] gettoken_less [OF t] peek_token [OF _ t] q
        by (intro Suc(2)) fastforce
      then show ?thesis by (auto simp: q t bindk_Spin)
    qed
    moreover have "parseexec n s \<noteq> Spin" using 2 by (intro Suc(4)) simp
    ultimately show ?case by (fastforce simp: bindk_Spin split: prod.splits)
  next
    case 3
    obtain b s1 where p: "peek s [40] = (b, s1)" by fastforce
    obtain tok t s2 where t: "gettoken s1 = (tok, t, s2)" by (cases "gettoken s1") auto
    have "parseline n s2 \<noteq> Spin" if b
      using 3 that peek_le [OF p] gettoken_less [OF t] peek_token [OF _ t] p by (intro Suc(1)) fastforce
    then show ?case
      by (auto simp: p t bindk_Spin split: prod.splits) (metis parseredirs_cases outcome.distinct)+
  next
    case 4
    obtain b s1 where p: "peek s [40] = (b, s1)" by fastforce
    have "parseblock n s1 \<noteq> Spin"
      using 4 peek_le [OF p] by (intro Suc(3)) simp
    then show ?case
      using parseargs_no_spin parseredirs_cases [of s1] by (auto simp: p bindk_Spin split: prod.splits)
  }
qed simp_all

section \<open>The ways to fail\<close>

definition parse_errors :: "string set" where
  "parse_errors = {''syntax'', ''missing file for redirection'', ''too many args'', ''syntax - missing )''}"

definition clean :: "('s, 'a) outcome \<Rightarrow> bool" where
  "clean m \<longleftrightarrow> (case m of Ok _ _ \<Rightarrow> True | Panic msg \<Rightarrow> msg \<in> parse_errors | Sleep _ _ \<Rightarrow> False | Spin \<Rightarrow> True)"

lemma clean_simps [simp]: "clean (Ok a s)" "clean Spin" "clean (Panic msg) \<longleftrightarrow> msg \<in> parse_errors"
  by (simp_all add: clean_def)

lemma clean_bindk: "clean m \<Longrightarrow> (\<And>a s. m = Ok a s \<Longrightarrow> clean (f a s)) \<Longrightarrow> clean (bindk m f)"
  by (cases m) (auto simp: clean_def)

lemma clean_parseredirs: "clean (parseredirs s)"
  using parseredirs_cases [of s] by (auto simp: parse_errors_def)

lemma clean_parseargs: "clean (parseargs argc s)"
proof (induction argc s rule: parseargs.induct)
  case (1 argc s)
  obtain b s1 where p: "peek s [124, 41, 38, 59] = (b, s1)" by fastforce
  obtain tok t s2 where t: "gettoken s1 = (tok, t, s2)" by (cases "gettoken s1") auto
  have "clean (bindk (parseredirs s2) (\<lambda>rs s. bindk (parseargs (argc + 1) s) (\<lambda>(ts, rs') s. Ok (t # ts, rs @ rs') s)))"
    if "\<not> b" "tok = 97" "\<not> MAXARGS \<le> argc + 1"
    using 1 [of b s1 tok "(t, s2)" t s2] that p t by (intro clean_bindk clean_parseredirs) (auto split: prod.split)
  then show ?case
    unfolding parseargs.simps [of argc s] p t by (auto simp: p t parse_errors_def)
qed

lemma peek_idem: "peek s toks = (b, s1) \<Longrightarrow> peek s1 toks = (b, s1)"
  by (auto simp: peek_def Let_def)

lemma clean_parse:
  "clean (parseline n s)" "clean (parsepipe n s)" "fst (peek s [40]) \<Longrightarrow> clean (parseblock n s)" "clean (parseexec n s)"
proof (induction n arbitrary: s)
  case (Suc n)
  {
    case 1
    show ?case
      using Suc(1,2) by (auto intro!: clean_bindk split: prod.split)
  next
    case 2
    show ?case
      using Suc(2,4) by (auto intro!: clean_bindk split: prod.split)
  next
    case 3
    then show ?case
      using Suc(1) by (auto intro!: clean_bindk clean_parseredirs simp: parse_errors_def split: prod.split)
  next
    case 4
    obtain b s1 where p: "peek s [40] = (b, s1)" by fastforce
    have "clean (parseblock n s1)" if b
      using Suc(3) [of s1] peek_idem [OF p] that by simp
    then show ?case
      by (auto simp: p intro!: clean_bindk clean_parseredirs clean_parseargs split: prod.split)
  }
qed simp_all

text \<open>
  C35: The shell's parser always returns: on every command line the recursive-descent parser finishes
  within four levels of recursion per byte, with a command and the whole line consumed or with one of four error
  messages; the check at the beginning of \<open>parseblock\<close> never fails.
\<close>

theorem parsecmd_terminates:
  "(\<exists>c. parsecmd s = Ok c []) \<or>
   parsecmd s \<in> {Panic ''syntax'', Panic ''missing file for redirection'', Panic ''too many args'', Panic ''syntax - missing )''}"
proof -
  have ns: "parseline (4 * length s + 4) s \<noteq> Spin" and cl: "clean (parseline (4 * length s + 4) s)"
    using parse_fuel(1) [of s] clean_parse(1) by simp_all
  show ?thesis
  proof (cases "parseline (4 * length s + 4) s")
    case (Ok c s')
    then show ?thesis
      by (auto simp: parsecmd_def split: prod.split)
  qed (use ns cl in \<open>auto simp: parsecmd_def clean_def parse_errors_def\<close>)
qed

section \<open>The words of the parsed command\<close>

lemma nulterminate_nth:
  "length (nulterminate c buf) = length buf \<and>
   (\<forall>i<length buf. nulterminate c buf ! i = (if \<exists>t\<in>set_cmd c. i = ptr_index buf (snd t) then 0 else buf ! i))"
proof (induction c arbitrary: buf)
  case (EXEC ts)
  show ?case
  proof (induction ts arbitrary: buf)
    case (Cons t ts)
    then show ?case
      by (cases t) (auto simp: nth_list_update ptr_index_def)
  qed simp
next
  case (REDIR c t mode fd)
  then show ?case
    by (cases t) (auto simp: nth_list_update ptr_index_def Let_def)
qed (auto simp: ptr_index_def)

lemma takeWhile_prefix:
  assumes "i + length w < length xs" "\<forall>j<length w. xs ! (i + j) = w ! j" "\<forall>c\<in>set w. P c" "\<not> P (xs ! (i + length w))"
  shows "takeWhile P (drop i xs) = w"
proof -
  have "take (length w) (drop i xs) = w"
    using assms(1,2) by (intro nth_equalityI) auto
  then have "drop i xs = w @ xs ! (i + length w) # drop (Suc (i + length w)) xs"
    using assms(1) by (metis (no_types, lifting) Cons_nth_drop_Suc append_take_drop_id drop_drop add.commute)
  then show ?thesis
    using assms(3,4) by (simp add: takeWhile_append2)
qed

lemma parsecmd_line:
  assumes "parsecmd line = Ok c s" shows "\<exists>n s'. parseline n line = Ok c s' \<and> skip_ws s' = [] \<and> s = []"
proof -
  obtain c' s' where p: "parseline (4 * length line + 4) line = Ok c' s'"
    using assms by (auto simp: parsecmd_def bindk_Ok_iff)
  then show ?thesis
    using assms by (auto simp: parsecmd_def peek_def Let_def split: if_splits)
qed

text \<open>The text of a token.\<close>

definition word_of :: "token \<Rightarrow> uchar list" where
  "word_of t = (case t of (q, eq) \<Rightarrow> take (length q - length eq) q)"

text \<open>
  C34: Terminating the words of the parsed command is right. When the command line has been parsed,
  \<open>nulterminate\<close> stores a zero at the end of each word and of each file name; afterwards the C string at the
  beginning of each of them is exactly the word as it stood in the line: no zero hits another word.
\<close>

theorem nulterminate_words:
  assumes "parsecmd line = Ok c s" "0 \<notin> set line" "t \<in> set_cmd c"
  shows "takeWhile (\<lambda>c. c \<noteq> 0) (drop (ptr_index (line @ [0]) (fst t)) (nulterminate c (line @ [0]))) = word_of t"
proof -
  let ?buf = "line @ [0 :: uchar]"
  have words: "\<forall>t\<in>set_cmd c. word_token line t"
    using parsecmd_line [OF assms(1)] parse_ok(1) [of _ line c] by blast
  obtain q eq where t: "t = (q, eq)" by fastforce
  then obtain w where w: "suffix q line" "q = w @ eq" "\<forall>c\<in>set w. word_char c"
    using words assms(3) by (auto simp: word_token_def)
  then obtain pre where line: "line = pre @ w @ eq"
    by (auto simp: suffix_def)
  have idx: "ptr_index ?buf p = length line - length p" for p
    by (simp add: ptr_index_def)
  have nt: "length (nulterminate c ?buf) = length ?buf"
    "i < length ?buf \<Longrightarrow> nulterminate c ?buf ! i = (if \<exists>t\<in>set_cmd c. i = length line - length (snd t) then 0 else ?buf ! i)" for i
    using nulterminate_nth [of c ?buf] by (auto simp: idx)
  have keep: "nulterminate c ?buf ! (length pre + j) = w ! j" if j: "j < length w" for j
  proof -
    have "length pre + j \<noteq> length line - length (snd t2)" if t2: "t2 \<in> set_cmd c" for t2
    proof
      assume e: "length pre + j = length line - length (snd t2)"
      obtain q2 eq2 where q2: "t2 = (q2, eq2)" by fastforce
      then obtain w2 where "suffix q2 line" "q2 = w2 @ eq2" and eq2: "eq2 = [] \<or> \<not> word_char (hd eq2)"
        using words t2 by (auto simp: word_token_def)
      then have "suffix eq2 line" "length eq2 \<le> length line"
        by (auto simp: suffix_def)
      then have "eq2 = drop (length pre + j) line"
        using e q2 by (auto simp: suffix_def)
      then have "eq2 = drop j w @ eq"
        using j by (simp add: line)
      then show False
        using eq2 j w(3) by (auto simp: hd_append hd_drop_conv_nth)
    qed
    then show ?thesis
      using j nt(2) [of "length pre + j"] by (auto simp: line nth_append)
  qed
  have "takeWhile (\<lambda>c. c \<noteq> 0) (drop (length pre) (nulterminate c ?buf)) = w"
  proof (rule takeWhile_prefix)
    show "\<forall>c\<in>set w. c \<noteq> 0"
      using assms(2) by (auto simp: line)
    show "\<not> nulterminate c ?buf ! (length pre + length w) \<noteq> 0"
      using nt(2) [of "length pre + length w"] assms(3) t by (auto simp: line)
    show "length pre + length w < length (nulterminate c ?buf)"
      unfolding nt(1) by (simp add: line)
  qed (use keep in blast)
  then show ?thesis
    unfolding idx t fst_conv word_of_def prod.case using w(2) line by simp
qed

lemma parse_example:
  "parsecmd [97, 62, 98] = Ok (REDIR (EXEC [([97, 62, 98], [62, 98])]) ([98], []) (O_WRONLY OR O_CREATE) 1) []"
  by code_simp

theorem nulterminate_words_witness:
  "takeWhile (\<lambda>c. c \<noteq> 0) (drop 0 (nulterminate (REDIR (EXEC [([97, 62, 98], [62, 98])]) ([98], []) (O_WRONLY OR O_CREATE) 1) [97, 62, 98, 0])) = [97]"
  using nulterminate_words [OF parse_example, of "([97, 62, 98], [62, 98])"] by (simp add: word_of_def ptr_index_def)

section \<open>Printing and parsing\<close>

text \<open>
  Commands over words, printed with a space before each word and symbol. The level says where the command
  stands: 0 where a line may stand, 1 before \<open>&\<close> and \<open>;\<close>, 2 on the right of \<open>|\<close>, 3 on its left and inside redirections;
  parentheses are printed where the level requires them.
\<close>

definition paren :: "bool \<Rightarrow> uchar list \<Rightarrow> uchar list" where
  "paren b x = (if b then [32, 40] @ x @ [32, 41] else x)"

definition pr_redir :: "uchar list redir \<Rightarrow> uchar list" where
  "pr_redir r = (case r of (w, mode, fd) \<Rightarrow> (if fd = 0 then [32, 60] else [32, 62]) @ 32 # w)"

primrec pr_cmd :: "nat \<Rightarrow> uchar list cmd \<Rightarrow> uchar list" where
  "pr_cmd k (EXEC ws) = concat (map (\<lambda>w. 32 # w) ws)"
| "pr_cmd k (REDIR c w mode fd) = pr_cmd 3 c @ pr_redir (w, mode, fd)"
| "pr_cmd k (PIPE l r) = paren (2 < k) (pr_cmd 3 l @ [32, 124] @ pr_cmd 2 r)"
| "pr_cmd k (LIST l r) = paren (0 < k) (pr_cmd 1 l @ [32, 59] @ pr_cmd 0 r)"
| "pr_cmd k (BACK c) = paren (1 < k) (pr_cmd 1 c @ [32, 38])"

text \<open>Commands within the limits of the parser: words without special characters, fewer than \<open>MAXARGS\<close> of them in a simple command, the shell's two
  kinds of redirection.\<close>

definition good_word :: "uchar list \<Rightarrow> bool" where
  "good_word w \<longleftrightarrow> w \<noteq> [] \<and> (\<forall>c\<in>set w. word_char c \<and> c \<noteq> 0)"

definition good_redir :: "uchar list redir \<Rightarrow> bool" where
  "good_redir r \<longleftrightarrow> (case r of (w, mode, fd) \<Rightarrow> good_word w \<and> (mode = O_RDONLY \<and> fd = 0 \<or> mode = O_WRONLY OR O_CREATE \<and> fd = 1))"

primrec good_cmd :: "uchar list cmd \<Rightarrow> bool" where
  "good_cmd (EXEC ws) \<longleftrightarrow> (\<forall>w\<in>set ws. good_word w) \<and> length ws < MAXARGS"
| "good_cmd (REDIR c w mode fd) \<longleftrightarrow> good_cmd c \<and> good_redir (w, mode, fd)"
| "good_cmd (PIPE l r) \<longleftrightarrow> good_cmd l \<and> good_cmd r"
| "good_cmd (LIST l r) \<longleftrightarrow> good_cmd l \<and> good_cmd r"
| "good_cmd (BACK c) \<longleftrightarrow> good_cmd c"

text \<open>What may follow: nothing or a space, and the next character that is not white space.\<close>

definition sep :: "uchar list \<Rightarrow> bool" where
  "sep s \<longleftrightarrow> s = [] \<or> hd s = 32"

definition nxt :: "uchar list \<Rightarrow> uchar" where
  "nxt s = char_at (skip_ws s)"

lemma sep_simps [simp]: "sep []" "sep (32 # s)"
  by (simp_all add: sep_def)

lemma sep_append: "sep s \<Longrightarrow> sep t \<Longrightarrow> sep (s @ t)"
  by (cases s) (auto simp: sep_def)

lemma sep_pr_redir [simp]: "sep (pr_redir r)"
  by (cases r) (auto simp: pr_redir_def)

lemma sep_concat: "(\<And>x. x \<in> set xs \<Longrightarrow> sep x) \<Longrightarrow> sep (concat xs)"
  by (induction xs) (auto intro: sep_append)

lemma sep_pr_cmd [simp]: "sep (pr_cmd k c)"
  by (induction c arbitrary: k) (auto simp: paren_def intro!: sep_append sep_concat)

lemma skip_ws_space [simp]: "skip_ws (32 # s) = skip_ws s"
  by (simp add: skip_ws_def whitespace_def)

lemma skip_ws_other: "c \<notin> set whitespace \<Longrightarrow> skip_ws (c # s) = c # s"
  by (simp add: skip_ws_def)

lemma symbol_ws: "c \<in> set symbols \<Longrightarrow> c \<notin> set whitespace"
  by (auto simp: symbols_def whitespace_def)

lemma nxt_simps [simp]: "nxt (skip_ws s) = nxt s" "nxt [] = 0" "nxt (32 # s) = nxt s" "c \<in> set symbols \<Longrightarrow> nxt (c # s) = c"
  by (simp_all add: nxt_def char_at_def skip_ws_other symbol_ws) (simp add: skip_ws_def)

lemma peek_nxt: "peek s toks = (nxt s \<noteq> 0 \<and> nxt s \<in> set toks, skip_ws s)"
  by (simp add: peek_def nxt_def Let_def)

text \<open>Reading a symbol, and a word.\<close>

lemma gettoken_symbol: "c \<in> {124, 40, 41, 59, 38, 60} \<Longrightarrow> gettoken (c # s) = (c, (c # s, s), skip_ws s)"
proof -
  assume c: "c \<in> {124, 40, 41, 59, 38, 60}"
  then have "skip_ws (c # s) = c # s"
    by (intro skip_ws_other) (auto simp: whitespace_def)
  then show ?thesis
    using c by (auto simp: gettoken_def char_at_def)
qed

lemma gettoken_redirect: "sep s \<Longrightarrow> gettoken (62 # s) = (62, (62 # s, s), skip_ws s)"
  by (cases s) (auto simp: gettoken_def char_at_def skip_ws_other whitespace_def sep_def)

lemma gettoken_space [simp]: "gettoken (32 # s) = gettoken s" "gettoken (skip_ws s) = gettoken s"
  by (simp_all add: gettoken_def)

lemma dropWhile_word:
  assumes "\<forall>c\<in>set w. word_char c" "sep s" shows "dropWhile word_char (w @ s) = s"
  using assms by (cases s) (auto simp: dropWhile_append3 sep_def word_char_def whitespace_def)

lemma gettoken_good_word:
  assumes "good_word w" "sep s"
  shows "gettoken (w @ s) = (97, (w @ s, s), skip_ws s)"
proof -
  obtain c r where w: "w = c # r" "word_char c" "c \<noteq> 0"
    using assms(1) by (cases w) (auto simp: good_word_def)
  then have "skip_ws (w @ s) = w @ s"
    by (simp add: skip_ws_other word_char_def)
  moreover have "dropWhile word_char (w @ s) = s"
    using assms by (intro dropWhile_word) (auto simp: good_word_def)
  ultimately show ?thesis
    using w unfolding gettoken_def Let_def word_char_def [abs_def] by (auto simp: char_at_def symbols_def)
qed

lemma nxt_good_word: "good_word w \<Longrightarrow> nxt (w @ s) \<notin> set symbols \<and> nxt (w @ s) \<noteq> 0"
  by (cases w) (auto simp: good_word_def nxt_def skip_ws_other word_char_def char_at_def)

text \<open>White space in front makes no difference.\<close>

lemma skip_ws_parse [simp]:
  "parseredirs (skip_ws s) = parseredirs s" "parseargs argc (skip_ws s) = parseargs argc s" "parseback c (skip_ws s) = parseback c s"
  "parseexec n (skip_ws s) = parseexec n s" "parsepipe n (skip_ws s) = parsepipe n s" "parseline n (skip_ws s) = parseline n s"
proof -
  show "parseredirs (skip_ws s) = parseredirs s" "parseargs argc (skip_ws s) = parseargs argc s" "parseback c (skip_ws s) = parseback c s"
    unfolding parseredirs.simps [of "skip_ws s"] parseredirs.simps [of s] parseargs.simps [of argc "skip_ws s"] parseargs.simps [of argc s]
      parseback.simps [of c "skip_ws s"] parseback.simps [of c s] peek_nxt nxt_simps(1) skip_ws_idem by (rule refl)+
  have e: "parseexec n (skip_ws s) = parseexec n s" for n
    by (cases n) (simp_all add: peek_nxt)
  then have p: "parsepipe n (skip_ws s) = parsepipe n s" for n
    by (cases n) simp_all
  show "parseexec n (skip_ws s) = parseexec n s" "parsepipe n (skip_ws s) = parsepipe n s" "parseline n (skip_ws s) = parseline n s"
    using e p by simp_all (cases n, simp_all)
qed

lemma word_of_append [simp]: "word_of (w @ s, s) = w"
  by (simp add: word_of_def)

lemma parseredirs_stop: "nxt s \<notin> {60, 62} \<Longrightarrow> parseredirs s = Ok [] (skip_ws s)"
  unfolding parseredirs.simps [of s] by (auto simp: peek_nxt)

lemma nxt_redir: "nxt (pr_redir r @ s) \<in> {60, 62}"
  by (cases r) (simp add: pr_redir_def symbols_def)

lemma parseredirs_pr:
  assumes "\<forall>r\<in>set rs. good_redir r" "sep rest" "nxt rest \<notin> {60, 62}"
  shows "\<exists>ts. parseredirs (concat (map pr_redir rs) @ rest) = Ok ts (skip_ws rest) \<and> map (apfst word_of) ts = rs"
  using assms(1)
proof (induction rs)
  case Nil
  then show ?case
    using assms(3) by (simp add: parseredirs_stop)
next
  case (Cons r rs)
  obtain w mode fd where r: "r = (w, mode, fd)" by (cases r)
  let ?s = "concat (map pr_redir rs) @ rest"
  obtain ts where ts: "parseredirs ?s = Ok ts (skip_ws rest)" "map (apfst word_of) ts = rs"
    using Cons by auto
  have w: "good_word w" "mode = O_RDONLY \<and> fd = 0 \<or> mode = O_WRONLY OR O_CREATE \<and> fd = 1"
    using Cons.prems by (auto simp: r good_redir_def)
  have "sep ?s"
    using assms(2) by (intro sep_append sep_concat) auto
  note tok = gettoken_good_word [OF w(1) this]
  define c :: uchar where "c = (if fd = 0 then 60 else 62)"
  have c: "gettoken (c # 32 # w @ ?s) = (c, (c # 32 # w @ ?s, 32 # w @ ?s), skip_ws (w @ ?s))" "c \<in> set symbols" "c \<noteq> 0" "c \<in> set [60, 62]"
    using gettoken_symbol [of 60] gettoken_redirect by (auto simp: c_def symbols_def)
  have pr: "pr_redir r @ ?s = 32 # c # 32 # w @ ?s"
    by (simp add: r pr_redir_def c_def)
  have pk: "peek (pr_redir r @ ?s) [60, 62] = (True, c # 32 # w @ ?s)"
    unfolding peek_nxt pr using c(2-4) symbol_ws [OF c(2)] by (simp add: skip_ws_other)
  have "parseredirs (pr_redir r @ ?s) = Ok (((w @ ?s, ?s), mode, fd) # ts) (skip_ws rest)"
    unfolding parseredirs.simps [of "pr_redir r @ ?s"] pk prod.case c(1) gettoken_space(2) tok skip_ws_parse(1) ts(1)
    using w(2) by (auto simp: c_def)
  then show ?case
    using ts(2) by (simp add: r)
qed

lemma parseargs_stop: "nxt s \<in> {0, 124, 41, 38, 59} \<Longrightarrow> parseargs argc s = Ok ([], []) (skip_ws s)"
  unfolding parseargs.simps [of argc s]
  by (auto simp: peek_nxt split: prod.split) (auto simp: gettoken_def nxt_def Let_def)

lemma parseargs_pr:
  assumes "\<forall>r\<in>set rs. good_redir r" "sep rest" "nxt rest \<in> {0, 124, 41, 38, 59}"
    and "\<forall>w\<in>set ws. good_word w" "argc + length ws < MAXARGS" "ws = [] \<Longrightarrow> rs = []"
  shows "\<exists>ts rs'. parseargs argc (concat (map (\<lambda>w. 32 # w) ws) @ concat (map pr_redir rs) @ rest) = Ok (ts, rs') (skip_ws rest) \<and>
    map word_of ts = ws \<and> map (apfst word_of) rs' = rs"
  using assms(4-6)
proof (induction ws arbitrary: argc)
  case Nil
  then show ?case
    using assms(3) by (simp add: parseargs_stop)
next
  case (Cons w ws)
  let ?s = "concat (map (\<lambda>w. 32 # w) ws) @ concat (map pr_redir rs) @ rest"
  have w: "good_word w" and sep: "sep ?s"
    using Cons.prems assms(2) by (auto intro!: sep_append sep_concat)
  note tok = gettoken_good_word [OF this]
  have p: "peek (32 # w @ ?s) [124, 41, 38, 59] = (False, skip_ws (w @ ?s))"
    using nxt_good_word [OF w, of ?s] by (auto simp: peek_nxt symbols_def)
  have *: "\<exists>ts rs'. bindk (parseredirs ?s) (\<lambda>rs s. bindk (parseargs (argc + 1) s) (\<lambda>(ts, rs') s. Ok (t # ts, rs @ rs') s)) =
      Ok (t # ts, rs') (skip_ws rest) \<and> map word_of ts = ws \<and> map (apfst word_of) rs' = rs" for t
  proof (cases "ws = []")
    case True
    have "nxt rest \<notin> {60, 62}"
      using assms(3) by auto
    then obtain ts where "parseredirs ?s = Ok ts (skip_ws rest)" "map (apfst word_of) ts = rs"
      using parseredirs_pr [OF assms(1,2)] True by auto
    then show ?thesis
      using True assms(3) by (simp add: parseargs_stop)
  next
    case False
    then obtain w2 ws2 where ws: "ws = w2 # ws2" by (cases ws) auto
    have "nxt ?s \<notin> {60, 62}"
      using nxt_good_word [of w2] Cons.prems(1) by (auto simp: ws symbols_def)
    moreover obtain ts rs' where "parseargs (argc + 1) ?s = Ok (ts, rs') (skip_ws rest)" "map word_of ts = ws" "map (apfst word_of) rs' = rs"
      using Cons.IH [of "argc + 1"] Cons.prems False by auto
    ultimately show ?thesis
      by (simp add: parseredirs_stop del: append_assoc)
  qed
  obtain ts rs' where ts: "bindk (parseredirs ?s) (\<lambda>rs s. bindk (parseargs (argc + 1) s) (\<lambda>(ts, rs') s. Ok ((w @ ?s, ?s) # ts, rs @ rs') s)) =
      Ok ((w @ ?s, ?s) # ts, rs') (skip_ws rest)" "map word_of ts = ws" "map (apfst word_of) rs' = rs"
    using * [of "(w @ ?s, ?s)"] by blast
  have "parseargs argc (32 # w @ ?s) = Ok ((w @ ?s, ?s) # ts, rs') (skip_ws rest)"
    unfolding parseargs.simps [of argc "32 # w @ ?s"] p using Cons.prems(2) ts(1) by (simp add: tok)
  then show ?case
    using ts(2,3) by simp
qed

text \<open>What it means at each level that printing and parsing a command gives the command back.\<close>

definition rt_exec :: "uchar list cmd \<Rightarrow> bool" where
  "rt_exec c \<longleftrightarrow> (\<forall>rs rest n. (\<forall>r\<in>set rs. good_redir r) \<longrightarrow> sep rest \<longrightarrow> nxt rest \<in> {0, 124, 41, 38, 59} \<longrightarrow>
     4 * length (pr_cmd 3 c @ concat (map pr_redir rs) @ rest) + 2 \<le> n \<longrightarrow>
     (\<exists>t. parseexec n (pr_cmd 3 c @ concat (map pr_redir rs) @ rest) = Ok t (skip_ws rest) \<and> map_cmd word_of t = redircmds c rs))"

definition rt_pipe :: "uchar list cmd \<Rightarrow> bool" where
  "rt_pipe c \<longleftrightarrow> (\<forall>rest n. sep rest \<longrightarrow> nxt rest \<in> {0, 41, 38, 59} \<longrightarrow> 4 * length (pr_cmd 2 c @ rest) + 3 \<le> n \<longrightarrow>
     (\<exists>t. parsepipe n (pr_cmd 2 c @ rest) = Ok t (skip_ws rest) \<and> map_cmd word_of t = c))"

definition rt_back :: "uchar list cmd \<Rightarrow> bool" where
  "rt_back c \<longleftrightarrow> (\<forall>rest n. sep rest \<longrightarrow> nxt rest \<in> {0, 41, 38, 59} \<longrightarrow> 4 * length (pr_cmd 1 c @ rest) + 3 \<le> n \<longrightarrow>
     (\<exists>t0 s0 t. parsepipe n (pr_cmd 1 c @ rest) = Ok t0 s0 \<and> parseback t0 s0 = parseback t rest \<and> map_cmd word_of t = c))"

definition rt_line :: "uchar list cmd \<Rightarrow> bool" where
  "rt_line c \<longleftrightarrow> (\<forall>rest n. sep rest \<longrightarrow> nxt rest \<in> {0, 41} \<longrightarrow> 4 * length (pr_cmd 0 c @ rest) + 4 \<le> n \<longrightarrow>
     (\<exists>t. parseline n (pr_cmd 0 c @ rest) = Ok t (skip_ws rest) \<and> map_cmd word_of t = c))"

lemma map_redircmds: "map_cmd f (redircmds c rs) = redircmds (map_cmd f c) (map (apfst f) rs)"
  by (induction c rs rule: redircmds.induct) auto

lemma parseback_stop: "nxt s \<noteq> 38 \<Longrightarrow> parseback c s = (c, skip_ws s)"
  unfolding parseback.simps [of c s] by (auto simp: peek_nxt)

lemma parseback_amp: "parseback c (32 # 38 # s) = parseback (BACK c) s"
  unfolding parseback.simps [of c "32 # 38 # s"] using gettoken_symbol [of 38 s]
  by (simp add: peek_nxt symbols_def skip_ws_other whitespace_def)

lemma rt_pipe_exec:
  assumes "rt_exec c" "pr_cmd 2 c = pr_cmd 3 c" shows "rt_pipe c"
  unfolding rt_pipe_def
proof (intro allI impI)
  fix rest n assume a: "sep rest" "nxt rest \<in> {0, 41, 38, 59}" "4 * length (pr_cmd 2 c @ rest) + 3 \<le> n"
  then obtain m where n: "n = Suc m" "4 * length (pr_cmd 2 c @ rest) + 2 \<le> m" by (cases n) auto
  then obtain t where "parseexec m (pr_cmd 2 c @ rest) = Ok t (skip_ws rest)" "map_cmd word_of t = c"
    using assms(1) [unfolded rt_exec_def, rule_format, of "[]" rest m] a assms(2) by auto
  then show "\<exists>t. parsepipe n (pr_cmd 2 c @ rest) = Ok t (skip_ws rest) \<and> map_cmd word_of t = c"
    using a(2) by (auto simp: n(1) peek_nxt)
qed

lemma rt_back_pipe:
  assumes "rt_pipe c" "pr_cmd 1 c = pr_cmd 2 c" shows "rt_back c"
  unfolding rt_back_def
proof (intro allI impI)
  fix rest n assume a: "sep rest" "nxt rest \<in> {0, 41, 38, 59}" "4 * length (pr_cmd 1 c @ rest) + 3 \<le> n"
  then obtain t where "parsepipe n (pr_cmd 1 c @ rest) = Ok t (skip_ws rest)" "map_cmd word_of t = c"
    using assms(1) [unfolded rt_pipe_def, rule_format, of rest n] assms(2) by auto
  then show "\<exists>t0 s0 t. parsepipe n (pr_cmd 1 c @ rest) = Ok t0 s0 \<and> parseback t0 s0 = parseback t rest \<and> map_cmd word_of t = c"
    by auto
qed

lemma rt_line_back:
  assumes "rt_back c" "pr_cmd 0 c = pr_cmd 1 c" shows "rt_line c"
  unfolding rt_line_def
proof (intro allI impI)
  fix rest n assume a: "sep rest" "nxt rest \<in> {0, 41}" "4 * length (pr_cmd 0 c @ rest) + 4 \<le> n"
  then obtain m where n: "n = Suc m" "4 * length (pr_cmd 0 c @ rest) + 3 \<le> m" by (cases n) auto
  then obtain t0 s0 t where "parsepipe m (pr_cmd 0 c @ rest) = Ok t0 s0" "parseback t0 s0 = parseback t rest" "map_cmd word_of t = c"
    using assms(1) [unfolded rt_back_def, rule_format, of rest m] a assms(2) by auto
  then show "\<exists>t. parseline n (pr_cmd 0 c @ rest) = Ok t (skip_ws rest) \<and> map_cmd word_of t = c"
    using a(2) by (auto simp: n(1) peek_nxt parseback_stop)
qed

lemma rt_exec_block:
  assumes "rt_line c" "pr_cmd 3 c = [32, 40] @ pr_cmd 0 c @ [32, 41]" shows "rt_exec c"
  unfolding rt_exec_def
proof (intro allI impI)
  fix rs rest n
  let ?s = "concat (map pr_redir rs) @ rest"
  assume a: "\<forall>r\<in>set rs. good_redir r" "sep rest" "nxt rest \<in> {0, 124, 41, 38, 59}" "4 * length (pr_cmd 3 c @ ?s) + 2 \<le> n"
  then obtain k where n: "n = Suc (Suc k)" "4 * length (pr_cmd 0 c @ [32, 41] @ ?s) + 4 \<le> k"
    by (cases n; cases "n - 1") (auto simp: assms(2))
  obtain t where t: "parseline k (pr_cmd 0 c @ [32, 41] @ ?s) = Ok t (skip_ws ([32, 41] @ ?s))" "map_cmd word_of t = c"
    using assms(1) [unfolded rt_line_def, rule_format, of "[32, 41] @ ?s" k] n(2) by (auto simp: symbols_def)
  have "nxt rest \<notin> {60, 62}"
    using a(3) by auto
  from parseredirs_pr [OF a(1,2) this] obtain ts where ts: "parseredirs ?s = Ok ts (skip_ws rest)" "map (apfst word_of) ts = rs"
    by blast
  have s: "pr_cmd 3 c @ ?s = 32 # 40 # pr_cmd 0 c @ [32, 41] @ ?s"
    by (simp add: assms(2))
  have "parseexec n (pr_cmd 3 c @ ?s) = Ok (redircmds t ts) (skip_ws rest)"
    unfolding s n(1) using t(1) ts(1) gettoken_symbol [of 40] gettoken_symbol [of 41]
    by (simp add: peek_nxt symbols_def skip_ws_other whitespace_def)
  then show "\<exists>t. parseexec n (pr_cmd 3 c @ ?s) = Ok t (skip_ws rest) \<and> map_cmd word_of t = redircmds c rs"
    using t(2) ts(2) by (auto simp: map_redircmds)
qed

lemma rt_exec_EXEC:
  assumes "good_cmd (EXEC ws)" shows "rt_exec (EXEC ws)"
  unfolding rt_exec_def
proof (intro allI impI)
  fix rs rest n
  let ?s = "pr_cmd 3 (EXEC ws) @ concat (map pr_redir rs) @ rest"
  assume a: "\<forall>r\<in>set rs. good_redir r" "sep rest" "nxt rest \<in> {0, 124, 41, 38, 59}" "4 * length ?s + 2 \<le> n"
  obtain m where n: "n = Suc m" using a(4) by (cases n) auto
  have stop: "nxt rest \<notin> {60, 62}" using a(3) by auto
  have block: "nxt ?s \<noteq> 40"
  proof (cases ws)
    case Nil
    then show ?thesis
      using a(3) nxt_redir [of "hd rs" "concat (map pr_redir (tl rs)) @ rest"] by (cases rs) auto
  next
    case (Cons w ws')
    then show ?thesis
      using nxt_good_word [of w] assms by (auto simp: symbols_def)
  qed
  have "\<exists>rs1 ts rs2 s. parseredirs ?s = Ok rs1 s \<and> parseargs 0 s = Ok (ts, rs2) (skip_ws rest) \<and> map word_of ts = ws \<and>
      map (apfst word_of) (rs1 @ rs2) = rs"
  proof (cases ws)
    case Nil
    then show ?thesis
      using parseredirs_pr [OF a(1,2) stop] a(3) by (auto simp: parseargs_stop)
  next
    case (Cons w ws')
    then have "nxt ?s \<notin> {60, 62}"
      using nxt_good_word [of w] assms by (auto simp: symbols_def)
    then have r: "parseredirs ?s = Ok [] (skip_ws ?s)"
      by (rule parseredirs_stop)
    obtain ts rs' where p: "parseargs 0 ?s = Ok (ts, rs') (skip_ws rest)" and m: "map word_of ts = ws" "map (apfst word_of) rs' = rs"
      using parseargs_pr [OF a(1-3), of ws 0] assms Cons by auto
    show ?thesis
      using m by (intro exI [of _ "[]"] exI [of _ ts] exI [of _ rs'] exI [of _ "skip_ws ?s"] conjI r)
        (simp_all only: skip_ws_parse p append_Nil)
  qed
  then obtain rs1 ts rs2 s where "parseredirs ?s = Ok rs1 s" "parseargs 0 s = Ok (ts, rs2) (skip_ws rest)" "map word_of ts = ws"
      "map (apfst word_of) (rs1 @ rs2) = rs"
    by blast
  then show "\<exists>t. parseexec n ?s = Ok t (skip_ws rest) \<and> map_cmd word_of t = redircmds (EXEC ws) rs"
    using block unfolding n by (simp add: peek_nxt map_redircmds)
qed

lemma rt_exec_REDIR: "rt_exec c \<Longrightarrow> good_redir (w, mode, fd) \<Longrightarrow> rt_exec (REDIR c w mode fd)"
  unfolding rt_exec_def
proof (intro allI impI)
  fix rs rest n
  assume c: "\<forall>rs rest n. (\<forall>r\<in>set rs. good_redir r) \<longrightarrow> sep rest \<longrightarrow> nxt rest \<in> {0, 124, 41, 38, 59} \<longrightarrow>
      4 * length (pr_cmd 3 c @ concat (map pr_redir rs) @ rest) + 2 \<le> n \<longrightarrow>
      (\<exists>t. parseexec n (pr_cmd 3 c @ concat (map pr_redir rs) @ rest) = Ok t (skip_ws rest) \<and> map_cmd word_of t = redircmds c rs)"
    and r: "good_redir (w, mode, fd)" "\<forall>r\<in>set rs. good_redir r" "sep rest" "nxt rest \<in> {0, 124, 41, 38, 59}"
    and n: "4 * length (pr_cmd 3 (REDIR c w mode fd) @ concat (map pr_redir rs) @ rest) + 2 \<le> n"
  show "\<exists>t. parseexec n (pr_cmd 3 (REDIR c w mode fd) @ concat (map pr_redir rs) @ rest) = Ok t (skip_ws rest) \<and>
      map_cmd word_of t = redircmds (REDIR c w mode fd) rs"
    using c [rule_format, of "(w, mode, fd) # rs" rest n] r n by auto
qed

lemma rt_pipe_PIPE:
  assumes "rt_exec l" "rt_pipe r" shows "rt_pipe (PIPE l r)"
  unfolding rt_pipe_def
proof (intro allI impI)
  fix rest n assume a: "sep rest" "nxt rest \<in> {0, 41, 38, 59}" "4 * length (pr_cmd 2 (PIPE l r) @ rest) + 3 \<le> n"
  let ?s = "[32, 124] @ pr_cmd 2 r @ rest"
  have s: "pr_cmd 2 (PIPE l r) @ rest = pr_cmd 3 l @ ?s"
    by (simp add: paren_def)
  obtain m where n: "n = Suc m" "4 * length (pr_cmd 3 l @ ?s) + 2 \<le> m" "4 * length (pr_cmd 2 r @ rest) + 3 \<le> m"
    using a(3) unfolding s by (cases n) auto
  obtain tl where l: "parseexec m (pr_cmd 3 l @ ?s) = Ok tl (skip_ws ?s)" "map_cmd word_of tl = l"
    using assms(1) [unfolded rt_exec_def, rule_format, of "[]" ?s m] n(2) by (auto simp: symbols_def)
  obtain tr where r: "parsepipe m (pr_cmd 2 r @ rest) = Ok tr (skip_ws rest)" "map_cmd word_of tr = r"
    using assms(2) [unfolded rt_pipe_def, rule_format, of rest m] a n(3) by auto
  have "parsepipe n (pr_cmd 3 l @ ?s) = Ok (PIPE tl tr) (skip_ws rest)"
    unfolding n(1) using l(1) r(1) gettoken_symbol [of 124] by (simp add: peek_nxt symbols_def skip_ws_other whitespace_def)
  then show "\<exists>t. parsepipe n (pr_cmd 2 (PIPE l r) @ rest) = Ok t (skip_ws rest) \<and> map_cmd word_of t = PIPE l r"
    unfolding s using l(2) r(2) by auto
qed

lemma rt_line_LIST:
  assumes "rt_back l" "rt_line r" shows "rt_line (LIST l r)"
  unfolding rt_line_def
proof (intro allI impI)
  fix rest n assume a: "sep rest" "nxt rest \<in> {0, 41}" "4 * length (pr_cmd 0 (LIST l r) @ rest) + 4 \<le> n"
  let ?s = "[32, 59] @ pr_cmd 0 r @ rest"
  have s: "pr_cmd 0 (LIST l r) @ rest = pr_cmd 1 l @ ?s"
    by (simp add: paren_def)
  obtain m where n: "n = Suc m" "4 * length (pr_cmd 1 l @ ?s) + 3 \<le> m" "4 * length (pr_cmd 0 r @ rest) + 4 \<le> m"
    using a(3) unfolding s by (cases n) auto
  obtain t0 s0 tl where l: "parsepipe m (pr_cmd 1 l @ ?s) = Ok t0 s0" "parseback t0 s0 = parseback tl ?s" "map_cmd word_of tl = l"
    using assms(1) [unfolded rt_back_def, rule_format, of ?s m] n(2) by (auto simp: symbols_def)
  obtain tr where r: "parseline m (pr_cmd 0 r @ rest) = Ok tr (skip_ws rest)" "map_cmd word_of tr = r"
    using assms(2) [unfolded rt_line_def, rule_format, of rest m] a n(3) by auto
  have "parseback tl ?s = (tl, skip_ws ?s)"
    by (rule parseback_stop) (simp add: symbols_def)
  then have "parseline n (pr_cmd 1 l @ ?s) = Ok (LIST tl tr) (skip_ws rest)"
    unfolding n(1) using l(1,2) r(1) gettoken_symbol [of 59] by (simp add: peek_nxt symbols_def skip_ws_other whitespace_def)
  then show "\<exists>t. parseline n (pr_cmd 0 (LIST l r) @ rest) = Ok t (skip_ws rest) \<and> map_cmd word_of t = LIST l r"
    unfolding s using l(3) r(2) by auto
qed

lemma rt_back_BACK:
  assumes "rt_back c" shows "rt_back (BACK c)"
  unfolding rt_back_def
proof (intro allI impI)
  fix rest n assume a: "sep rest" "nxt rest \<in> {0, 41, 38, 59}" "4 * length (pr_cmd 1 (BACK c) @ rest) + 3 \<le> n"
  let ?s = "[32, 38] @ rest"
  have s: "pr_cmd 1 (BACK c) @ rest = pr_cmd 1 c @ ?s"
    by (simp add: paren_def)
  obtain t0 s0 t where "parsepipe n (pr_cmd 1 c @ ?s) = Ok t0 s0" "parseback t0 s0 = parseback t ?s" "map_cmd word_of t = c"
    using assms [unfolded rt_back_def, rule_format, of ?s n] a(3) unfolding s by (auto simp: symbols_def)
  then show "\<exists>t0 s0 t. parsepipe n (pr_cmd 1 (BACK c) @ rest) = Ok t0 s0 \<and> parseback t0 s0 = parseback t rest \<and> map_cmd word_of t = BACK c"
    unfolding s by (auto simp: parseback_amp intro!: exI [of _ "BACK t"])
qed

lemma rt_all: "good_cmd c \<Longrightarrow> rt_exec c \<and> rt_pipe c \<and> rt_back c \<and> rt_line c"
proof (induction c)
  case (EXEC ws)
  then have e: "rt_exec (EXEC ws)" by (rule rt_exec_EXEC)
  then show ?case by (simp add: rt_pipe_exec rt_back_pipe rt_line_back)
next
  case (REDIR c w mode fd)
  then have "rt_exec (REDIR c w mode fd)" by (simp add: rt_exec_REDIR)
  then show ?case by (simp add: rt_pipe_exec rt_back_pipe rt_line_back)
next
  case (PIPE l r)
  then have "rt_pipe (PIPE l r)" by (simp add: rt_pipe_PIPE)
  then have "rt_back (PIPE l r)" by (rule rt_back_pipe) (simp add: paren_def)
  then have "rt_line (PIPE l r)" by (rule rt_line_back) (simp add: paren_def)
  then have "rt_exec (PIPE l r)" by (rule rt_exec_block) (simp add: paren_def)
  with \<open>rt_pipe (PIPE l r)\<close> \<open>rt_back (PIPE l r)\<close> \<open>rt_line (PIPE l r)\<close> show ?case by simp
next
  case (LIST l r)
  then have "rt_line (LIST l r)" by (simp add: rt_line_LIST)
  then have "rt_exec (LIST l r)" by (rule rt_exec_block) (simp add: paren_def)
  then have "rt_pipe (LIST l r)" by (rule rt_pipe_exec) (simp add: paren_def)
  then have "rt_back (LIST l r)" by (rule rt_back_pipe) (simp add: paren_def)
  with \<open>rt_line (LIST l r)\<close> \<open>rt_exec (LIST l r)\<close> \<open>rt_pipe (LIST l r)\<close> show ?case by simp
next
  case (BACK c)
  then have "rt_back (BACK c)" by (simp add: rt_back_BACK)
  then have "rt_line (BACK c)" by (rule rt_line_back) (simp add: paren_def)
  then have "rt_exec (BACK c)" by (rule rt_exec_block) (simp add: paren_def)
  then have "rt_pipe (BACK c)" by (rule rt_pipe_exec) (simp add: paren_def)
  with \<open>rt_back (BACK c)\<close> \<open>rt_line (BACK c)\<close> \<open>rt_exec (BACK c)\<close> show ?case by simp
qed

text \<open>
  C33: The shell understands what it is told. Take any command built in any nesting from simple commands, redirections, pipes,
  lists and background jobs, where a simple command has fewer than \<open>MAXARGS\<close> = 10 words, words are not empty and have no blanks, no zero byte and
  no character special to the shell, and redirections are \<open><\<close> and \<open>>\<close> (\<open>>>\<close> opens the file in the same way). Printed with parentheses
  where its place requires them, and with each redirection after the words or the group it applies to, it is parsed back as the
  same command with the same words. So the precedences of \<open>|\<close>, \<open>&\<close> and \<open>;\<close>, grouping, and redirections
  after simple commands and after groups are right. (Redirections before a group are outside this grammar: the parser rejects them.)
\<close>

theorem parsecmd_printed:
  assumes "good_cmd c"
  shows "\<exists>t. parsecmd (pr_cmd 0 c) = Ok t [] \<and> map_cmd word_of t = c"
proof -
  have "rt_line c"
    using rt_all [OF assms] by blast
  from this [unfolded rt_line_def, rule_format, of "[]" "4 * length (pr_cmd 0 c) + 4"]
  obtain t where "parseline (4 * length (pr_cmd 0 c) + 4) (pr_cmd 0 c) = Ok t []" "map_cmd word_of t = c"
    by (auto simp: skip_ws_def)
  then show ?thesis
    by (auto simp: parsecmd_def peek_nxt skip_ws_def)
qed

definition demo_cmd :: "uchar list cmd" where
  "demo_cmd = LIST (BACK (PIPE (REDIR (EXEC [[97], [98]]) [102] O_RDONLY 0) (LIST (EXEC [[99]]) (EXEC [[100]])))) (EXEC [])"

theorem parsecmd_printed_witness:
  "good_cmd demo_cmd \<and> (\<exists>t. parsecmd (pr_cmd 0 demo_cmd) = Ok t [] \<and> map_cmd word_of t = demo_cmd)"
proof -
  have "good_cmd demo_cmd"
    by (simp add: demo_cmd_def good_word_def good_redir_def word_char_def whitespace_def symbols_def MAXARGS_def)
  with parsecmd_printed [OF this] show ?thesis
    by blast
qed

end
