(* ===== verification/Grep.thy ===== *)
theory Grep
  imports Userlib
begin

text \<open>
  The user programs grep (grep.c) and wc (wc.c). Strings are the lists of their bytes before the terminating zero;
  the system call \<open>read\<close> is a parameter that says how many of the remaining bytes a call delivers.
\<close>

section \<open>The pattern matcher\<close>

fun matchhere :: "uchar list \<Rightarrow> uchar list \<Rightarrow> bool"
  and matchstar :: "uchar \<Rightarrow> uchar list \<Rightarrow> uchar list \<Rightarrow> bool" where
  "matchhere [] text = True"
| "matchhere (c # re) text =
     (if re \<noteq> [] \<and> hd re = 42 then matchstar c (tl re) text
      else if c = 36 \<and> re = [] then text = []
      else case text of [] \<Rightarrow> False | t # ts \<Rightarrow> (c = 46 \<or> c = t) \<and> matchhere re ts)"
| "matchstar c re [] = matchhere re []"
| "matchstar c re (t # ts) =
     (if matchhere re (t # ts) then True else (t = c \<or> c = 46) \<and> matchstar c re ts)"

text \<open>The loop of \<open>match\<close> over the suffixes of the text, the empty one included.\<close>

fun match_loop :: "uchar list \<Rightarrow> uchar list \<Rightarrow> bool" where
  "match_loop re [] = matchhere re []"
| "match_loop re (t # ts) = (if matchhere re (t # ts) then True else match_loop re ts)"

definition match :: "uchar list \<Rightarrow> uchar list \<Rightarrow> bool" where
  "match re text = (if re \<noteq> [] \<and> hd re = 94 then matchhere (tl re) text else match_loop re text)"

section \<open>The loop of grep\<close>

text \<open>
  The inner loop: the lines of the buffer from \<open>p\<close> on, with what is written to the standard output and the
  bytes after the last newline that \<open>strchr\<close> finds (it stops at a zero byte).
\<close>

function grep_lines :: "uchar list \<Rightarrow> uchar list \<Rightarrow> uchar list \<times> uchar list" where
  "grep_lines pattern p =
     (let line = takeWhile (\<lambda>c. c \<noteq> 10 \<and> c \<noteq> 0) p; rest = dropWhile (\<lambda>c. c \<noteq> 10 \<and> c \<noteq> 0) p
      in if rest \<noteq> [] \<and> hd rest = 10
         then let (out, q) = grep_lines pattern (tl rest)
              in (if match pattern line then line @ 10 # out else out, q)
         else ([], p))"
  by auto
termination
proof (relation "measure (\<lambda>(_, p). length p)", goal_cases)
  case (2 pattern p line rest)
  then have "length (tl rest) < length rest" "length rest \<le> length p"
    by (simp_all add: length_dropWhile_le)
  then show ?case
    by simp
qed simp

declare grep_lines.simps [simp del]

text \<open>
  The outer loop with the \<open>m\<close> bytes kept in the buffer, the rest of the input, and \<open>rd\<close>, the number of bytes that
  \<open>read\<close> delivers for a given room and rest of the input (0 also for a read that fails: the loop ends on both); \<open>buf\<close> has 1024
  bytes.
\<close>

function grep_loop :: "(nat \<Rightarrow> uchar list \<Rightarrow> nat) \<Rightarrow> uchar list \<Rightarrow> uchar list \<Rightarrow> uchar list \<Rightarrow> uchar list" where
  "grep_loop rd pattern kept input =
     (let n = min (rd (1024 - length kept - 1) input) (min (1024 - length kept - 1) (length input))
      in if n = 0 then []
         else let buf = kept @ take n input; (out, p) = grep_lines pattern buf
              in out @ grep_loop rd pattern (if length p = length buf then [] else p) (drop n input))"
  by auto
termination
  by (relation "measure (\<lambda>(_, _, _, input). length input)") auto

declare grep_loop.simps [simp del]

definition grep :: "(nat \<Rightarrow> uchar list \<Rightarrow> nat) \<Rightarrow> uchar list \<Rightarrow> uchar list \<Rightarrow> uchar list" where
  "grep rd pattern input = grep_loop rd pattern [] input"

section \<open>wc\<close>

record wc_counts =
  wc_l :: cint
  wc_w :: cint
  wc_c :: cint
  inword :: bool

definition wc_space :: "uchar \<Rightarrow> bool" where
  "wc_space c \<longleftrightarrow> c \<in> {32, 13, 9, 10, 11}"

definition wc_char :: "uchar \<Rightarrow> wc_counts \<Rightarrow> wc_counts" where
  "wc_char b s =
     (let s = s\<lparr>wc_c := wc_c s + 1\<rparr>;
          s = (if b = 10 then s\<lparr>wc_l := wc_l s + 1\<rparr> else s)
      in if wc_space b then s\<lparr>inword := False\<rparr>
         else if \<not> inword s then s\<lparr>wc_w := wc_w s + 1, inword := True\<rparr>
         else s)"

text \<open>The loop with \<open>rd\<close>, the value that \<open>read\<close> returns for a given room and rest of the input, negative when it fails; the result
  says whether the last read failed.\<close>

function wc_loop :: "(nat \<Rightarrow> uchar list \<Rightarrow> int) \<Rightarrow> uchar list \<Rightarrow> wc_counts \<Rightarrow> bool \<times> wc_counts" where
  "wc_loop rd input s =
     (let n = min (nat (rd 512 input)) (min 512 (length input))
      in if n = 0 then (rd 512 input < 0, s) else wc_loop rd (drop n input) (fold wc_char (take n input) s))"
  by auto
termination
  by (relation "measure (\<lambda>(_, input, _). length input)") auto

declare wc_loop.simps [simp del]

text \<open>What is printed, and whether the process exits.\<close>

definition wc :: "(nat \<Rightarrow> uchar list \<Rightarrow> int) \<Rightarrow> uchar list \<Rightarrow> uchar list \<Rightarrow> bool \<times> uchar list option" where
  "wc rd input name =
     (let (failed, s) = wc_loop rd input \<lparr>wc_l = 0, wc_w = 0, wc_c = 0, inword = False\<rparr>
      in if failed then (True, printf (map (of_nat \<circ> of_char) ''wc: read error'' @ [10]) [])
         else (False, printf (map (of_nat \<circ> of_char) ''%d %d %d %s'' @ [10])
                 [ArgInt (wc_l s), ArgInt (wc_w s), ArgInt (wc_c s), ArgStr (Some name)]))"

section \<open>Correctness of the matcher\<close>

text \<open>
  A pattern as a sequence of single characters and repeated characters, with the mark for \<open>$\<close> at the
  end, and the texts it stands for.
\<close>

datatype atom = One uchar | Rep uchar

fun atoms :: "uchar list \<Rightarrow> atom list \<times> bool" where
  "atoms [] = ([], False)"
| "atoms (c # re) =
     (if re \<noteq> [] \<and> hd re = 42 then apfst ((#) (Rep c)) (atoms (tl re))
      else if c = 36 \<and> re = [] then ([], True)
      else apfst ((#) (One c)) (atoms re))"

definition fits :: "uchar \<Rightarrow> uchar \<Rightarrow> bool" where
  "fits c x \<longleftrightarrow> c = 46 \<or> c = x"

fun lang :: "atom list \<Rightarrow> uchar list set" where
  "lang [] = {[]}"
| "lang (One c # as) = {x # w | x w. fits c x \<and> w \<in> lang as}"
| "lang (Rep c # as) = {v @ w | v w. (\<forall>x\<in>set v. fits c x) \<and> w \<in> lang as}"

definition matches_at :: "uchar list \<Rightarrow> uchar list \<Rightarrow> bool" where
  "matches_at re str \<longleftrightarrow> (\<exists>w v. str = w @ v \<and> w \<in> lang (fst (atoms re)) \<and> (snd (atoms re) \<longrightarrow> v = []))"

text \<open>A repeated character in front of a pattern that matches at a later place.\<close>

definition star_at :: "uchar \<Rightarrow> uchar list \<Rightarrow> uchar list \<Rightarrow> bool" where
  "star_at c re str \<longleftrightarrow> (\<exists>u t. str = u @ t \<and> (\<forall>x\<in>set u. fits c x) \<and> matches_at re t)"

lemma Cons_split:
  "(\<exists>u v. t # ts = u @ v \<and> P u v) \<longleftrightarrow> P [] (t # ts) \<or> (\<exists>u v. ts = u @ v \<and> P (t # u) v)"
  unfolding Cons_eq_append_conv by blast

lemma star_at_simps:
  "star_at c re [] \<longleftrightarrow> matches_at re []"
  "star_at c re (t # ts) \<longleftrightarrow> matches_at re (t # ts) \<or> fits c t \<and> star_at c re ts"
  unfolding star_at_def Cons_split by auto

lemma matches_at_star:
  assumes "re \<noteq> []" "hd re = 42"
  shows "matches_at (c # re) str \<longleftrightarrow> star_at c (tl re) str"
proof -
  have at: "atoms (c # re) = apfst ((#) (Rep c)) (atoms (tl re))"
    using assms by simp
  show ?thesis
  proof
    assume "matches_at (c # re) str"
    then obtain u w v where "str = (u @ w) @ v" "\<forall>x\<in>set u. fits c x" "w \<in> lang (fst (atoms (tl re)))" "snd (atoms (tl re)) \<longrightarrow> v = []"
      unfolding matches_at_def at fst_apfst snd_apfst lang.simps by blast
    then show "star_at c (tl re) str"
      unfolding star_at_def matches_at_def append_assoc by blast
  next
    assume "star_at c (tl re) str"
    then obtain u w v where "str = u @ w @ v" "\<forall>x\<in>set u. fits c x" "w \<in> lang (fst (atoms (tl re)))" "snd (atoms (tl re)) \<longrightarrow> v = []"
      unfolding star_at_def matches_at_def by blast
    then show "matches_at (c # re) str"
      unfolding matches_at_def at fst_apfst snd_apfst lang.simps
      by (intro exI [of _ "u @ w"] exI [of _ v]) auto
  qed
qed

lemma matches_at_end: "matches_at [36] str \<longleftrightarrow> str = []"
  by (auto simp: matches_at_def)

lemma matches_at_one:
  assumes "\<not> (re \<noteq> [] \<and> hd re = 42)" "\<not> (c = 36 \<and> re = [])"
  shows "matches_at (c # re) str \<longleftrightarrow> (\<exists>t ts. str = t # ts \<and> fits c t \<and> matches_at re ts)"
proof -
  have at: "atoms (c # re) = apfst ((#) (One c)) (atoms re)"
    using assms by auto
  show ?thesis
    unfolding matches_at_def at fst_apfst snd_apfst lang.simps
    by (rule iffI; elim exE conjE CollectE; hypsubst?; simp?; metis append_Cons)
qed

lemma matchhere_matches_at:
  "matchhere re str \<longleftrightarrow> matches_at re str" "matchstar c re str \<longleftrightarrow> star_at c re str"
proof (induction re str and c re str rule: matchhere_matchstar.induct)
  case (1 str)
  show ?case by (simp add: matches_at_def)
next
  case (2 c re str)
  show ?case
  proof (cases "re \<noteq> [] \<and> hd re = 42")
    case True
    then show ?thesis
      using 2(1) by (simp add: matches_at_star)
  next
    case False
    show ?thesis
    proof (cases "c = 36 \<and> re = []")
      case True
      then show ?thesis
        by (simp add: matches_at_end)
    next
      case f: False
      then show ?thesis
        using False 2(2) [OF False f] unfolding matches_at_one [OF False f] by (auto simp: fits_def split: list.split)
    qed
  qed
next
  case (3 c re)
  then show ?case
    by (simp add: star_at_simps)
next
  case (4 c re t ts)
  then show ?case
    by (auto simp: star_at_simps fits_def)
qed

lemma match_loop_suffix: "match_loop re str \<longleftrightarrow> (\<exists>u t. str = u @ t \<and> matchhere re t)"
proof (induction re str rule: match_loop.induct)
  case (2 re t ts)
  then show ?case
    by (auto simp: Cons_eq_append_conv)
qed simp

text \<open>
  C36: grep's pattern matcher is correct: \<open>match\<close> finds the pattern in the text exactly if some piece
  of the text belongs to the language of the pattern, where a character stands for itself, \<open>.\<close> for any character, a
  character followed by \<open>*\<close> for any number of repetitions (of any characters for \<open>.*\<close>), a leading \<open>^\<close>
  ties the piece to the beginning of the text and a final \<open>$\<close> to its end. The mutually recursive
  search that stops at the first success misses nothing.
\<close>

theorem match_correct:
  "match re str \<longleftrightarrow>
    (let anchored = (re \<noteq> [] \<and> hd re = 94); (as, at_end) = atoms (if anchored then tl re else re)
     in \<exists>u w v. str = u @ w @ v \<and> w \<in> lang as \<and> (anchored \<longrightarrow> u = []) \<and> (at_end \<longrightarrow> v = []))"
  by (auto simp: match_def match_loop_suffix matchhere_matches_at matches_at_def Let_def split: prod.split)

theorem match_correct_witness:
  "\<exists>u w v. [99, 97, 97, 98, 100] = u @ w @ v \<and> w \<in> lang [Rep 97, One 98]"
  using match_correct [of "[97, 42, 98]" "[99, 97, 97, 98, 100]"] by (auto simp: match_def)

section \<open>Correctness of the loops\<close>

text \<open>The lines of a text that end with a newline (what follows the last newline is not one of them), and what follows the last newline;
  \<open>acc\<close> precedes the text.\<close>

fun full_lines :: "uchar list \<Rightarrow> uchar list \<Rightarrow> uchar list list" where
  "full_lines acc [] = []"
| "full_lines acc (c # cs) = (if c = 10 then acc # full_lines [] cs else full_lines (acc @ [c]) cs)"

fun last_part :: "uchar list \<Rightarrow> uchar list \<Rightarrow> uchar list" where
  "last_part acc [] = acc"
| "last_part acc (c # cs) = (if c = 10 then last_part [] cs else last_part (acc @ [c]) cs)"

definition matching :: "uchar list \<Rightarrow> uchar list list \<Rightarrow> uchar list" where
  "matching pattern ls = concat (map (\<lambda>l. l @ [10]) (filter (match pattern) ls))"

lemma full_lines_append: "full_lines acc (xs @ ys) = full_lines acc xs @ full_lines (last_part acc xs) ys"
  by (induction acc xs rule: full_lines.induct) auto

lemma last_part_append: "last_part acc (xs @ ys) = last_part (last_part acc xs) ys"
  by (induction acc xs rule: last_part.induct) auto

lemma full_lines_none: "10 \<notin> set xs \<Longrightarrow> full_lines acc xs = [] \<and> last_part acc xs = acc @ xs"
  by (induction xs arbitrary: acc) auto

lemma full_lines_acc: "10 \<notin> set acc \<Longrightarrow> full_lines [] (acc @ xs) = full_lines acc xs"
  by (simp add: full_lines_append full_lines_none)

lemma full_lines_first:
  assumes "10 \<in> set xs" shows "\<exists>l ls. full_lines acc xs = l # ls \<and> length acc \<le> length l"
  using assms by (induction acc xs rule: full_lines.induct) fastforce+

lemma last_part_no_newline: "10 \<notin> set acc \<Longrightarrow> 10 \<notin> set (last_part acc xs)"
  by (induction acc xs rule: last_part.induct) auto

lemma last_part_subset: "set (last_part acc xs) \<subseteq> set acc \<union> set xs"
  by (induction acc xs rule: last_part.induct) auto

lemma length_last_part: "length (last_part acc xs) \<le> length acc + length xs \<and> (10 \<in> set xs \<longrightarrow> length (last_part acc xs) < length acc + length xs)"
  by (induction acc xs rule: last_part.induct) auto

lemma grep_lines_correct:
  assumes "0 \<notin> set p"
  shows "grep_lines pattern p = (matching pattern (full_lines [] p), last_part [] p)"
  using assms
proof (induction pattern p rule: grep_lines.induct)
  case (1 pattern p)
  define line rest where d: "line = takeWhile (\<lambda>c. c \<noteq> 10 \<and> c \<noteq> 0) p" "rest = dropWhile (\<lambda>c. c \<noteq> 10 \<and> c \<noteq> 0) p"
  have p: "p = line @ rest" "10 \<notin> set line"
    unfolding d by (simp, use set_takeWhileD in fastforce)
  have g: "grep_lines pattern p = (if rest \<noteq> [] \<and> hd rest = 10
      then let (out, q) = grep_lines pattern (tl rest) in (if match pattern line then line @ 10 # out else out, q) else ([], p))"
    unfolding grep_lines.simps [of pattern p] Let_def d by (rule refl)
  show ?case
  proof (cases rest)
    case Nil
    then show ?thesis
      using p unfolding g by (simp add: matching_def full_lines_none)
  next
    case (Cons r rs)
    then have "r = 10"
      using hd_dropWhile [of "\<lambda>c. c \<noteq> 10 \<and> c \<noteq> 0" p] 1(2) p unfolding d [symmetric] by auto
    moreover have "grep_lines pattern rs = (matching pattern (full_lines [] rs), last_part [] rs)"
      using 1(1) [OF d] Cons 1(2) p \<open>r = 10\<close> by simp
    moreover have "full_lines [] p = line # full_lines [] rs" "last_part [] p = last_part [] rs"
      using p Cons \<open>r = 10\<close> by (simp_all add: full_lines_append last_part_append full_lines_none)
    ultimately show ?thesis
      using Cons unfolding g by (simp add: matching_def)
  qed
qed

text \<open>What grep forgets of a buffer without a newline is not needed when all lines fit in the buffer.\<close>

lemma forgotten_part:
  assumes "length kept < 1023" "n = min (1023 - length kept) (length input)" "buf = kept @ take n input"
    and "\<forall>l\<in>set (full_lines [] buf @ full_lines (last_part [] buf) (drop n input)). length l < 1023"
  shows "full_lines (last_part [] buf) (drop n input) =
    full_lines (if length (last_part [] buf) = length buf then [] else last_part [] buf) (drop n input)"
proof (cases "length (last_part [] buf) = length buf \<and> n < length input")
  case True
  then have b: "10 \<notin> set buf" "length buf = 1023"
    using length_last_part [of "[]" buf] assms(1-3) by auto
  then have "full_lines [] buf = []" "last_part [] buf = buf"
    by (simp_all add: full_lines_none)
  then have "\<forall>l\<in>set (full_lines buf (drop n input)). length l < 1023"
    using assms(4) by simp
  then have "10 \<notin> set (drop n input)"
    using full_lines_first [of "drop n input" buf] b(2) by auto
  then show ?thesis
    by (simp add: full_lines_none)
qed (use assms(2) in auto)

lemma grep_loop_lines:
  assumes "0 \<notin> set kept" "0 \<notin> set input" "10 \<notin> set kept" "length kept < 1023" "\<forall>l\<in>set (full_lines kept input). length l < 1023"
  shows "grep_loop (\<lambda>room rest. min room (length rest)) pattern kept input = matching pattern (full_lines kept input)"
    (is "grep_loop ?rd _ _ _ = _")
  using assms
proof (induction ?rd pattern kept input rule: grep_loop.induct)
  case (1 pattern kept input)
  define n where "n = min (1023 - length kept) (length input)"
  define buf where "buf = kept @ take n input"
  have n: "min (?rd (1024 - length kept - 1) input) (min (1024 - length kept - 1) (length input)) = n"
    by (simp add: n_def)
  have g: "grep_lines pattern buf = (matching pattern (full_lines [] buf), last_part [] buf)"
    using 1(2,3) by (intro grep_lines_correct) (auto simp: buf_def dest: in_set_takeD)
  have eq: "full_lines kept input = full_lines [] buf @ full_lines (last_part [] buf) (drop n input)"
    using full_lines_acc [OF 1(4), of input] full_lines_append [of "[]" buf "drop n input"] by (simp add: buf_def)
  have lp: "set (last_part [] buf) \<subseteq> set kept \<union> set input" "length (last_part [] buf) \<le> length buf" "length buf \<le> 1023"
    using last_part_subset [of "[]" buf] length_last_part [of "[]" buf] 1(5) by (auto simp: buf_def n_def dest: in_set_takeD)
  let ?kept = "if length (last_part [] buf) = length buf then [] else last_part [] buf"
  note drop = forgotten_part [OF 1(5) n_def buf_def 1(6) [unfolded eq]]
  show ?case
  proof (cases "n = 0")
    case True
    then have "input = []"
      using 1(5) by (auto simp: n_def min_def split: if_splits)
    then show ?thesis
      using True unfolding grep_loop.simps [of ?rd pattern kept input] n Let_def by (simp add: matching_def)
  next
    case False
    have loop: "grep_loop ?rd pattern kept input = matching pattern (full_lines [] buf) @ grep_loop ?rd pattern ?kept (drop n input)"
      using False unfolding grep_loop.simps [of ?rd pattern kept input] n Let_def buf_def [symmetric] g by simp
    have "grep_loop ?rd pattern ?kept (drop n input) = matching pattern (full_lines ?kept (drop n input))"
    proof (rule 1(1) [OF n [symmetric] False buf_def g [symmetric] refl])
      show "0 \<notin> set ?kept" "0 \<notin> set (drop n input)" "10 \<notin> set ?kept"
        using lp(1) 1(2,3) last_part_no_newline [of "[]" buf] by (auto dest: in_set_dropD)
      show "length ?kept < 1023" using lp(2,3) by simp
      show "\<forall>l\<in>set (full_lines ?kept (drop n input)). length l < 1023"
        using 1(6) unfolding eq drop by simp
    qed
    then show ?thesis
      unfolding eq drop loop by (simp add: matching_def)
  qed
qed

lemma full_lines_text:
  "\<forall>l\<in>set ls. 10 \<notin> set l \<Longrightarrow> 10 \<notin> set rest \<Longrightarrow> full_lines [] (concat (map (\<lambda>l. l @ [10]) ls) @ rest) = ls"
  by (induction ls) (simp_all add: full_lines_append full_lines_none)

text \<open>
  C37: grep prints the matching lines of a file. Let the file consist of the lines \<open>ls\<close>, each ended by a newline, and of what follows the
  last newline. If reading delivers as many bytes as there is room for or the file still has (as reads of regular files do),
  the file has no zero byte and the lines fit in the buffer, then grep writes exactly those of the lines \<open>ls\<close> that match
  the pattern, complete and in order, wherever the 1023-byte reads cut them. What follows the last newline is never printed: a last
  line that is not ended by a newline is dropped even if it matches.
\<close>

theorem grep_prints_matching_lines:
  assumes "\<forall>l\<in>set ls. 10 \<notin> set l \<and> 0 \<notin> set l \<and> length l < 1023" "10 \<notin> set rest" "0 \<notin> set rest"
  shows "grep (\<lambda>room rest. min room (length rest)) pattern (concat (map (\<lambda>l. l @ [10]) ls) @ rest) =
    concat (map (\<lambda>l. l @ [10]) (filter (match pattern) ls))"
proof -
  have "full_lines [] (concat (map (\<lambda>l. l @ [10]) ls) @ rest) = ls"
    using assms by (intro full_lines_text) auto
  with grep_loop_lines [of "[]" "concat (map (\<lambda>l. l @ [10]) ls) @ rest" pattern] assms show ?thesis
    by (auto simp: grep_def matching_def)
qed

text \<open>The lines "abc" and "a" and, with no newline, "c": only the first is printed, although the last one matches as well.\<close>

theorem grep_prints_matching_lines_witness:
  "grep (\<lambda>room rest. min room (length rest)) [98, 42, 99, 36] [97, 98, 99, 10, 97, 10, 99] = [97, 98, 99, 10] \<and>
   match [98, 42, 99, 36] [99]"
  using grep_prints_matching_lines [of "[[97, 98, 99], [97]]" "[99]" "[98, 42, 99, 36]"]
  by (simp add: match_def)

text \<open>
  A read that ends within the first line loses what it delivered: the bytes are forgotten because no newline was found,
  so the line that arrives in two pieces is not found although it matches.
\<close>

lemma grep_loses_short_read:
  "grep (\<lambda>room rest. 2) [104, 101] [104, 101, 108, 108, 111, 10] = []" "match [104, 101] [104, 101, 108, 108, 111]"
  by code_simp+

section \<open>Correctness of wc\<close>

text \<open>The number of words: characters that are not white space and do not follow one in the same word.\<close>

fun words :: "bool \<Rightarrow> uchar list \<Rightarrow> nat" where
  "words w [] = 0"
| "words w (c # cs) = (if wc_space c then words False cs else if w then words True cs else Suc (words True cs))"

definition ends_in_word :: "bool \<Rightarrow> uchar list \<Rightarrow> bool" where
  "ends_in_word w cs = (if cs = [] then w else \<not> wc_space (last cs))"

lemma wc_chars:
  "fold wc_char cs s = s\<lparr>wc_l := wc_l s + of_nat (count_list cs 10), wc_w := wc_w s + of_nat (words (inword s) cs),
     wc_c := wc_c s + of_nat (length cs), inword := ends_in_word (inword s) cs\<rparr>"
proof (induction cs arbitrary: s)
  case Nil
  then show ?case by (simp add: ends_in_word_def)
next
  case (Cons c cs)
  then show ?case
    by (cases s) (auto simp: wc_char_def Let_def ends_in_word_def wc_space_def)
qed

lemma wc_loop_all:
  assumes "\<And>rest. rest \<noteq> [] \<Longrightarrow> 0 < rd 512 rest"
  shows "wc_loop rd input s = (rd 512 [] < 0, fold wc_char input s)"
  using assms
proof (induction rd input s rule: wc_loop.induct)
  case (1 rd input s)
  define n where "n = min (nat (rd 512 input)) (min 512 (length input))"
  show ?case
  proof (cases "n = 0")
    case True
    then have "input = []"
      using 1(2) [of input] by (auto simp: n_def min_def split: if_splits)
    then show ?thesis
      using True unfolding wc_loop.simps [of rd input s] n_def [symmetric] Let_def by simp
  next
    case False
    have "fold wc_char input s = fold wc_char (drop n input) (fold wc_char (take n input) s)"
      by (metis append_take_drop_id comp_apply fold_append)
    then show ?thesis
      using False 1(1) [OF n_def False 1(2)] unfolding wc_loop.simps [of rd input s] n_def [symmetric] Let_def by simp
  qed
qed

text \<open>
  C38: wc counts correctly however the reads cut the input: as long as a read before the end of the
  input delivers at least one byte, the printed numbers are the number of newlines, the number of words (runs of characters
  other than blank, carriage return, tab, newline and vertical tab) and the number of bytes, modulo
  the width of \<open>int\<close>. If the read at the end fails instead of returning 0, it prints only "wc: read error" and exits.
\<close>

theorem wc_counts_all:
  assumes "\<And>rest. rest \<noteq> [] \<Longrightarrow> 0 < rd 512 rest"
  shows "wc rd input name =
    (if rd 512 [] < 0 then (True, printf (map (of_nat \<circ> of_char) ''wc: read error'' @ [10]) [])
     else (False, printf (map (of_nat \<circ> of_char) ''%d %d %d %s'' @ [10])
       [ArgInt (of_nat (count_list input 10)), ArgInt (of_nat (words False input)), ArgInt (of_nat (length input)), ArgStr (Some name)]))"
  by (simp add: wc_def wc_loop_all [of rd, OF assms] wc_chars Let_def)

theorem wc_counts_all_witness:
  "wc (\<lambda>room rest. 3) [97, 32, 98, 98, 10, 99] [120] = (False, Some [49, 32, 51, 32, 54, 32, 120, 10])"
  using wc_counts_all [of "\<lambda>room rest. 3" "[97, 32, 98, 98, 10, 99]" "[120]"]
  by (simp add: wc_space_def) code_simp

end
