(* ===== verification/Spec2Isabelle.thy ===== *)
theory Spec2Isabelle
  imports Crash Trap Console_Input Userlib Block_Spec Fork Boot Spinlock Shell Grep
begin

text \<open>
  A verification development of the os4 kernel, an xv6 derivative for the i386 with disk partitions and mount points, and of
  some of its user programs. File names below are those under src/.

  \<^bold>\<open>How the program is modelled.\<close> A kernel function is a function on a state record. It ends in an \<open>outcome\<close>
  (\<open>Prelude\<close>): it returns (\<open>Ok\<close>), calls \<open>panic\<close> (\<open>Panic\<close>), gives up the CPU on a channel (\<open>Sleep\<close>, with the state at
  that moment), or never comes back (\<open>Spin\<close>, also the outcome of following a pointer that is not valid). \<open>bindk\<close> runs one function after
  the other; \<open>ok r Q\<close> says that \<open>r\<close> returns and the result satisfies \<open>Q\<close>, so that every functional property below is also a
  property of total correctness. The state records extend each other in the order in which the components are built on each other:
  pages, processes, buffers and disks, log, file system, console, open files, kernel. A function takes a record with any extension, so
  what it does not mention it does not change. C integers are words of their width; memory is a function from 32-bit addresses to bytes; an
  array of structures is a list of records and a pointer into it an index, the null pointer \<open>None\<close>. A critical section of a
  spin lock is atomic; the locks themselves are the subject of \<open>Spinlock\<close>.

  \<^bold>\<open>The parts, from the bottom up.\<close>
  \<^item> \<open>Prelude\<close>: types, outcomes, lists, words. \<open>Kalloc\<close> (kalloc.c): the page allocator, whose free list runs through the free
    pages; booting frees every page once, allocating and freeing are inverse. \<open>Boot\<close> (main.c): the first two steps of \<open>main\<close>, the pages below
    4 MB and the kernel's page table.
  \<^item> \<open>Sched\<close>, \<open>Process\<close>, \<open>Fork\<close> (proc.c, proc.h): the process table, \<open>allocproc\<close>, \<open>sleep\<close>, \<open>wakeup\<close>, \<open>kill\<close>, \<open>fork\<close>, \<open>exit\<close>,
    \<open>wait\<close>, the scheduler's turn. \<open>Fork\<close> puts the process table, the page tables, the file table and the inode cache together in
    one theorem on \<open>fork\<close>.
  \<^item> \<open>Vm\<close> (vm.c): page tables in byte memory. \<open>Pages\<close>, \<open>Paging\<close>, \<open>Uspace\<close>, \<open>Uvm\<close>, \<open>Ucopy\<close> prove its operations correct:
    which pages an address space owns, what it translates an address to, what a user program reads at an address and where it may write (\<open>uread\<close>, \<open>uwrite\<close>, which obey
    the access rights of both levels); that mapping, growing,
    copying, freeing and writing to an address space do what they should and leak no page.
  \<^item> \<open>Ide\<close> (ide.c, memide.c, buf.h): the driver with its queue and the controller's registers. It serves requests in
    order, and every request behaves like one of the disk in memory. \<open>Bio\<close> (bio.c): the buffer cache.
  \<^item> \<open>Log\<close>, \<open>Txn\<close>, \<open>Crash\<close> (log.c): the write-ahead log, transactions as their users see them, and recovery: after a crash
    between any two sector writes the disk shows all of a transaction or none of it.
  \<^item> \<open>Fs_Block\<close>, \<open>Block_Spec\<close>, \<open>Inode\<close>, \<open>Icache\<close>, \<open>Inode_Data\<close>, \<open>Dir\<close> (fs.c, fs.h, mbr.h): partitions, the block
    allocator against the set of free data blocks (and what it does when there is none: it leaves the partition), inodes and their cache, file contents, directories, paths and mount points.
  \<^item> \<open>Console\<close>, \<open>Console_Input\<close>, \<open>Kbd\<close> (console.c, uart.c, kbd.c): output, line editing as a refinement of two queues, scan codes.
    \<open>Ring\<close> is the interface of a circular buffer that the console and the pipes implement.
  \<^item> \<open>Pipe\<close>, \<open>File\<close> (pipe.c, file.c): a pipe is a queue of bytes; open files over pipes and inodes.
  \<^item> \<open>Exec\<close>, \<open>Syscall\<close>, \<open>Sysfile\<close>, \<open>Trap\<close> (exec.c, syscall.c, sysproc.c, sysfile.c, trap.c): loading a program, the system calls
    with their arguments fetched from user memory, the dispatchers.
  \<^item> \<open>Spinlock\<close> (spinlock.c): the steps of several CPUs interleaved; mutual exclusion and the nesting of disabled interrupts.
  \<^item> \<open>Cstring\<close>, \<open>Userlib\<close> (string.c, ulib.c, printf.c): copying, comparing, formatted output, numbers.
  \<^item> \<open>Shell\<close>, \<open>Grep\<close> (sh.c, grep.c, wc.c): the shell's parser with a round trip through a printer, the pattern matcher against
    a declarative specification, the loops of grep and wc.

  \<^bold>\<open>Interfaces.\<close> Contracts between components are locales, interpreted on the model's definitions: \<open>page_allocator\<close>
  by \<open>kalloc\<close> and \<open>kfree\<close>, \<open>block_device\<close> by the two disk drivers, \<open>ring_buffer\<close> by the console's input and by the pipes; the lemmas
  of their clients are proved inside them.

  \<^bold>\<open>Bounds and fuel.\<close> Loops over arrays and pages are structural recursion on the list of indices or addresses the loop
  visits. The parser of the shell recurses with fuel \<open>4 * n + 4\<close> for a line of \<open>n\<close> bytes, and \<open>parsecmd_terminates\<close> shows that it
  is never used up. \<open>deallocuvm\<close> visits at most one address for each page of the range. \<open>strlen\<close> and \<open>strcpy\<close>, which end only at a
  zero byte, are partial functions. \<open>setupkvm\<close> is shown to succeed with 66 free pages, one more than the directory and the 64 tables of the
  kernel's map need. The properties of \<open>fork\<close> and of \<open>copyuvm\<close> ask for 1026 free pages besides those of the
  memory itself: a page directory, at most 1024 page tables and the kernel stack.

  \<^bold>\<open>What is assumed.\<close> The linker's symbols, the user program \<open>initcode\<close>, what devices deliver and how many bytes a \<open>read\<close> returns
  are arguments. Disks do not fail in the middle of a sector.

  \<^bold>\<open>Not modelled.\<close> Segment and interrupt descriptors (\<open>seginit\<close>, \<open>tvinit\<close>, \<open>idtinit\<close>), the interrupt controllers and the timer
  (lapic.c, ioapic.c, picirq.c, timer.c), the search for other processors (mp.c), the boot loader and the assembly files; \<open>procdump\<close>,
  which only prints; of the user programs \<open>runcmd\<close> of the shell, the handling of arguments, and the programs that consist of system calls only;
  the allocator of user programs (umalloc.c); mkfs.c and its older versions, which run on the host (\<open>fs_geom\<close> in \<open>Block_Spec\<close> states the layout that mkfs.c gives a
  partition); the test programs.
\<close>

end
